(* ===== verification/Cart_Prelude.thy ===== *)
theory Cart_Prelude
  imports Main "HOL-Library.Word" "HOL-Library.Monad_Syntax" "HOL-Library.Signed_Division"
begin

text \<open>
  Shared vocabulary of the development: the machine integers of the target (ARMv7, so
  \<^verbatim>\<open>size_t\<close> is 32 bits wide), signed C arithmetic whose overflow is undefined behaviour,
  counting loops, and the store of pixel buffers the renderer works on. A computation that may
  run into undefined behaviour (a signed overflow, an access outside a buffer) has an
  \<open>option\<close> result, and \<open>None\<close> is exactly that.
\<close>

section \<open>Machine integers\<close>

unbundle bit_operations_syntax

type_synonym u8 = "8 word"
type_synonym u16 = "16 word"
type_synonym u32 = "32 word"
type_synonym u64 = "64 word"
type_synonym size_t = "32 word"

named_theorems c_defs \<open>definitions of the C-level helpers\<close>

abbreviation SIZE_MAX :: size_t where "SIZE_MAX \<equiv> 0xffffffff"
abbreviation UINT64_MAX :: u64 where "UINT64_MAX \<equiv> 0xffffffffffffffff"
abbreviation INT_MAX :: int where "INT_MAX \<equiv> 2147483647"

definition in_i32 :: "int \<Rightarrow> bool" where
  "in_i32 v \<longleftrightarrow> - 2147483648 \<le> v \<and> v \<le> 2147483647"

definition in_i64 :: "int \<Rightarrow> bool" where
  "in_i64 v \<longleftrightarrow> - 9223372036854775808 \<le> v \<and> v \<le> 9223372036854775807"

text \<open>The result of a signed operation at width 32 or 64: undefined when it does not fit.\<close>

definition i32 :: "int \<Rightarrow> int option" where
  "i32 v = (if in_i32 v then Some v else None)"

definition i64 :: "int \<Rightarrow> int option" where
  "i64 v = (if in_i64 v then Some v else None)"

lemmas c_int_defs = in_i32_def in_i64_def i32_def i64_def

lemma i32_Some [simp]: "in_i32 v \<Longrightarrow> i32 v = Some v"
  by (simp add: i32_def)

lemma i64_Some [simp]: "in_i64 v \<Longrightarrow> i64 v = Some v"
  by (simp add: i64_def)

lemma i32_eq_Some_iff: "i32 v = Some w \<longleftrightarrow> in_i32 v \<and> w = v"
  by (auto simp: i32_def)

lemma i64_eq_Some_iff: "i64 v = Some w \<longleftrightarrow> in_i64 v \<and> w = v"
  by (auto simp: i64_def)

section \<open>Words\<close>

lemma unat_of_int [simp]:
  "0 \<le> v \<Longrightarrow> v < 2 ^ LENGTH('a) \<Longrightarrow> unat (of_int v :: 'a::len word) = nat v"
  by (simp add: unat_eq_nat_uint uint_word_of_int)

lemma size_t_of_int [simp]: "0 \<le> v \<Longrightarrow> v < 4294967296 \<Longrightarrow> unat (of_int v :: size_t) = nat v"
  by (simp add: unat_of_int)

lemma word_of_int_ge_iff:
  "0 \<le> v \<Longrightarrow> v < 4294967296 \<Longrightarrow> (of_int v :: 32 word) \<ge> w \<longleftrightarrow> uint w \<le> v"
  by (simp add: word_le_def uint_word_of_int)

text \<open>Crossing between the signed and the unsigned reading of a size.\<close>

lemma nat_less_unat: "v < uint w \<Longrightarrow> nat v < unat w \<or> v < 0"
  by (metis nat_less_iff not_less uint_nat nat_int zless_nat_conj linorder_not_le nat_mono_iff)

lemma int_less_uint: "i < unat w \<longleftrightarrow> int i < uint w"
  by (metis of_nat_less_iff uint_nat)

lemma unat_inc: "w \<noteq> - 1 \<Longrightarrow> unat (w + 1) = Suc (unat w)" for w :: "'a::len word"
  using unatSuc [of w] by (simp add: add.commute eq_neg_iff_add_eq_0)

lemma unat_ucast_fits:
  "unat w < 2 ^ LENGTH('b) \<Longrightarrow> unat (ucast w :: 'b::len word) = unat w"
  by (simp add: unsigned_ucast_eq unsigned_take_bit_eq take_bit_nat_eq_self)

lemma unat_ucast_32_64 [simp]: "unat (ucast (w :: 32 word) :: 64 word) = unat w"
  using unsigned_less [of w, where ?'a = nat] by (intro unat_ucast_fits) simp

lemma word_mod_less: "w \<noteq> 0 \<Longrightarrow> v mod w < (w :: 'a::len word)"
  by (simp add: word_less_nat_alt unat_mod unat_gt_0)

lemma unat_diff: "v \<le> w \<Longrightarrow> unat (w - v) = unat w - unat v" for v w :: "'a::len word"
  by (rule unat_sub)

lemma unat_sum: "unat v + unat w < 2 ^ LENGTH('a) \<Longrightarrow> unat (v + w) = unat v + unat (w :: 'a::len word)"
  by (rule unat_add_lem [THEN iffD1])

text \<open>The clipping idioms of the drawing code as \<open>min\<close> and \<open>max\<close>.\<close>

lemma clip_eqs:
  "(if x < 0 then 0 else x) = max 0 (x :: int)"
  "(if m < x then m else x) = min m (x :: int)"
  "(if m \<le> x then m - 1 else x) = min (m - 1) (x :: int)"
  by (auto simp: max_def min_def)

section \<open>Counting loops\<close>

text \<open>
  \<^verbatim>\<open>for (i = lo; i < hi; i++) body(i)\<close> over a state, stopping at undefined behaviour.
\<close>

function for_int :: "int \<Rightarrow> int \<Rightarrow> (int \<Rightarrow> 's \<Rightarrow> 's option) \<Rightarrow> 's \<Rightarrow> 's option" where
  "for_int i hi body s =
     (if i < hi
      then (case body i s of None \<Rightarrow> None | Some s' \<Rightarrow> for_int (i + 1) hi body s')
      else Some s)"
  by pat_completeness auto
termination
  by (relation "measure (\<lambda>(i, hi, body, s). nat (hi - i))") auto

declare for_int.simps [simp del]

lemma for_int_done [simp]: "hi \<le> i \<Longrightarrow> for_int i hi body s = Some s"
  by (simp add: for_int.simps)

lemma for_int_step:
  "i < hi \<Longrightarrow> body i s = Some s' \<Longrightarrow> for_int i hi body s = for_int (i + 1) hi body s'"
  by (simp add: for_int.simps [of i])

text \<open>The invariant rule: a body that keeps the invariant and never fails makes the loop return.\<close>

lemma for_int_rule:
  assumes "lo \<le> hi" and "I lo s"
    and body: "\<And>i s. lo \<le> i \<Longrightarrow> i < hi \<Longrightarrow> I i s \<Longrightarrow> \<exists>s'. body i s = Some s' \<and> I (i + 1) s'"
  shows "\<exists>s'. for_int lo hi body s = Some s' \<and> I hi s'"
  using assms
proof (induction lo hi body s rule: for_int.induct)
  case (1 i hi body s)
  show ?case
  proof (cases "i < hi")
    case True
    with "1.prems" obtain s' where s': "body i s = Some s'" "I (i + 1) s'" by blast
    have "\<exists>s''. for_int (i + 1) hi body s' = Some s'' \<and> I hi s''"
      using "1.IH" [OF True s'(1)] True s' "1.prems"(3) by force
    with True s' show ?thesis by (simp add: for_int_step)
  next
    case False
    with "1.prems" show ?thesis by simp
  qed
qed

text \<open>A loop whose state is determined by the counter: it ends in the state of the bound.\<close>

lemma for_int_trace:
  assumes "lo \<le> hi"
    and "\<And>i. lo \<le> i \<Longrightarrow> i < hi \<Longrightarrow> body i (S i) = Some (S (i + 1))"
  shows "for_int lo hi body (S lo) = Some (S hi)"
  using for_int_rule [of lo hi "\<lambda>i s. s = S i" "S lo" body] assms by blast

lemma for_int_cong:
  assumes "\<And>i s. lo \<le> i \<Longrightarrow> i < hi \<Longrightarrow> f i s = g i s"
  shows "for_int lo hi f s = for_int lo hi g s"
  using assms
proof (induction lo hi f s rule: for_int.induct)
  case (1 i hi f s)
  show ?case
  proof (cases "i < hi")
    case True
    have "for_int (i + 1) hi f s' = for_int (i + 1) hi g s'" if "f i s = Some s'" for s'
      using "1.IH" [OF True that] "1.prems" by simp
    with True "1.prems" [of i s] show ?thesis
      by (simp add: for_int.simps [of i] split: option.split)
  qed simp
qed

section \<open>The store of pixel buffers\<close>

text \<open>
  Buffers of 32-bit pixels, by address. The C code passes them as \<^verbatim>\<open>uint32_t *\<close>, and two
  pointers may name the same buffer. A write outside a buffer is undefined behaviour.
\<close>

type_synonym addr = nat
type_synonym heap = "addr \<Rightarrow> u32 list"

definition poke :: "addr \<Rightarrow> nat \<Rightarrow> u32 \<Rightarrow> heap \<Rightarrow> heap option" where
  "poke b i v h = (if i < length (h b) then Some (h(b := (h b)[i := v])) else None)"

definition peek :: "addr \<Rightarrow> nat \<Rightarrow> heap \<Rightarrow> u32 option" where
  "peek b i h = (if i < length (h b) then Some (h b ! i) else None)"

lemma peek_poke:
  "poke b i v h = Some h' \<Longrightarrow> peek b j h' = (if j = i then Some v else peek b j h)"
  by (auto simp: poke_def peek_def split: if_splits)

lemma poke_length: "poke b i v h = Some h' \<Longrightarrow> length (h' a) = length (h a)"
  by (auto simp: poke_def split: if_splits)

text \<open>\<^verbatim>\<open>memcpy(dst + off, src, n * sizeof(uint32_t))\<close> between two different buffers.\<close>

definition blit :: "addr \<Rightarrow> nat \<Rightarrow> addr \<Rightarrow> nat \<Rightarrow> heap \<Rightarrow> heap option" where
  "blit dst off src n h =
     (if off + n \<le> length (h dst) \<and> n \<le> length (h src)
      then Some (h(dst := take off (h dst) @ take n (h src) @ drop (off + n) (h dst))) else None)"

lemma blit_Some:
  assumes "off + n \<le> length (h dst)" "n \<le> length (h src)"
  obtains h' where "blit dst off src n h = Some h'" "\<And>a. a \<noteq> dst \<Longrightarrow> h' a = h a"
    "length (h' dst) = length (h dst)"
    "\<And>i. h' dst ! i = (if off \<le> i \<and> i < off + n then h src ! (i - off) else h dst ! i)"
proof -
  let ?xs = "take off (h dst) @ take n (h src) @ drop (off + n) (h dst)"
  have len: "length (take off (h dst)) = off" "length (take n (h src)) = n"
    using assms by simp_all
  have nth: "?xs ! i = (if off \<le> i \<and> i < off + n then h src ! (i - off) else h dst ! i)" for i
    using assms unfolding nth_append len by (auto simp: not_less)
  have "length ?xs = length (h dst)" using assms by simp
  with nth assms show thesis
    by (intro that [of "h(dst := ?xs)"]) (simp_all add: blit_def)
qed

end
