(* ===== verification/C_Text.thy ===== *)
theory C_Text
  imports Cart_Prelude
begin

text \<open>
  The text services of the C library that the sources use: decimal conversions of
  \<^verbatim>\<open>printf\<close>, \<^verbatim>\<open>strtoul\<close> and \<^verbatim>\<open>strtoull\<close> at base 10 with their end
  pointer and range error, and the character classes. A C string is a \<open>string\<close> without
  its terminating NUL.
\<close>

section \<open>Decimal output\<close>

definition digit :: "nat \<Rightarrow> char" where
  "digit d = char_of (48 + d)"

fun dec :: "nat \<Rightarrow> string" where
  "dec n = (if n < 10 then [digit n] else dec (n div 10) @ [digit (n mod 10)])"

declare dec.simps [simp del]

definition dec_int :: "int \<Rightarrow> string" where
  "dec_int v = (if v < 0 then CHR ''-'' # dec (nat (- v)) else dec (nat v))"

definition bytes_of :: "string \<Rightarrow> u8 list" where
  "bytes_of s = map (\<lambda>c. of_nat (of_char c)) s"

lemma length_bytes_of [simp]: "length (bytes_of s) = length s"
  by (simp add: bytes_of_def)

text \<open>The C string at the start of a buffer.\<close>

definition c_string :: "u8 list \<Rightarrow> string" where
  "c_string bs = map (\<lambda>b. char_of (unat b)) (takeWhile (\<lambda>b. b \<noteq> 0) bs)"

section \<open>Character classes and numbers\<close>

definition is_digit :: "char \<Rightarrow> bool" where
  "is_digit c \<longleftrightarrow> 48 \<le> (of_char c :: nat) \<and> (of_char c :: nat) \<le> 57"

definition is_space :: "char \<Rightarrow> bool" where
  "is_space c \<longleftrightarrow> (of_char c :: nat) = 32 \<or> (9 \<le> (of_char c :: nat) \<and> (of_char c :: nat) \<le> 13)"

definition digit_val :: "char \<Rightarrow> nat" where
  "digit_val c = of_char c - 48"

definition num_val :: "string \<Rightarrow> nat" where
  "num_val ds = foldl (\<lambda>a c. 10 * a + digit_val c) 0 ds"

text \<open>
  \<open>strtou w text = (value, erange, rest)\<close> is \<^verbatim>\<open>strtoul\<close> (\<open>w = 32\<close> on the target) or
  \<^verbatim>\<open>strtoull\<close> (\<open>w = 64\<close>) at base 10: leading white space and one sign are skipped, the
  longest run of digits is converted, a minus sign negates in the unsigned type, a number that
  does not fit gives the largest value and ERANGE, and without a digit nothing is consumed.
\<close>

definition strtou :: "nat \<Rightarrow> string \<Rightarrow> nat \<times> bool \<times> string" where
  "strtou w text =
     (let body = dropWhile is_space text;
          neg = (body \<noteq> [] \<and> hd body = CHR ''-'');
          unsig = (if body \<noteq> [] \<and> (hd body = CHR ''-'' \<or> hd body = CHR ''+'') then tl body
                   else body);
          ds = takeWhile is_digit unsig;
          rest = dropWhile is_digit unsig;
          v = num_val ds
      in if ds = [] then (0, False, text)
         else if 2 ^ w \<le> v then (2 ^ w - 1, True, rest)
         else if neg then ((2 ^ w - v) mod 2 ^ w, False, rest)
         else (v, False, rest))"

text \<open>The C string at the start of a character buffer.\<close>

definition c_str :: "string \<Rightarrow> string" where
  "c_str buffer = takeWhile (\<lambda>c. c \<noteq> CHR 0x00) buffer"

section \<open>Round trips\<close>

lemma digit_props [simp]: "d < 10 \<Longrightarrow> is_digit (digit d)" "d < 10 \<Longrightarrow> digit_val (digit d) = d"
  by (simp_all add: is_digit_def digit_val_def digit_def)

lemma digit_not_space: "is_digit c \<Longrightarrow> \<not> is_space c"
  by (auto simp: is_digit_def is_space_def)

lemma digit_not_sign: "is_digit c \<Longrightarrow> c \<noteq> CHR ''-'' \<and> c \<noteq> CHR ''+''"
  by (auto simp: is_digit_def)

lemma num_val_snoc: "num_val (ds @ [c]) = 10 * num_val ds + digit_val c"
  by (simp add: num_val_def)

lemma dec_digits: "list_all is_digit (dec n)"
proof (induction n rule: dec.induct)
  case (1 n)
  then show ?case by (subst dec.simps) simp
qed

lemma num_val_dec [simp]: "num_val (dec n) = n"
proof (induction n rule: dec.induct)
  case (1 n)
  show ?case
  proof (cases "n < 10")
    case True
    then show ?thesis by (subst dec.simps) (simp add: num_val_def)
  next
    case False
    with 1 show ?thesis by (subst dec.simps) (simp add: num_val_snoc)
  qed
qed

lemma dec_not_Nil [simp]: "dec n \<noteq> []"
  by (subst dec.simps) simp

lemma dec_inj: "dec m = dec n \<longleftrightarrow> m = n"
  by (metis num_val_dec)

lemma length_dec: "n < 10 ^ Suc k \<Longrightarrow> length (dec n) \<le> Suc k"
proof (induction k arbitrary: n)
  case 0
  then show ?case by (subst dec.simps) simp
next
  case (Suc k)
  then have "n div 10 < 10 ^ Suc k" by simp
  with Suc.IH [OF this] show ?case by (subst dec.simps) simp
qed

lemma takeWhile_all: "list_all P xs \<Longrightarrow> (ys = [] \<or> \<not> P (hd ys)) \<Longrightarrow> takeWhile P (xs @ ys) = xs"
  by (induction xs) (cases ys; auto)+

lemma dropWhile_all: "list_all P xs \<Longrightarrow> (ys = [] \<or> \<not> P (hd ys)) \<Longrightarrow> dropWhile P (xs @ ys) = ys"
  by (induction xs) (cases ys; auto)+

lemma strtou_dec:
  assumes "n < 2 ^ w" and "rest = [] \<or> \<not> is_digit (hd rest)"
  shows "strtou w (dec n @ rest) = (n, False, rest)"
proof -
  obtain c cs where c: "dec n = c # cs" "is_digit c"
    using dec_digits [of n] by (cases "dec n") auto
  note tw = takeWhile_all [OF dec_digits assms(2), of n] dropWhile_all [OF dec_digits assms(2), of n]
  have "dropWhile is_space (dec n @ rest) = dec n @ rest"
    using c digit_not_space by simp
  then show ?thesis
    using assms(1) c digit_not_sign [OF c(2)] tw
    by (simp add: strtou_def Let_def num_val_dec [of n, unfolded c])
qed

lemma strtou_bound:
  assumes "strtou w text = (v, e, rest)"
  shows "v < 2 ^ w"
proof -
  have "(0::nat) < 2 ^ w" by simp
  with assms show ?thesis
    by (auto simp: strtou_def Let_def split: if_splits)
qed

end
