(* ===== verification/Canvas.thy ===== *)
theory Canvas
  imports C_Text
begin

text \<open>
  The software canvas (\<^verbatim>\<open>cart/src/canvas.c\<close>, \<^verbatim>\<open>cart/include/cart/canvas.h\<close>): validation and
  size of a canvas, colours packed as R, G, B, A bytes, blending, and the clipped drawing
  primitives. A pointer that may be NULL is an \<open>option\<close>; the pixels live in the store, under
  the address the canvas holds. The drawing primitives are shown to be exactly the painting of
  the unclipped shape intersected with the canvas, and to never write outside the buffer.
\<close>

section \<open>The canvas and its validity\<close>

record cart_canvas =
  pixels :: "addr option"
  width :: size_t
  height :: size_t
  stride :: size_t

definition cart_canvas_valid :: "cart_canvas option \<Rightarrow> bool" where
  "cart_canvas_valid canvas =
     (case canvas of
        None \<Rightarrow> False
      | Some c \<Rightarrow>
          if pixels c = None \<or> width c = 0 \<or> height c = 0 \<or> stride c < width c then False
          else if height c > SIZE_MAX div stride c then False
          else if stride c * height c > SIZE_MAX div 4 then False
          else True)"

text \<open>
  \<^verbatim>\<open>cart_canvas_init\<close> returns the status and the new contents of \<open>*canvas\<close>, which is
  unchanged (\<open>None\<close>: no store takes place) on an error.
\<close>

definition cart_canvas_init ::
    "bool \<Rightarrow> addr option \<Rightarrow> size_t \<Rightarrow> size_t \<Rightarrow> size_t \<Rightarrow> int \<times> cart_canvas option" where
  "cart_canvas_init canvas_is_null pixels_arg w ht st =
     (if canvas_is_null then (- 1, None)
      else let candidate = \<lparr>pixels = pixels_arg, width = w, height = ht, stride = st\<rparr>
           in if \<not> cart_canvas_valid (Some candidate) then (- 1, None)
              else (0, Some candidate))"

definition cart_canvas_byte_size :: "cart_canvas option \<Rightarrow> size_t" where
  "cart_canvas_byte_size canvas =
     (if \<not> cart_canvas_valid canvas then 0
      else stride (the canvas) * height (the canvas) * 4)"

section \<open>Colours\<close>

definition clamp_channel :: "int \<Rightarrow> int" where
  "clamp_channel v = (if v < 0 then 0 else if v > 255 then 255 else v)"

definition cart_rgba :: "int \<Rightarrow> int \<Rightarrow> int \<Rightarrow> u32" where
  "cart_rgba red green blue =
     of_int (clamp_channel red) OR
     push_bit 8 (of_int (clamp_channel green)) OR
     push_bit 16 (of_int (clamp_channel blue)) OR 0xff000000"

text \<open>\<^verbatim>\<open>>> 8\<close> on a negative \<^verbatim>\<open>int\<close> is the arithmetic shift of the target's compiler.\<close>

definition cart_mix :: "u32 \<Rightarrow> u32 \<Rightarrow> u32 \<Rightarrow> u32" where
  "cart_mix from to amount =
     (let amount = (if amount > 256 then 256 else amount);
          from_red = uint (from AND 0xff);
          from_green = uint (drop_bit 8 from AND 0xff);
          from_blue = uint (drop_bit 16 from AND 0xff);
          to_red = uint (to AND 0xff);
          to_green = uint (drop_bit 8 to AND 0xff);
          to_blue = uint (drop_bit 16 to AND 0xff)
      in cart_rgba (from_red + drop_bit 8 ((to_red - from_red) * uint amount))
                   (from_green + drop_bit 8 ((to_green - from_green) * uint amount))
                   (from_blue + drop_bit 8 ((to_blue - from_blue) * uint amount)))"

section \<open>Drawing\<close>

text \<open>The index expression \<^verbatim>\<open>(size_t)row * canvas->stride + (size_t)column\<close>.\<close>

definition pixel_index :: "cart_canvas \<Rightarrow> int \<Rightarrow> int \<Rightarrow> nat" where
  "pixel_index c row column = unat ((of_int row :: size_t) * stride c + of_int column)"

definition cart_canvas_px :: "cart_canvas option \<Rightarrow> int \<Rightarrow> int \<Rightarrow> u32 \<Rightarrow> heap \<Rightarrow> heap option" where
  "cart_canvas_px canvas x y color h =
     (if \<not> cart_canvas_valid canvas \<or> x < 0 \<or> y < 0 \<or>
         (of_int x :: size_t) \<ge> width (the canvas) \<or> (of_int y :: size_t) \<ge> height (the canvas)
      then Some h
      else poke (the (pixels (the canvas))) (pixel_index (the canvas) y x) color h)"

definition cart_canvas_rect ::
    "cart_canvas option \<Rightarrow> int \<Rightarrow> int \<Rightarrow> int \<Rightarrow> int \<Rightarrow> u32 \<Rightarrow> heap \<Rightarrow> heap option" where
  "cart_canvas_rect canvas x y w ht color h =
     (if \<not> cart_canvas_valid canvas \<or> w \<le> 0 \<or> ht \<le> 0 then Some h
      else let c = the canvas in do {
        x1 \<leftarrow> i64 (x + w);
        y1 \<leftarrow> i64 (y + ht);
        let x0 = (if x < 0 then 0 else x);
        let y0 = (if y < 0 then 0 else y);
        let x1 = (if x1 > uint (width c) then uint (width c) else x1);
        let y1 = (if y1 > uint (height c) then uint (height c) else y1);
        if x0 \<ge> x1 \<or> y0 \<ge> y1 then Some h
        else for_int y0 y1 (\<lambda>row. for_int x0 x1 (\<lambda>column.
               poke (the (pixels c)) (pixel_index c row column) color)) h
      })"

definition cart_canvas_circle ::
    "cart_canvas option \<Rightarrow> int \<Rightarrow> int \<Rightarrow> int \<Rightarrow> u32 \<Rightarrow> heap \<Rightarrow> heap option" where
  "cart_canvas_circle canvas center_x center_y radius color h =
     (if \<not> cart_canvas_valid canvas \<or> radius < 0 then Some h
      else let c = the canvas in do {
        left \<leftarrow> i64 (center_x - radius);
        top \<leftarrow> i64 (center_y - radius);
        right \<leftarrow> i64 (center_x + radius);
        bottom \<leftarrow> i64 (center_y + radius);
        let left = (if left < 0 then 0 else left);
        let top = (if top < 0 then 0 else top);
        let right = (if right \<ge> uint (width c) then uint (width c) - 1 else right);
        let bottom = (if bottom \<ge> uint (height c) then uint (height c) - 1 else bottom);
        if left > right \<or> top > bottom then Some h
        else do {
          squared_radius \<leftarrow> i64 (radius * radius);
          for_int top (bottom + 1) (\<lambda>row h. do {
            delta_y \<leftarrow> i64 (row - center_y);
            for_int left (right + 1) (\<lambda>column h. do {
              delta_x \<leftarrow> i64 (column - center_x);
              xx \<leftarrow> i64 (delta_x * delta_x);
              yy \<leftarrow> i64 (delta_y * delta_y);
              d \<leftarrow> i64 (xx + yy);
              if d \<le> squared_radius then poke (the (pixels c)) (pixel_index c row column) color h
              else Some h
            }) h
          }) h
        }
      })"

section \<open>PPM output\<close>

text \<open>
  The stream is a parameter: \<open>put bs\<close> is one \<^verbatim>\<open>fprintf\<close> or \<^verbatim>\<open>fwrite\<close> of the bytes
  \<open>bs\<close> (\<open>False\<close> on a short or failed write), \<open>ferr\<close> is \<^verbatim>\<open>ferror\<close>. The flag of the
  loop state records the early \<^verbatim>\<open>return -1\<close>.
\<close>

definition rgb_bytes :: "u32 \<Rightarrow> u8 list" where
  "rgb_bytes color =
     [ucast (color AND 0xff), ucast (drop_bit 8 color AND 0xff), ucast (drop_bit 16 color AND 0xff)]"

definition ppm_header :: "cart_canvas \<Rightarrow> u8 list" where
  "ppm_header c =
     bytes_of (''P6'' @ [CHR 10] @ dec (unat (width c)) @ '' '' @ dec (unat (height c)) @
               [CHR 10] @ ''255'' @ [CHR 10])"

definition cart_canvas_write_ppm ::
    "(u8 list \<Rightarrow> 's \<Rightarrow> bool \<times> 's) \<Rightarrow> ('s \<Rightarrow> bool) \<Rightarrow> cart_canvas option \<Rightarrow> heap \<Rightarrow>
     's option \<Rightarrow> (int \<times> 's option) option" where
  "cart_canvas_write_ppm put ferr canvas h stream =
     (if \<not> cart_canvas_valid canvas \<or> stream = None then Some (- 1, stream)
      else let c = the canvas; (ok, s) = put (ppm_header c) (the stream) in
        if \<not> ok then Some (- 1, Some s)
        else do {
          (failed, s) \<leftarrow>
            for_int 0 (uint (height c)) (\<lambda>row.
              for_int 0 (uint (width c)) (\<lambda>column (failed, s).
                if failed then Some (failed, s)
                else do {
                  color \<leftarrow> peek (the (pixels c)) (pixel_index c row column) h;
                  let (ok, s) = put (rgb_bytes color) s;
                  Some (\<not> ok, s)
                })) (False, s);
          if failed then Some (- 1, Some s)
          else Some (if ferr s then - 1 else 0, Some s)
        })"

section \<open>The size of a valid canvas\<close>

lemma cart_canvas_validE:
  assumes "cart_canvas_valid canvas"
  obtains c b where "canvas = Some c" "pixels c = Some b" "0 < unat (width c)"
    "0 < unat (height c)" "unat (width c) \<le> unat (stride c)"
    "unat (stride c) * unat (height c) * 4 < 2 ^ 32"
proof -
  from assms obtain c where c: "canvas = Some c" and v: "cart_canvas_valid (Some c)"
    by (cases canvas) (auto simp: cart_canvas_valid_def)
  from v have p: "pixels c \<noteq> None" and wd: "width c \<noteq> 0" and ht: "height c \<noteq> 0"
    and st: "width c \<le> stride c" and h1: "height c \<le> SIZE_MAX div stride c"
    and h2: "stride c * height c \<le> SIZE_MAX div 4"
    by (auto simp: cart_canvas_valid_def not_less split: if_splits)
  from wd ht st have pos: "0 < unat (width c)" "0 < unat (height c)"
    "unat (width c) \<le> unat (stride c)"
    by (simp_all add: unat_gt_0 word_le_nat_alt)
  from h1 have "unat (height c) \<le> 4294967295 div unat (stride c)"
    by (simp add: word_le_nat_alt unat_div)
  then have "unat (height c) * unat (stride c) \<le> 4294967295"
    using pos by (simp add: less_eq_div_iff_mult_less_eq)
  then have prod: "unat (stride c * height c) = unat (stride c) * unat (height c)"
    by (subst unat_mult_lem [THEN iffD1]) (simp_all add: mult.commute)
  from h2 have "unat (stride c * height c) \<le> 4294967295 div 4"
    by (simp add: word_le_nat_alt unat_div)
  then have "unat (stride c) * unat (height c) * 4 < 2 ^ 32"
    unfolding prod by (simp add: mult.commute)
  with p c pos that show thesis by blast
qed


lemma canvas_bytes:
  assumes "cart_canvas_valid (Some c)"
  shows "unat (cart_canvas_byte_size (Some c)) = unat (stride c) * unat (height c) * 4"
proof -
  have b: "unat (stride c) * unat (height c) * 4 < 2 ^ 32"
    using assms by (auto elim: cart_canvas_validE)
  then have "unat (stride c * height c) = unat (stride c) * unat (height c)"
    by (subst unat_mult_lem [THEN iffD1]) (simp_all add: mult.commute)
  moreover from this b have "unat (stride c * height c * 4) = unat (stride c * height c) * 4"
    by (subst unat_mult_lem [THEN iffD1]) simp_all
  ultimately show ?thesis using assms by (simp add: cart_canvas_byte_size_def)
qed

text \<open>Inside the canvas the index expression does not wrap and stays below the buffer size.\<close>

lemma pixel_index_in:
  assumes "cart_canvas_valid (Some c)" and "0 \<le> row" "row < uint (height c)"
    and "0 \<le> column" "column < uint (width c)"
  shows "pixel_index c row column = nat row * unat (stride c) + nat column"
    and "pixel_index c row column < unat (stride c) * unat (height c)"
proof -
  obtain st: "unat (width c) \<le> unat (stride c)" and
    sz: "unat (stride c) * unat (height c) * 4 < 2 ^ 32"
    using assms(1) by (auto elim: cart_canvas_validE)
  have r: "nat row < unat (height c)" and co: "nat column < unat (stride c)"
    using assms st nat_less_unat [of row] nat_less_unat [of column] by fastforce+
  have "nat row * unat (stride c) + nat column < (nat row + 1) * unat (stride c)"
    using co by simp
  also have "\<dots> \<le> unat (height c) * unat (stride c)"
    using r by (intro mult_le_mono1) simp
  finally have lt: "nat row * unat (stride c) + nat column < unat (stride c) * unat (height c)"
    by (simp add: mult.commute)
  have un: "unat (of_int row :: size_t) = nat row" "unat (of_int column :: size_t) = nat column"
    using assms uint_lt2p [of "height c"] uint_lt2p [of "width c"] by auto
  have "unat ((of_int row :: size_t) * stride c) = nat row * unat (stride c)"
    using lt sz un by (subst unat_mult_lem [THEN iffD1]) (auto simp: mult.commute)
  then show eq: "pixel_index c row column = nat row * unat (stride c) + nat column"
    using lt sz un unfolding pixel_index_def
    by (subst unat_add_lem [THEN iffD1]) (auto simp: mult.commute)
  with lt show "pixel_index c row column < unat (stride c) * unat (height c)" by simp
qed

section \<open>Painting: the reference semantics of the drawing primitives\<close>

text \<open>
  A canvas is backed when its buffer holds at least \<open>stride * height\<close> pixels.
  \<open>paint c P v h\<close> sets every pixel \<open>(x, y)\<close> of the canvas with \<open>P x y\<close> to \<open>v\<close>,
  and nothing else: neither pixels outside the shape, nor the padding between rows, nor
  another buffer.
\<close>

definition backed :: "cart_canvas \<Rightarrow> heap \<Rightarrow> bool" where
  "backed c h \<longleftrightarrow> unat (stride c) * unat (height c) \<le> length (h (the (pixels c)))"

definition paint :: "cart_canvas \<Rightarrow> (int \<Rightarrow> int \<Rightarrow> bool) \<Rightarrow> u32 \<Rightarrow> heap \<Rightarrow> heap" where
  "paint c P v h =
     (let b = the (pixels c); s = unat (stride c)
      in h(b := map (\<lambda>i. if i mod s < unat (width c) \<and> i div s < unat (height c) \<and>
                             P (int (i mod s)) (int (i div s))
                          then v else h b ! i) [0..<length (h b)]))"

lemma length_paint [simp]: "length (paint c P v h a) = length (h a)"
  by (simp add: paint_def Let_def)

lemma paint_nth:
  "i < length (h a) \<Longrightarrow> paint c P v h a ! i =
     (if a = the (pixels c) \<and> i mod unat (stride c) < unat (width c) \<and>
         i div unat (stride c) < unat (height c) \<and>
         P (int (i mod unat (stride c))) (int (i div unat (stride c)))
      then v else h a ! i)"
  by (auto simp: paint_def Let_def)

lemma backed_paint [simp]: "backed c (paint d P v h) \<longleftrightarrow> backed c h"
  by (simp add: backed_def)

lemma paint_cong:
  assumes "\<And>x y. 0 \<le> x \<Longrightarrow> x < uint (width c) \<Longrightarrow> 0 \<le> y \<Longrightarrow> y < uint (height c) \<Longrightarrow>
                  P x y = Q x y"
  shows "paint c P v h = paint c Q v h"
proof -
  have "P (int i) (int j) = Q (int i) (int j)"
    if "i < unat (width c)" "j < unat (height c)" for i j
    using assms [of "int i" "int j"] that by (simp add: int_less_uint)
  then show ?thesis by (intro ext nth_equalityI) (auto simp: paint_nth)
qed

lemma paint_nothing:
  assumes "\<And>x y. 0 \<le> x \<Longrightarrow> x < uint (width c) \<Longrightarrow> 0 \<le> y \<Longrightarrow> y < uint (height c) \<Longrightarrow> \<not> P x y"
  shows "paint c P v h = h"
proof -
  have "paint c P v h = paint c (\<lambda>_ _. False) v h"
    using assms by (intro paint_cong) blast
  also have "\<dots> = h"
    by (simp add: paint_def Let_def map_nth)
  finally show ?thesis .
qed

text \<open>One more pixel of the same colour extends the painted shape by that pixel.\<close>

lemma poke_paint:
  assumes v: "cart_canvas_valid (Some c)" and b: "backed c h"
    and "0 \<le> row" "row < uint (height c)" "0 \<le> column" "column < uint (width c)"
  shows "poke (the (pixels c)) (pixel_index c row column) v (paint c P v h) =
         Some (paint c (\<lambda>x y. P x y \<or> (x = column \<and> y = row)) v h)"
proof -
  let ?s = "unat (stride c)" and ?b = "the (pixels c)"
  have st: "unat (width c) \<le> ?s" and s0: "0 < ?s"
    using v by (auto elim!: cart_canvas_validE)
  note ix = pixel_index_in [OF v assms(3-6)]
  have col: "nat column < ?s" "nat column < unat (width c)" "nat row < unat (height c)"
    using assms st nat_less_unat [of row "height c"] nat_less_unat [of column "width c"]
    by linarith+
  have at: "(int (i mod ?s) = column \<and> int (i div ?s) = row) = (i = pixel_index c row column)"
    for i
  proof
    assume "int (i mod ?s) = column \<and> int (i div ?s) = row"
    then have "i mod ?s = nat column" "i div ?s = nat row" by auto
    then show "i = pixel_index c row column"
      using ix(1) mult_div_mod_eq [of ?s i] by (simp add: mult.commute)
  next
    assume "i = pixel_index c row column"
    with ix(1) col(1) assms show "int (i mod ?s) = column \<and> int (i div ?s) = row" by simp
  qed
  let ?h = "paint c P v h" and ?h' = "paint c (\<lambda>x y. P x y \<or> (x = column \<and> y = row)) v h"
  have lt: "pixel_index c row column < length (h ?b)"
    using ix(2) b by (simp add: backed_def)
  have "?h(?b := (?h ?b)[pixel_index c row column := v]) = ?h'"
  proof (intro ext nth_equalityI)
    fix a i assume "i < length ((?h(?b := (?h ?b)[pixel_index c row column := v])) a)"
    then have i: "i < length (h a)" by (simp split: if_splits)
    show "(?h(?b := (?h ?b)[pixel_index c row column := v])) a ! i = ?h' a ! i"
    proof (cases "a = ?b \<and> i = pixel_index c row column")
      case True
      with at [of i] col i show ?thesis by (auto simp: paint_nth)
    next
      case False
      with at [of i] i show ?thesis by (auto simp: paint_nth)
    qed
  qed (simp split: if_splits)
  with lt show ?thesis by (simp add: poke_def)
qed


text \<open>A scan of a rectangle of the canvas that sets the pixels satisfying \<open>Q\<close>.\<close>

lemma scan_row:
  assumes v: "cart_canvas_valid (Some c)" and b: "backed c h"
    and row: "0 \<le> row" "row < uint (height c)"
    and col: "0 \<le> x0" "x0 \<le> x1" "x1 \<le> uint (width c)"
  shows "for_int x0 x1 (\<lambda>column h. if Q column row
             then poke (the (pixels c)) (pixel_index c row column) v h else Some h)
           (paint c P v h) =
         Some (paint c (\<lambda>x y. P x y \<or> (y = row \<and> x0 \<le> x \<and> x < x1 \<and> Q x y)) v h)"
proof -
  let ?S = "\<lambda>i. paint c (\<lambda>x y. P x y \<or> (y = row \<and> x0 \<le> x \<and> x < i \<and> Q x y)) v h"
  have start: "paint c P v h = ?S x0" by (intro paint_cong) auto
  have next_px: "(if Q i row then poke (the (pixels c)) (pixel_index c row i) v (?S i)
             else Some (?S i)) = Some (?S (i + 1))" if "x0 \<le> i" "i < x1" for i
  proof (cases "Q i row")
    case True
    have "poke (the (pixels c)) (pixel_index c row i) v (?S i) =
          Some (paint c (\<lambda>x y. (P x y \<or> (y = row \<and> x0 \<le> x \<and> x < i \<and> Q x y)) \<or>
                               (x = i \<and> y = row)) v h)"
      using v b row col that by (intro poke_paint) auto
    with True that show ?thesis by (auto intro!: paint_cong)
  next
    case False
    then have "x < i + 1 \<and> Q x row \<longleftrightarrow> x < i \<and> Q x row" for x
      by (cases "x = i") auto
    then have "?S (i + 1) = ?S i" by (intro paint_cong) blast
    with False show ?thesis by simp
  qed
  show ?thesis
    unfolding start by (rule for_int_trace [where S = ?S]) (use col next_px in auto)
qed

lemma scan_rows:
  assumes v: "cart_canvas_valid (Some c)" and b: "backed c h"
    and "0 \<le> y0" "y0 \<le> y1" "y1 \<le> uint (height c)"
    and "0 \<le> x0" "x0 \<le> x1" "x1 \<le> uint (width c)"
  shows "for_int y0 y1 (\<lambda>row. for_int x0 x1 (\<lambda>column h. if Q column row
             then poke (the (pixels c)) (pixel_index c row column) v h else Some h)) h =
         Some (paint c (\<lambda>x y. y0 \<le> y \<and> y < y1 \<and> x0 \<le> x \<and> x < x1 \<and> Q x y) v h)"
proof -
  let ?S = "\<lambda>i. paint c (\<lambda>x y. y0 \<le> y \<and> y < i \<and> x0 \<le> x \<and> x < x1 \<and> Q x y) v h"
  have start: "?S y0 = h" by (intro paint_nothing) auto
  have "for_int x0 x1 (\<lambda>column h. if Q column i
             then poke (the (pixels c)) (pixel_index c i column) v h else Some h) (?S i) =
        Some (?S (i + 1))" if "y0 \<le> i" "i < y1" for i
    using assms that by (subst scan_row) (auto intro!: paint_cong)
  then have "for_int y0 y1 (\<lambda>row. for_int x0 x1 (\<lambda>column h. if Q column row
             then poke (the (pixels c)) (pixel_index c row column) v h else Some h)) (?S y0) =
        Some (?S y1)"
    using assms by (intro for_int_trace [where S = ?S]) auto
  then show ?thesis by (simp only: start)
qed

section \<open>The drawing primitives paint their shapes\<close>

abbreviation px_shape :: "int \<Rightarrow> int \<Rightarrow> int \<Rightarrow> int \<Rightarrow> bool" where
  "px_shape cx cy \<equiv> (\<lambda>x y. x = cx \<and> y = cy)"

abbreviation rect_shape :: "int \<Rightarrow> int \<Rightarrow> int \<Rightarrow> int \<Rightarrow> int \<Rightarrow> int \<Rightarrow> bool" where
  "rect_shape cx cy w ht \<equiv> (\<lambda>x y. cx \<le> x \<and> x < cx + w \<and> cy \<le> y \<and> y < cy + ht)"

abbreviation disc_shape :: "int \<Rightarrow> int \<Rightarrow> int \<Rightarrow> int \<Rightarrow> int \<Rightarrow> bool" where
  "disc_shape cx cy r \<equiv> (\<lambda>x y. (x - cx) * (x - cx) + (y - cy) * (y - cy) \<le> r * r)"

lemma px_paints:
  assumes v: "cart_canvas_valid (Some c)" and b: "backed c h" and i: "in_i32 x" "in_i32 y"
  shows "cart_canvas_px (Some c) x y v h = Some (paint c (px_shape x y) v h)"
proof (cases "0 \<le> x \<and> x < uint (width c) \<and> 0 \<le> y \<and> y < uint (height c)")
  case True
  have "poke (the (pixels c)) (pixel_index c y x) v (paint c (\<lambda>_ _. False) v h) =
        Some (paint c (\<lambda>x' y'. False \<or> (x' = x \<and> y' = y)) v h)"
    using True by (intro poke_paint v b) auto
  moreover have "paint c (\<lambda>_ _. False) v h = h" by (intro paint_nothing) auto
  ultimately show ?thesis
    using True i v by (simp add: cart_canvas_px_def c_int_defs word_of_int_ge_iff)
next
  case False
  then have "paint c (px_shape x y) v h = h"
    by (intro paint_nothing) auto
  with False i v show ?thesis
    by (auto simp: cart_canvas_px_def c_int_defs word_of_int_ge_iff)
qed

lemma rect_paints:
  assumes v: "cart_canvas_valid (Some c)" and b: "backed c h"
    and i: "in_i32 x" "in_i32 y" "in_i32 w" "in_i32 ht"
  shows "cart_canvas_rect (Some c) x y w ht v h = Some (paint c (rect_shape x y w ht) v h)"
proof -
  let ?x0 = "max 0 x" and ?y0 = "max 0 y"
  let ?x1 = "min (uint (width c)) (x + w)" and ?y1 = "min (uint (height c)) (y + ht)"
  have r: "in_i64 (x + w)" "in_i64 (y + ht)" using i by (auto simp: c_int_defs)
  have unf: "cart_canvas_rect (Some c) x y w ht v h =
    (if w \<le> 0 \<or> ht \<le> 0 \<or> ?x0 \<ge> ?x1 \<or> ?y0 \<ge> ?y1 then Some h
     else for_int ?y0 ?y1 (\<lambda>row. for_int ?x0 ?x1 (\<lambda>column h. if True
        then poke (the (pixels c)) (pixel_index c row column) v h else Some h)) h)"
    using v r by (simp add: cart_canvas_rect_def Let_def clip_eqs)
  show ?thesis
  proof (cases "w \<le> 0 \<or> ht \<le> 0 \<or> ?x0 \<ge> ?x1 \<or> ?y0 \<ge> ?y1")
    case True
    then have "paint c (rect_shape x y w ht) v h = h" by (intro paint_nothing) auto
    with True unf show ?thesis by simp
  next
    case False
    then have "cart_canvas_rect (Some c) x y w ht v h =
        Some (paint c (\<lambda>x y. ?y0 \<le> y \<and> y < ?y1 \<and> ?x0 \<le> x \<and> x < ?x1 \<and> True) v h)"
      unfolding unf by (simp only: if_False) (intro scan_rows v b; auto)
    also have "\<dots> = Some (paint c (rect_shape x y w ht) v h)"
      by (auto intro!: paint_cong)
    finally show ?thesis .
  qed
qed

text \<open>No product of the circle test leaves the 64-bit range: the scan stays within the radius.\<close>

lemma square_le: "\<bar>d\<bar> \<le> r \<Longrightarrow> d * d \<le> r * (r :: int)"
  using mult_mono' [of "\<bar>d\<bar>" r "\<bar>d\<bar>" r] by simp

lemma disc_arith:
  assumes "in_i32 r" "\<bar>dx\<bar> \<le> r" "\<bar>dy\<bar> \<le> r"
  shows "in_i64 (r * r)" "in_i64 (dx * dx)" "in_i64 (dy * dy)" "in_i64 (dx * dx + dy * dy)"
proof -
  have rr: "r * r \<le> 2147483647 * 2147483647"
    using assms by (intro mult_mono) (auto simp: c_int_defs)
  have "dx * dx \<le> r * r" "dy * dy \<le> r * r" using assms square_le by auto
  with rr zero_le_square [of dx] zero_le_square [of dy] zero_le_square [of r]
  show "in_i64 (r * r)" "in_i64 (dx * dx)" "in_i64 (dy * dy)" "in_i64 (dx * dx + dy * dy)"
    unfolding in_i64_def by linarith+
qed

lemma disc_bound:
  assumes "0 \<le> r" "(dx :: int) * dx + dy * dy \<le> r * r"
  shows "\<bar>dx\<bar> \<le> r" "\<bar>dy\<bar> \<le> r"
proof -
  have "\<bar>d\<bar> \<le> r" if "d * d \<le> r * r" for d
    using that assms(1) abs_le_square_iff [of d r] by (simp add: power2_eq_square)
  moreover have "dx * dx \<le> r * r" "dy * dy \<le> r * r"
    using assms(2) zero_le_square [of dx] zero_le_square [of dy] by linarith+
  ultimately show "\<bar>dx\<bar> \<le> r" "\<bar>dy\<bar> \<le> r" by auto
qed

lemma disc_rows:
  assumes i: "in_i32 cx" "in_i32 cy" "in_i32 r"
    and row: "cy - r \<le> row" "row \<le> cy + r" and col: "cx - r \<le> l" "u \<le> cx + r + 1"
  shows "do {
           delta_y \<leftarrow> i64 (row - cy);
           for_int l u (\<lambda>column h. do {
             delta_x \<leftarrow> i64 (column - cx);
             xx \<leftarrow> i64 (delta_x * delta_x);
             yy \<leftarrow> i64 (delta_y * delta_y);
             d \<leftarrow> i64 (xx + yy);
             if d \<le> r * r then f row column h else Some h
           }) h
         } =
         for_int l u (\<lambda>column h. if disc_shape cx cy r column row then f row column h else Some h) h"
proof -
  have dy: "\<bar>row - cy\<bar> \<le> r" using row by auto
  have "in_i64 (column - cx)" "in_i64 ((column - cx) * (column - cx))"
    "in_i64 ((row - cy) * (row - cy))"
    "in_i64 ((column - cx) * (column - cx) + (row - cy) * (row - cy))"
    if "l \<le> column" "column < u" for column
    using that col i disc_arith [OF i(3), of "column - cx" "row - cy"] dy
    by (auto simp: c_int_defs)
  moreover have "in_i64 (row - cy)" using i row by (auto simp: c_int_defs)
  ultimately show ?thesis by (auto intro!: for_int_cong)
qed

lemma circle_paints:
  assumes v: "cart_canvas_valid (Some c)" and b: "backed c h"
    and i: "in_i32 cx" "in_i32 cy" "in_i32 r"
  shows "cart_canvas_circle (Some c) cx cy r v h =
         Some (if r < 0 then h else paint c (disc_shape cx cy r) v h)"
proof (cases "r < 0")
  case True
  then show ?thesis by (simp add: cart_canvas_circle_def)
next
  case False
  let ?l = "max 0 (cx - r)" and ?t = "max 0 (cy - r)"
  let ?r = "min (uint (width c) - 1) (cx + r)" and ?b = "min (uint (height c) - 1) (cy + r)"
  have e: "in_i64 (cx - r)" "in_i64 (cy - r)" "in_i64 (cx + r)" "in_i64 (cy + r)"
    "in_i64 (r * r)"
    using i disc_arith [of r 0 0] False by (auto simp: c_int_defs)
  let ?scan = "for_int ?t (?b + 1) (\<lambda>row. for_int ?l (?r + 1) (\<lambda>column h.
       if disc_shape cx cy r column row
       then poke (the (pixels c)) (pixel_index c row column) v h else Some h)) h"
  have rows: "for_int ?t (?b + 1) (\<lambda>row h. do {
            delta_y \<leftarrow> i64 (row - cy);
            for_int ?l (?r + 1) (\<lambda>column h. do {
              delta_x \<leftarrow> i64 (column - cx);
              xx \<leftarrow> i64 (delta_x * delta_x);
              yy \<leftarrow> i64 (delta_y * delta_y);
              d \<leftarrow> i64 (xx + yy);
              if d \<le> r * r then poke (the (pixels c)) (pixel_index c row column) v h
              else Some h
            }) h
          }) h = ?scan"
    by (intro for_int_cong disc_rows [OF i]) auto
  have unf: "cart_canvas_circle (Some c) cx cy r v h =
    (if ?l > ?r \<or> ?t > ?b then Some h else ?scan)"
    using v False
    unfolding cart_canvas_circle_def Let_def clip_eqs option.sel rows [symmetric]
    by (simp only: e i64_Some Option.bind.bind_lunit clip_eqs simp_thms if_False)
  let ?P = "\<lambda>x y. ?t \<le> y \<and> y < ?b + 1 \<and> ?l \<le> x \<and> x < ?r + 1 \<and> disc_shape cx cy r x y"
  have clipped: "paint c (disc_shape cx cy r) v h = paint c ?P v h"
  proof (intro paint_cong)
    fix x y assume "0 \<le> x" "x < uint (width c)" "0 \<le> y" "y < uint (height c)"
    moreover have "\<bar>x - cx\<bar> \<le> r \<and> \<bar>y - cy\<bar> \<le> r" if "disc_shape cx cy r x y"
      using disc_bound [of r "x - cx" "y - cy"] that False by simp
    ultimately show "disc_shape cx cy r x y = ?P x y" by auto
  qed
  show ?thesis
  proof (cases "?l > ?r \<or> ?t > ?b")
    case True
    then have "paint c ?P v h = h" by (intro paint_nothing) auto
    with True False show ?thesis unfolding unf clipped by simp
  next
    case in_sight: False
    then have "?scan = Some (paint c ?P v h)" by (intro scan_rows v b) linarith+
    with False in_sight show ?thesis unfolding unf clipped by simp
  qed
qed

section \<open>Channels\<close>

text \<open>Byte \<open>k\<close> of a pixel in memory order: red, green, blue, alpha.\<close>

definition chan :: "nat \<Rightarrow> u32 \<Rightarrow> int" where
  "chan k w = uint (drop_bit (8 * k) w AND 0xff)"

lemma mask8: "(w :: u32) AND 0xff = take_bit 8 w"
  using take_bit_eq_mask [of 8 w] by (simp add: mask_eq_exp_minus_1)

lemma chan_ge_0 [simp]: "0 \<le> chan k w"
  by (simp add: chan_def)

lemma chan_lt [simp]: "chan k w < 256"
proof -
  have "uint (take_bit 8 (drop_bit (8 * k) w)) = take_bit 8 (uint (drop_bit (8 * k) w))"
    by (rule bit_eqI) (auto simp: bit_simps)
  then show ?thesis unfolding chan_def mask8 by (simp add: take_bit_eq_mod)
qed

lemma chan_le [simp]: "chan k w \<le> 255"
  using chan_lt [of k w] by linarith

lemma clamp_channel_range: "0 \<le> clamp_channel v" "clamp_channel v \<le> 255"
  by (auto simp: clamp_channel_def)

lemma clamp_channel_id [simp]: "0 \<le> v \<Longrightarrow> v \<le> 255 \<Longrightarrow> clamp_channel v = v"
  by (simp add: clamp_channel_def)

text \<open>A byte converted to a word has no bit above 7, so the four bytes of a colour do not overlap.\<close>

lemma bit_byte:
  assumes "0 \<le> v" "v \<le> 255"
  shows "bit (of_int v :: u32) n \<longleftrightarrow> n < 8 \<and> bit v n"
proof -
  have "take_bit 8 v = v" using assms by (simp add: take_bit_int_eq_self)
  then have "bit v n \<longleftrightarrow> n < 8 \<and> bit v n" by (metis bit_take_bit_iff)
  then show ?thesis by (auto simp: bit_simps)
qed

lemma bit_alpha_mask: "bit (0xff000000 :: int) n \<longleftrightarrow> 24 \<le> n \<and> n < 32"
proof -
  have "(0xff000000 :: int) = push_bit 24 (mask 8)"
    by (simp add: mask_eq_exp_minus_1 push_bit_eq_mult)
  then show ?thesis by (simp only: bit_push_bit_iff bit_mask_iff) (auto simp: possible_bit_def)
qed

lemma chan_rgba:
  "chan 0 (cart_rgba r g b) = clamp_channel r"
  "chan (Suc 0) (cart_rgba r g b) = clamp_channel g"
  "chan 2 (cart_rgba r g b) = clamp_channel b"
  "chan 3 (cart_rgba r g b) = 255"
proof -
  have eq: "uint (take_bit 8 w) = v" if "\<And>n. n < 8 \<Longrightarrow> bit w n = bit v n" "0 \<le> v" "v \<le> 255"
    for w :: u32 and v :: int
  proof (rule bit_eqI)
    fix n
    have "take_bit 8 v = v" using that by (simp add: take_bit_int_eq_self)
    then have "bit v n \<longleftrightarrow> n < 8 \<and> bit v n" by (metis bit_take_bit_iff)
    with that(1) show "bit (uint (take_bit 8 w)) n = bit v n" by (auto simp: bit_simps)
  qed
  have bits: "bit (cart_rgba r g b) n \<longleftrightarrow>
      (n < 8 \<and> bit (clamp_channel r) n) \<or> (8 \<le> n \<and> n < 16 \<and> bit (clamp_channel g) (n - 8)) \<or>
      (16 \<le> n \<and> n < 24 \<and> bit (clamp_channel b) (n - 16)) \<or> (24 \<le> n \<and> n < 32)" for n
    unfolding cart_rgba_def using clamp_channel_range
    by (auto simp: bit_or_iff bit_push_bit_iff bit_byte bit_alpha_mask)
  have m: "bit (255 :: int) n" if "n < 8" for n
    using that bit_mask_iff [of 8 n, where 'a = int] by (simp add: mask_eq_exp_minus_1)
  show "chan 0 (cart_rgba r g b) = clamp_channel r"
    "chan (Suc 0) (cart_rgba r g b) = clamp_channel g"
    "chan 2 (cart_rgba r g b) = clamp_channel b"
    "chan 3 (cart_rgba r g b) = 255"
    unfolding chan_def mask8
    by (rule eq; use clamp_channel_range m in \<open>simp add: bits bit_drop_bit_eq\<close>)+
qed

lemma chan_eqI:
  assumes "\<And>k. k < 4 \<Longrightarrow> chan k v = chan k w"
  shows "v = w"
proof (rule bit_eqI)
  fix n assume "possible_bit TYPE(u32) n"
  then have n: "n < 32" by (simp add: possible_bit_word)
  then have k: "n div 8 < 4" by simp
  have "take_bit 8 (drop_bit (8 * (n div 8)) v) = take_bit 8 (drop_bit (8 * (n div 8)) w)"
    using assms [OF k] unfolding chan_def mask8 by (simp add: word_uint_eq_iff)
  then have "bit (take_bit 8 (drop_bit (8 * (n div 8)) v)) (n mod 8) =
             bit (take_bit 8 (drop_bit (8 * (n div 8)) w)) (n mod 8)" by simp
  then show "bit v n = bit w n" by (simp add: bit_simps)
qed

section \<open>Blending\<close>

text \<open>
  What a client of the blending function relies on: each colour channel moves linearly (rounding
  down) from the first colour to the second as the weight goes from 0 to 256, weights above 256
  count as 256, and the result is opaque.
\<close>

locale pixel_blend =
  fixes blend :: "u32 \<Rightarrow> u32 \<Rightarrow> u32 \<Rightarrow> u32"
    and channel :: "nat \<Rightarrow> u32 \<Rightarrow> int"
  assumes blend_channel: "k < 3 \<Longrightarrow> w \<le> 256 \<Longrightarrow>
      channel k (blend f t w) =
      channel k f + (channel k t - channel k f) * uint w div 256"
    and blend_opaque: "channel 3 (blend f t w) = 255"
    and channel_range: "0 \<le> channel k v" "channel k v \<le> 255"
begin

lemma blend_start: "k < 3 \<Longrightarrow> channel k (blend f t 0) = channel k f"
  by (simp add: blend_channel)

lemma blend_finish: "k < 3 \<Longrightarrow> channel k (blend f t 256) = channel k t"
  by (simp add: blend_channel)

text \<open>A larger weight moves a channel by at most the weight difference, towards the target.\<close>

lemma blend_step:
  assumes "k < 3" "w \<le> w'" "w' \<le> 256"
  shows "\<bar>channel k (blend f t w') - channel k (blend f t w)\<bar> \<le> uint w' - uint w"
proof -
  let ?d = "channel k t - channel k f" and ?a = "uint w" and ?b = "uint w'"
  have ab: "?a \<le> ?b" using assms(2) by (simp add: word_le_def)
  have d: "- 256 \<le> ?d" "?d \<le> 256" using channel_range [of k t] channel_range [of k f] by auto
  have up: "?d * ?b \<le> ?d * ?a + (?b - ?a) * 256" and down: "?d * ?a - (?b - ?a) * 256 \<le> ?d * ?b"
    using mult_right_mono [OF d(2), of "?b - ?a"] mult_right_mono [OF d(1), of "?b - ?a"] ab
    by (simp_all add: algebra_simps)
  have "?d * ?b div 256 \<le> (?d * ?a + (?b - ?a) * 256) div 256"
    using up by (intro zdiv_mono1) auto
  moreover have "(?d * ?a + - (?b - ?a) * 256) div 256 \<le> ?d * ?b div 256"
    using down by (intro zdiv_mono1) (auto simp: algebra_simps)
  moreover have "(x + y * 256) div 256 = x div 256 + y" for x y :: int by simp
  ultimately have "\<bar>?d * ?b div 256 - ?d * ?a div 256\<bar> \<le> ?b - ?a"
    by (simp only: abs_le_iff) linarith
  then show ?thesis using assms order_trans [OF assms(2,3)] by (simp add: blend_channel)
qed

lemma blend_between:
  assumes "k < 3" "w \<le> 256"
  shows "min (channel k f) (channel k t) \<le> channel k (blend f t w)"
    and "channel k (blend f t w) \<le> max (channel k f) (channel k t)"
proof -
  let ?d = "channel k t - channel k f" and ?a = "uint w"
  have a: "0 \<le> ?a" "?a \<le> 256" using assms(2) by (simp_all add: word_le_def)
  have "?d * ?a div 256 \<le> max 0 ?d"
  proof (cases "0 \<le> ?d")
    case True
    then have "?d * ?a div 256 \<le> (?d * 256) div 256"
      using a by (intro zdiv_mono1 mult_left_mono) auto
    with True show ?thesis by simp
  next
    case False
    then have "?d * ?a \<le> 0" using a by (intro mult_nonpos_nonneg) auto
    then show ?thesis by (simp add: div_nonpos_pos_le0 le_max_iff_disj)
  qed
  moreover have "min 0 ?d \<le> ?d * ?a div 256"
  proof (cases "0 \<le> ?d")
    case True
    then have "0 \<le> ?d * ?a div 256" using a by (intro pos_imp_zdiv_nonneg_iff [THEN iffD2]) auto
    then show ?thesis by simp
  next
    case False
    then have "?d * 256 div 256 \<le> ?d * ?a div 256"
      using a by (intro zdiv_mono1 mult_left_mono_neg) auto
    then show ?thesis by simp
  qed
  ultimately show "min (channel k f) (channel k t) \<le> channel k (blend f t w)"
    "channel k (blend f t w) \<le> max (channel k f) (channel k t)"
    using assms by (auto simp: blend_channel min_def max_def split: if_splits)
qed

end

lemma div256: "drop_bit 8 (x :: int) = x div 256"
  by (simp add: drop_bit_eq_div)

lemma mix_in_range:
  assumes "0 \<le> f" "f \<le> 255" "0 \<le> t" "t \<le> 255" "0 \<le> a" "a \<le> 256"
  shows "0 \<le> f + (t - f) * a div 256" "f + (t - f) * a div 256 \<le> (255 :: int)"
proof -
  have "f * (256 - a) \<ge> 0" "t * a \<ge> 0" using assms by simp_all
  then have "0 \<le> (f * 256 + (t - f) * a) div 256"
    by (intro pos_imp_zdiv_nonneg_iff [THEN iffD2]) (auto simp: algebra_simps)
  moreover have "f * (256 - a) \<le> 255 * (256 - a)" "t * a \<le> 255 * a"
    using assms by (intro mult_right_mono; simp)+
  then have "(f * 256 + (t - f) * a) div 256 \<le> 255 * 256 div 256"
    by (intro zdiv_mono1) (auto simp: algebra_simps)
  moreover have "(f * 256 + (t - f) * a) div 256 = f + (t - f) * a div 256"
    by (simp add: add.commute)
  ultimately show "0 \<le> f + (t - f) * a div 256" "f + (t - f) * a div 256 \<le> 255" by auto
qed

lemma mix_unfold:
  "cart_mix f t w =
     (let a = min 256 (uint w) in
      cart_rgba (chan 0 f + (chan 0 t - chan 0 f) * a div 256)
                (chan 1 f + (chan 1 t - chan 1 f) * a div 256)
                (chan 2 f + (chan 2 t - chan 2 f) * a div 256))"
proof -
  have "uint (if w > 256 then 256 else w) = min 256 (uint w)"
    by (simp add: word_less_def min_def)
  then show ?thesis by (simp add: cart_mix_def Let_def chan_def div256)
qed

lemma cart_mix_channel:
  assumes "k < 3"
  shows "chan k (cart_mix f t w) =
         chan k f + (chan k t - chan k f) * min 256 (uint w) div 256"
proof -
  have "k = 0 \<or> k = 1 \<or> k = 2" using assms by auto
  then show ?thesis
    using mix_in_range [of "chan k f" "chan k t" "min 256 (uint w)"]
    by (auto simp: mix_unfold Let_def chan_rgba)
qed

interpretation mix: pixel_blend cart_mix chan
proof
  show "chan k (cart_mix f t w) = chan k f + (chan k t - chan k f) * uint w div 256"
    if "k < 3" "w \<le> 256" for k f t and w :: u32
    using that by (simp add: cart_mix_channel word_le_def)
  show "chan 3 (cart_mix f t w) = 255" for f t w
    by (simp add: mix_unfold Let_def chan_rgba)
qed simp_all

section \<open>The PPM image\<close>

text \<open>A file that takes every byte.\<close>

definition append_put :: "u8 list \<Rightarrow> u8 list \<Rightarrow> bool \<times> u8 list" where
  "append_put bs out = (True, out @ bs)"

definition ppm_row :: "cart_canvas \<Rightarrow> heap \<Rightarrow> nat \<Rightarrow> nat \<Rightarrow> u8 list" where
  "ppm_row c h row n =
     concat (map (\<lambda>column. rgb_bytes (h (the (pixels c)) ! (row * unat (stride c) + column)))
                 [0..<n])"

definition ppm_image :: "cart_canvas \<Rightarrow> heap \<Rightarrow> u8 list" where
  "ppm_image c h =
     ppm_header c @ concat (map (\<lambda>row. ppm_row c h row (unat (width c))) [0..<unat (height c)])"

lemma length_rgb_bytes [simp]: "length (rgb_bytes v) = 3"
  by (simp add: rgb_bytes_def)

lemma length_ppm_row: "length (ppm_row c h row n) = 3 * n"
  by (simp add: ppm_row_def length_concat comp_def sum_list_triv)

lemma length_ppm_image:
  "length (ppm_image c h) = length (ppm_header c) + 3 * unat (width c) * unat (height c)"
  by (simp add: ppm_image_def length_concat comp_def sum_list_triv length_ppm_row)

lemma snoc_map_upt: "0 \<le> i \<Longrightarrow> map f [0..<nat (i + 1)] = map f [0..<nat i] @ [f (nat i)]"
  by (simp add: nat_add_distrib)

lemma peek_pixel:
  assumes "cart_canvas_valid (Some c)" "backed c h"
    and "0 \<le> row" "row < uint (height c)" "0 \<le> column" "column < uint (width c)"
  shows "peek (the (pixels c)) (pixel_index c row column) h =
         Some (h (the (pixels c)) ! (nat row * unat (stride c) + nat column))"
  using pixel_index_in [OF assms(1,3-6)] assms(2) by (simp add: peek_def backed_def)

lemma write_ppm_appends:
  assumes v: "cart_canvas_valid (Some c)" and b: "backed c h"
  shows "cart_canvas_write_ppm append_put (\<lambda>_. False) (Some c) h (Some out) =
         Some (0, Some (out @ ppm_image c h))"
proof -
  let ?body = "\<lambda>row column (failed, s). if failed then Some (failed, s)
      else do { color \<leftarrow> peek (the (pixels c)) (pixel_index c row column) h;
                let (ok, s) = append_put (rgb_bytes color) s; Some (\<not> ok, s) }"
  have row: "for_int 0 (uint (width c)) (?body row) (False, o1) =
      Some (False, o1 @ ppm_row c h (nat row) (unat (width c)))"
    if "0 \<le> row" "row < uint (height c)" for row o1
  proof -
    let ?S = "\<lambda>i. (False, o1 @ ppm_row c h (nat row) (nat i))"
    have "for_int 0 (uint (width c)) (?body row) (?S 0) = Some (?S (uint (width c)))"
      using that by (intro for_int_trace)
        (simp_all add: peek_pixel [OF v b] append_put_def ppm_row_def snoc_map_upt)
    then show ?thesis by (simp add: ppm_row_def)
  qed
  let ?T = "\<lambda>i. (False, (out @ ppm_header c) @
     concat (map (\<lambda>row. ppm_row c h row (unat (width c))) [0..<nat i]))"
  have "for_int 0 (uint (height c)) (\<lambda>row. for_int 0 (uint (width c)) (?body row)) (?T 0) =
      Some (?T (uint (height c)))"
    by (intro for_int_trace) (simp_all only: row snoc_map_upt, simp_all)
  then show ?thesis
    using v by (simp add: cart_canvas_write_ppm_def append_put_def ppm_image_def)
qed

section \<open>Properties\<close>

lemma cart_canvas_validI:
  assumes "pixels c = Some b" "0 < unat (width c)" "0 < unat (height c)"
    "unat (width c) \<le> unat (stride c)" "unat (stride c) * unat (height c) * 4 < 2 ^ 32"
  shows "cart_canvas_valid (Some c)"
proof -
  have prod: "unat (stride c * height c) = unat (stride c) * unat (height c)"
    using assms by (subst unat_mult_lem [THEN iffD1]) (simp_all add: mult.commute)
  have "unat (height c) \<le> 4294967295 div unat (stride c)"
    using assms by (simp add: less_eq_div_iff_mult_less_eq mult.commute)
  then have "height c \<le> SIZE_MAX div stride c" by (simp add: word_le_nat_alt unat_div)
  moreover have "stride c * height c \<le> SIZE_MAX div 4"
    using assms(5) by (simp add: word_le_nat_alt unat_div prod) (simp add: mult.commute)
  moreover have "width c \<le> stride c" using assms by (simp add: word_le_nat_alt)
  ultimately show ?thesis
    using assms by (auto simp: cart_canvas_valid_def not_less unat_gt_0)
qed

text \<open>
  \<^verbatim>\<open>cart_canvas_init\<close> succeeds exactly when the pixel pointer is not NULL, width and
  height are positive, the stride covers a row and the buffer's size in bytes fits
  \<^verbatim>\<open>size_t\<close>; it then stores the canvas, and \<^verbatim>\<open>cart_canvas_byte_size\<close> is that size with no
  wrap-around. In every other case it returns -1 and stores nothing.
\<close>

theorem canvas_init_exact:
  fixes p :: "addr option" and w ht st :: size_t
  shows
  "let c = \<lparr>pixels = p, width = w, height = ht, stride = st\<rparr>;
       ok = (p \<noteq> None \<and> 0 < unat w \<and> 0 < unat ht \<and> unat w \<le> unat st \<and>
             unat st * unat ht * 4 < 2 ^ 32)
   in cart_canvas_init null p w ht st = (if \<not> null \<and> ok then (0, Some c) else (- 1, None)) \<and>
      unat (cart_canvas_byte_size (Some c)) = (if ok then unat st * unat ht * 4 else 0)"
proof -
  let ?c = "\<lparr>pixels = p, width = w, height = ht, stride = st\<rparr>"
  have "cart_canvas_valid (Some ?c) \<longleftrightarrow> p \<noteq> None \<and> 0 < unat w \<and> 0 < unat ht \<and>
      unat w \<le> unat st \<and> unat st * unat ht * 4 < 2 ^ 32"
  proof
    assume "cart_canvas_valid (Some ?c)"
    then show "p \<noteq> None \<and> 0 < unat w \<and> 0 < unat ht \<and> unat w \<le> unat st \<and>
        unat st * unat ht * 4 < 2 ^ 32"
      by (rule cart_canvas_validE) auto
  qed (auto intro: cart_canvas_validI)
  then show ?thesis
    using canvas_bytes [of ?c]
    by (auto simp: cart_canvas_init_def Let_def cart_canvas_byte_size_def)
qed

text \<open>
  Claim C23. On a valid canvas whose buffer holds \<open>stride * height\<close> pixels,
  \<^verbatim>\<open>cart_canvas_rect\<close> with any 32-bit arguments runs without undefined behaviour (no signed
  overflow, no write outside the buffer) and sets exactly the pixels of the unclipped rectangle
  that lie on the canvas, leaving row padding and every other buffer alone.
\<close>

theorem canvas_rect_clipped:
  assumes "cart_canvas_valid (Some c)" "backed c h"
    and "in_i32 x" "in_i32 y" "in_i32 w" "in_i32 ht"
  shows "cart_canvas_rect (Some c) x y w ht v h =
         Some (paint c (\<lambda>u r. x \<le> u \<and> u < x + w \<and> y \<le> r \<and> r < y + ht) v h)"
  using assms by (rule rect_paints)

definition demo_canvas :: cart_canvas where
  "demo_canvas = \<lparr>pixels = Some 0, width = 4, height = 3, stride = 5\<rparr>"

definition demo_heap :: heap where
  "demo_heap = (\<lambda>_. replicate 15 0)"

lemma demo_canvas_ok: "cart_canvas_valid (Some demo_canvas)" "backed demo_canvas demo_heap"
  by (simp_all add: cart_canvas_valid_def backed_def demo_canvas_def demo_heap_def)

theorem canvas_rect_clipped_witness:
  "cart_canvas_rect (Some demo_canvas) (- 1) 1 3 1000 7 demo_heap =
     Some (paint demo_canvas (\<lambda>u r. - 1 \<le> u \<and> u < - 1 + 3 \<and> 1 \<le> r \<and> r < 1 + 1000) 7 demo_heap) \<and>
   paint demo_canvas (\<lambda>u r. - 1 \<le> u \<and> u < - 1 + 3 \<and> 1 \<le> r \<and> r < 1 + 1000) 7 demo_heap 0 =
     [0, 0, 0, 0, 0,  7, 7, 0, 0, 0,  7, 7, 0, 0, 0]"
  using canvas_rect_clipped [OF demo_canvas_ok, of "- 1" 1 3 1000 7]
  by (simp add: in_i32_def) (simp add: paint_def upt_rec demo_canvas_def demo_heap_def)

text \<open>
  Claim C24. Likewise \<^verbatim>\<open>cart_canvas_circle\<close>: for any 32-bit centre and radius none of the
  64-bit products of the distance test overflows, no write leaves the buffer, and exactly the
  pixels of the disc that lie on the canvas are set; a negative radius draws nothing.
\<close>

theorem canvas_circle_clipped:
  assumes "cart_canvas_valid (Some c)" "backed c h" "in_i32 cx" "in_i32 cy" "in_i32 r"
  shows "cart_canvas_circle (Some c) cx cy r v h =
         Some (if r < 0 then h
               else paint c (\<lambda>x y. (x - cx) * (x - cx) + (y - cy) * (y - cy) \<le> r * r) v h)"
  using assms by (rule circle_paints)

theorem canvas_circle_clipped_witness:
  "cart_canvas_circle (Some demo_canvas) 1 2 1 7 demo_heap =
     Some (paint demo_canvas (\<lambda>x y. (x - 1) * (x - 1) + (y - 2) * (y - 2) \<le> 1 * 1) 7 demo_heap) \<and>
   paint demo_canvas (\<lambda>x y. (x - 1) * (x - 1) + (y - 2) * (y - 2) \<le> 1 * 1) 7 demo_heap 0 =
     [0, 0, 0, 0, 0,  0, 7, 0, 0, 0,  7, 7, 7, 0, 0]"
  using canvas_circle_clipped [OF demo_canvas_ok, of 1 2 1 7]
  by (simp add: in_i32_def) (simp add: paint_def upt_rec demo_canvas_def demo_heap_def)

text \<open>
  \<^verbatim>\<open>cart_mix\<close> moves each colour channel linearly (rounding down) from the first
  colour to the second: at weight 0 it is the first, from weight 256 on the second, and in
  between it stays between the two, so the clamping of \<^verbatim>\<open>cart_rgba\<close> never changes a mixed
  channel; the result is opaque.
\<close>

theorem mix_blends_channels:
  assumes "k < 3"
  shows "chan k (cart_mix f t w) =
           chan k f + (chan k t - chan k f) * min 256 (uint w) div 256 \<and>
         min (chan k f) (chan k t) \<le> chan k (cart_mix f t w) \<and>
         chan k (cart_mix f t w) \<le> max (chan k f) (chan k t) \<and>
         chan k (cart_mix f t 0) = chan k f \<and> chan k (cart_mix f t 256) = chan k t \<and>
         chan 3 (cart_mix f t w) = 255"
proof -
  have sat: "cart_mix f t w = cart_mix f t 256" if "256 < w"
    using that by (simp add: mix_unfold word_less_def)
  have "min (chan k f) (chan k t) \<le> chan k (cart_mix f t w) \<and>
        chan k (cart_mix f t w) \<le> max (chan k f) (chan k t)"
    using mix.blend_between [OF assms, of w f t] mix.blend_between [OF assms, of 256 f t] sat
    by (cases "w \<le> 256") (simp_all add: not_le)
  then show ?thesis
    using assms cart_mix_channel mix.blend_start mix.blend_finish mix.blend_opaque by simp
qed

theorem mix_blends_channels_witness:
  "chan 1 (cart_mix 0xff008000 0xff00ff00 64) = 128 + (255 - 128) * 64 div 256 \<and>
   chan 3 (cart_mix 0xff008000 0xff00ff00 64) = 255"
  using mix_blends_channels [of 1 "0xff008000" "0xff00ff00" 64] by (simp add: chan_def)

text \<open>
  \<^verbatim>\<open>cart_canvas_write_ppm\<close> on a valid, backed canvas and a file that accepts every
  byte reads no pixel outside the buffer, returns 0 and appends the P6 header with the decimal
  width and height followed by the R, G, B bytes of the rows from top to bottom (row padding
  skipped), \<open>3 * width * height\<close> bytes in all.
\<close>

theorem write_ppm_writes_image:
  assumes "cart_canvas_valid (Some c)" "backed c h"
  shows "cart_canvas_write_ppm append_put (\<lambda>_. False) (Some c) h (Some out) =
           Some (0, Some (out @ ppm_image c h)) \<and>
         length (ppm_image c h) = length (ppm_header c) + 3 * unat (width c) * unat (height c)"
  using write_ppm_appends [OF assms] length_ppm_image by blast

theorem write_ppm_writes_image_witness:
  "cart_canvas_write_ppm append_put (\<lambda>_. False) (Some demo_canvas) demo_heap (Some []) =
     Some (0, Some (ppm_image demo_canvas demo_heap)) \<and>
   length (ppm_image demo_canvas demo_heap) = 11 + 36"
  using write_ppm_writes_image [OF demo_canvas_ok, of "[]"]
  by (simp add: demo_canvas_def ppm_header_def dec.simps)

end
