(* ===== verification/Legacy_Scenes.thy ===== *)
theory Legacy_Scenes
  imports Canvas
begin

text \<open>
  The six built-in scenes (\<^verbatim>\<open>cart/scenes/scene_2d_legacy.c\<close>). A scene has a row pass, which
  computes every pixel of a band of rows from its coordinates and the frame, and an overlay pass
  of canvas primitives. Signed arithmetic is checked: \<open>chk\<close> lists the intermediate values of an
  expression and is undefined when one of them does not fit an \<^verbatim>\<open>int\<close>. The sine table filled by
  \<^verbatim>\<open>sinf\<close> is a parameter \<open>sines\<close>: \<open>sines i\<close> is \<^verbatim>\<open>(int)(sins[i] * 1024.0f)\<close>, and what the code
  relies on is that its absolute value is at most 1024 (\<open>sine_bounded\<close>).
\<close>

section \<open>Helpers\<close>

abbreviation (input) LW :: int where "LW \<equiv> 320"
abbreviation (input) LH :: int where "LH \<equiv> 180"
abbreviation (input) SCENES :: int where "SCENES \<equiv> 6"

definition PAL :: "u32 list" where
  "PAL = [0xffb8a9f5, 0xffe8d6ff, 0xffffffff, 0xffface5b, 0xffe8bc49,
          0xffff8cc5, 0xffff6c9d, 0xffc8f7ff, 0xffa82a6b, 0xffa147f4]"

abbreviation pal :: "int \<Rightarrow> u32" where "pal i \<equiv> PAL ! nat i"

type_synonym sine_table = "nat \<Rightarrow> int"
type_synonym draw = "heap \<Rightarrow> heap option"

definition sine_bounded :: "sine_table \<Rightarrow> bool" where
  "sine_bounded sines \<longleftrightarrow> (\<forall>i < 2048. \<bar>sines i\<bar> \<le> 1024)"

definition chk :: "int list \<Rightarrow> 'a \<Rightarrow> 'a option" where
  "chk es v = (if list_all in_i32 es then Some v else None)"

definition si :: "sine_table \<Rightarrow> int \<Rightarrow> int" where
  "si sines x = sines (nat (x AND 2047))"

definition mix :: "u32 \<Rightarrow> u32 \<Rightarrow> int \<Rightarrow> u32" where
  "mix a b t = cart_mix a b (if t < 0 then 0 else of_int t)"

section \<open>Row passes\<close>

text \<open>
  \<^verbatim>\<open>low[y*LW+x] = v\<close> writes through the canvas's pixel pointer, whatever the canvas's size.
\<close>

definition put_low :: "cart_canvas \<Rightarrow> int \<Rightarrow> int \<Rightarrow> u32 \<Rightarrow> draw" where
  "put_low c x y v h =
     (case pixels c of
        None \<Rightarrow> None
      | Some a \<Rightarrow> if in_i32 (y * LW) \<and> in_i32 (y * LW + x) \<and> 0 \<le> y * LW + x
                  then poke a (nat (y * LW + x)) v h else None)"

definition render_rows :: "(int \<Rightarrow> int \<Rightarrow> u32 option) \<Rightarrow> cart_canvas \<Rightarrow> int \<Rightarrow> int \<Rightarrow> draw" where
  "render_rows pixel c y0 y1 =
     for_int y0 y1 (\<lambda>y. for_int 0 LW (\<lambda>x h. do {
       v \<leftarrow> pixel x y;
       put_low c x y v h
     }))"

definition candy_pixel :: "sine_table \<Rightarrow> int \<Rightarrow> int \<Rightarrow> int \<Rightarrow> u32 option" where
  "candy_pixel sines t x y =
     (let dx = x - 160; dy = y - 90;
          d = drop_bit 4 (dx * dx + dy * dy);
          warp = si sines ((x * 9 + t * 11) AND 2047) + si sines ((y * 13 - t * 7) AND 2047);
          band = drop_bit 4 (d + drop_bit 7 warp - t * 8) AND 7;
          a = pal (band mod 5); b = pal ((band + 1) mod 5)
      in chk [dx * dx, dy * dy, dx * dx + dy * dy, x * 9, t * 11, x * 9 + t * 11, y * 13, t * 7,
              y * 13 - t * 7, warp, d + drop_bit 7 warp, t * 8, d + drop_bit 7 warp - t * 8,
              d * 5, t * 17, d * 5 + t * 17]
           (mix a b (drop_bit 3 (si sines (d * 5 + t * 17) + 1024))))"

definition checker_pixel :: "sine_table \<Rightarrow> int \<Rightarrow> int \<Rightarrow> int \<Rightarrow> u32 option" where
  "checker_pixel sines t x y =
     (let yy = y + drop_bit 8 (si sines (x * 10 + t * 14));
          xx = x + drop_bit 8 (si sines (y * 13 - t * 9));
          q = (drop_bit 3 xx XOR drop_bit 3 yy) AND 1;
          glow = drop_bit 4 (si sines (x * 6 + y * 8 + t * 12) + 1024)
      in chk [x * 10, t * 14, x * 10 + t * 14, y * 13, t * 9, y * 13 - t * 9, yy, xx,
              x * 6, y * 8, x * 6 + y * 8, t * 12, x * 6 + y * 8 + t * 12]
           (mix (if q \<noteq> 0 then pal 0 else pal 4) (if q \<noteq> 0 then pal 2 else pal 5) glow))"

definition bubble_x :: "sine_table \<Rightarrow> int \<Rightarrow> int \<Rightarrow> int" where
  "bubble_x sines t i = 160 + drop_bit 10 (si sines (t * (7 + i) + i * 273) * (45 + i * 5))"

definition bubble_y :: "sine_table \<Rightarrow> int \<Rightarrow> int \<Rightarrow> int" where
  "bubble_y sines t i = 90 + drop_bit 10 (si sines (t * (9 + i) + i * 411) * (28 + i * 4))"

definition bubble_checks :: "sine_table \<Rightarrow> int \<Rightarrow> int \<Rightarrow> int list" where
  "bubble_checks sines t i =
     [t * (7 + i), t * (7 + i) + i * 273, si sines (t * (7 + i) + i * 273) * (45 + i * 5),
      bubble_x sines t i, t * (9 + i), t * (9 + i) + i * 411,
      si sines (t * (9 + i) + i * 411) * (28 + i * 4), bubble_y sines t i]"

fun bubble_field :: "sine_table \<Rightarrow> int \<Rightarrow> int \<Rightarrow> int \<Rightarrow> int list \<Rightarrow> int \<Rightarrow> int option" where
  "bubble_field sines t x y [] field = Some field"
| "bubble_field sines t x y (i # is) field =
     (let dx = x - bubble_x sines t i; dy = y - bubble_y sines t i;
          term = (9000 + i * 700) sdiv (18 + dx * dx + dy * dy)
      in if list_all in_i32 [dx, dy, dx * dx, 18 + dx * dx, dy * dy, 18 + dx * dx + dy * dy,
              field + term] \<and> 18 + dx * dx + dy * dy \<noteq> 0
         then bubble_field sines t x y is (field + term) else None)"

definition bubbles_pixel :: "sine_table \<Rightarrow> int \<Rightarrow> int \<Rightarrow> int \<Rightarrow> u32 option" where
  "bubbles_pixel sines t x y = do {
     field \<leftarrow> bubble_field sines t x y [0..6] 0;
     let wave = drop_bit 5 (si sines (x * 8 - y * 6 + t * 18) + 1024);
     chk ([x * 8, y * 6, x * 8 - y * 6, t * 18, x * 8 - y * 6 + t * 18] @
          (if field > 22 then [field * 9, field * 9 + wave] else []))
       (if field > 22 then mix (pal 1) (pal 5) ((field * 9 + wave) AND 255)
        else mix (pal 8) (pal 6) wave)
   }"

definition ribbons_pixel :: "sine_table \<Rightarrow> int \<Rightarrow> int \<Rightarrow> int \<Rightarrow> u32 option" where
  "ribbons_pixel sines t x y =
     (let wave = 90 + drop_bit 5 (si sines (x * 12 + t * 13));
          wave2 = 90 + drop_bit 4 (si sines (x * 9 - t * 17 + 500));
          d1 = \<bar>y - wave\<bar>; d2 = \<bar>y - wave2\<bar>;
          base = mix (pal 3) (pal 1) ((y * 255) sdiv LH);
          base = (if d1 < 8 then mix (pal 0) (pal 2) (d1 * 30) else base);
          base = (if d2 < 5 then mix (pal 6) (pal 2) (d2 * 45) else base)
      in chk [x * 12, t * 13, x * 12 + t * 13, wave, x * 9, t * 17, x * 9 - t * 17,
              x * 9 - t * 17 + 500, wave2, y - wave, y - wave2, d1, d2, y * 255]
           base)"

definition chrome_pixel :: "sine_table \<Rightarrow> int \<Rightarrow> int \<Rightarrow> int \<Rightarrow> u32 option" where
  "chrome_pixel sines t x y =
     (if y < 95
      then let glow = drop_bit 4 (si sines (x * 5 + y * 4) + 1024)
           in chk [x * 5, y * 4, x * 5 + y * 4] (mix (pal 8) (pal 0) glow)
      else let z = y - 94;
               horizon = ((z * 13) AND 31) < 2;
               van = ((x - 160) * 90) sdiv (z + 8);
               vertical = \<bar>van\<bar> mod 42 < 2
           in chk [z * 13, (x - 160) * 90, z + 8, \<bar>van\<bar>]
                (if horizon \<or> vertical then pal 2 else mix (pal 6) (pal 8) z))"

definition sugar_pixel :: "sine_table \<Rightarrow> int \<Rightarrow> int \<Rightarrow> int \<Rightarrow> u32 option" where
  "sugar_pixel sines t x y =
     (let a = si sines (x * 10 + t * 13); b = si sines (y * 14 - t * 9);
          c = si sines ((x + y) * 7 + t * 5);
          v = (a + b + c + 3072) sdiv 12;
          w = x + y + drop_bit 7 (si sines (t * 17 + x * 3));
          stripe = drop_bit 3 w AND 3
      in chk [x * 10, t * 13, x * 10 + t * 13, y * 14, t * 9, y * 14 - t * 9, (x + y) * 7, t * 5,
              (x + y) * 7 + t * 5, a + b, a + b + c, a + b + c + 3072, t * 17, x * 3,
              t * 17 + x * 3, w]
           (mix (pal (stripe mod 5)) (pal ((stripe + 2) mod 5)) (v AND 255)))"

definition scene_candy :: "sine_table \<Rightarrow> cart_canvas \<Rightarrow> int \<Rightarrow> int \<Rightarrow> int \<Rightarrow> draw" where
  "scene_candy sines c y0 y1 t = render_rows (candy_pixel sines t) c y0 y1"

definition scene_checker :: "sine_table \<Rightarrow> cart_canvas \<Rightarrow> int \<Rightarrow> int \<Rightarrow> int \<Rightarrow> draw" where
  "scene_checker sines c y0 y1 t = render_rows (checker_pixel sines t) c y0 y1"

text \<open>The bubble centres are computed before the loops, so their overflow does not depend on a row.\<close>

definition scene_bubbles :: "sine_table \<Rightarrow> cart_canvas \<Rightarrow> int \<Rightarrow> int \<Rightarrow> int \<Rightarrow> draw" where
  "scene_bubbles sines c y0 y1 t h =
     (if list_all (\<lambda>i. list_all in_i32 (bubble_checks sines t i)) [0..6]
      then render_rows (bubbles_pixel sines t) c y0 y1 h else None)"

definition scene_ribbons :: "sine_table \<Rightarrow> cart_canvas \<Rightarrow> int \<Rightarrow> int \<Rightarrow> int \<Rightarrow> draw" where
  "scene_ribbons sines c y0 y1 t = render_rows (ribbons_pixel sines t) c y0 y1"

definition scene_chrome :: "sine_table \<Rightarrow> cart_canvas \<Rightarrow> int \<Rightarrow> int \<Rightarrow> int \<Rightarrow> draw" where
  "scene_chrome sines c y0 y1 t = render_rows (chrome_pixel sines t) c y0 y1"

definition scene_sugar :: "sine_table \<Rightarrow> cart_canvas \<Rightarrow> int \<Rightarrow> int \<Rightarrow> int \<Rightarrow> draw" where
  "scene_sugar sines c y0 y1 t = render_rows (sugar_pixel sines t) c y0 y1"

section \<open>Overlay primitives\<close>

text \<open>
  The wrappers bind the primitives to the active canvas; an argument that does not fit an
  \<^verbatim>\<open>int\<close> comes from an overflowing expression. \<open>draw_all\<close> is a sequence of statements.
\<close>

definition px :: "cart_canvas \<Rightarrow> int \<Rightarrow> int \<Rightarrow> u32 \<Rightarrow> draw" where
  "px c x y v h = (if in_i32 x \<and> in_i32 y then cart_canvas_px (Some c) x y v h else None)"

definition rect :: "cart_canvas \<Rightarrow> int \<Rightarrow> int \<Rightarrow> int \<Rightarrow> int \<Rightarrow> u32 \<Rightarrow> draw" where
  "rect c x y w ht v h =
     (if in_i32 x \<and> in_i32 y \<and> in_i32 w \<and> in_i32 ht
      then cart_canvas_rect (Some c) x y w ht v h else None)"

definition circle :: "cart_canvas \<Rightarrow> int \<Rightarrow> int \<Rightarrow> int \<Rightarrow> u32 \<Rightarrow> draw" where
  "circle c cx cy r v h =
     (if in_i32 cx \<and> in_i32 cy \<and> in_i32 r then cart_canvas_circle (Some c) cx cy r v h else None)"

fun draw_all :: "draw list \<Rightarrow> draw" where
  "draw_all [] h = Some h"
| "draw_all (f # fs) h = do { h \<leftarrow> f h; draw_all fs h }"

definition heart_shape :: "string list" where
  "heart_shape = [''01100110'', ''11111111'', ''11111111'', ''11111111'',
                  ''01111110'', ''00111100'', ''00011000'', ''00000000'']"

definition heart_at :: "int \<Rightarrow> int \<Rightarrow> char" where
  "heart_at y x = heart_shape ! nat y ! nat x"

definition heart :: "cart_canvas \<Rightarrow> int \<Rightarrow> int \<Rightarrow> int \<Rightarrow> u32 \<Rightarrow> u32 \<Rightarrow> draw" where
  "heart c cx cy s col edge = draw_all
     [for_int 0 8 (\<lambda>y. for_int 0 8 (\<lambda>x.
        if heart_at y x = CHR ''1'' then
          let border = (x = 0 \<or> x = 7 \<or> y = 0 \<or> y = 6 \<or>
                        (x > 0 \<and> heart_at y (x - 1) = CHR ''0'') \<or>
                        (x < 7 \<and> heart_at y (x + 1) = CHR ''0'') \<or>
                        (y > 0 \<and> heart_at (y - 1) x = CHR ''0''))
          in rect c (cx + (x - 4) * s) (cy + (y - 3) * s) s s (if border then edge else col)
        else Some)),
      (if s > 1 then rect c (cx - 2 * s) (cy - 2 * s) s s 0xffffffff else Some)]"

definition star :: "cart_canvas \<Rightarrow> int \<Rightarrow> int \<Rightarrow> int \<Rightarrow> u32 \<Rightarrow> draw" where
  "star c cx cy r v = for_int (- r) (r + 1) (\<lambda>i. draw_all
     [px c (cx + i) cy v, px c cx (cy + i) v,
      if \<bar>i\<bar> < r sdiv 2 + 1
      then draw_all [px c (cx + i) (cy + i) v, px c (cx + i) (cy - i) v] else Some])"

definition flower :: "cart_canvas \<Rightarrow> int \<Rightarrow> int \<Rightarrow> int \<Rightarrow> u32 \<Rightarrow> u32 \<Rightarrow> draw" where
  "flower c cx cy s petal centre = draw_all
     [circle c (cx - s) cy s petal, circle c (cx + s) cy s petal,
      circle c cx (cy - s) s petal, circle c cx (cy + s) s petal,
      circle c cx cy s centre]"

definition FONT :: "int list list" where
  "FONT =
    [[14,17,17,31,17,17,17],[30,17,17,30,17,17,30],[14,17,16,16,16,17,14],
     [30,17,17,17,17,17,30],[31,16,16,30,16,16,31],[31,16,16,30,16,16,16],
     [14,17,16,23,17,17,15],[17,17,17,31,17,17,17],[14,4,4,4,4,4,14],
     [7,2,2,2,18,18,12],[17,18,20,24,20,18,17],[16,16,16,16,16,16,31],
     [17,27,21,21,17,17,17],[17,25,21,19,17,17,17],[14,17,17,17,17,17,14],
     [30,17,17,30,16,16,16],[14,17,17,17,21,18,13],[30,17,17,30,20,18,17],
     [15,16,16,14,1,1,30],[31,4,4,4,4,4,4],[17,17,17,17,17,17,14],
     [17,17,17,17,17,10,4],[17,17,17,21,21,21,10],[17,17,10,4,10,17,17],
     [17,17,10,4,4,4,4],[31,1,2,4,8,16,31],
     [14,17,19,21,25,17,14],[4,12,4,4,4,4,14],[14,17,1,2,4,8,31],
     [30,1,1,14,1,1,30],[2,6,10,18,31,2,2],[31,16,16,30,1,1,30],
     [14,16,16,30,17,17,14],[31,1,2,4,8,8,8],[14,17,17,14,17,17,14],
     [14,17,17,15,1,1,14],[0,0,0,0,0,0,0]]"

definition font_index :: "char \<Rightarrow> nat" where
  "font_index ch =
     (let v = of_char ch
      in if 65 \<le> v \<and> v \<le> 90 then v - 65
         else if 48 \<le> v \<and> v \<le> 57 then 26 + v - 48
         else 36)"

definition glyph :: "cart_canvas \<Rightarrow> int \<Rightarrow> int \<Rightarrow> char \<Rightarrow> int \<Rightarrow> u32 \<Rightarrow> draw" where
  "glyph c x y ch scale v = for_int 0 7 (\<lambda>yy. for_int 0 5 (\<lambda>xx.
     if (FONT ! font_index ch ! nat yy) AND push_bit (nat (4 - xx)) 1 \<noteq> 0
     then rect c (x + xx * scale) (y + yy * scale) scale scale v else Some))"

fun text_run :: "cart_canvas \<Rightarrow> int \<Rightarrow> int \<Rightarrow> string \<Rightarrow> int \<Rightarrow> u32 \<Rightarrow> draw" where
  "text_run c x y [] scale v h = Some h"
| "text_run c x y (ch # s) scale v h = do {
     h \<leftarrow> (if ch = CHR '' '' then Some h else glyph c x y ch scale v h);
     text_run c (x + 6 * scale) y s scale v h
   }"

text \<open>The recursive call for the shadow passes a zero shadow, so it recurses once.\<close>

definition draw_text :: "cart_canvas \<Rightarrow> int \<Rightarrow> int \<Rightarrow> string \<Rightarrow> int \<Rightarrow> u32 \<Rightarrow> u32 \<Rightarrow> draw" where
  "draw_text c x y s scale v shadow = draw_all
     [if shadow \<noteq> 0 then text_run c (x + scale) (y + scale) s scale shadow else Some,
      text_run c x y s scale v]"

definition text_center :: "cart_canvas \<Rightarrow> int \<Rightarrow> string \<Rightarrow> int \<Rightarrow> u32 \<Rightarrow> u32 \<Rightarrow> draw" where
  "text_center c y s scale v shadow =
     (let w = (int (length s) * 6 - 1) * scale
      in draw_text c ((LW - w) sdiv 2) y s scale v shadow)"

definition rng32 :: "u32 \<Rightarrow> u32" where
  "rng32 x =
     (let x = x XOR drop_bit 16 x; x = x * 0x7feb352d;
          x = x XOR drop_bit 15 x; x = x * 0x846ca68b
      in x XOR drop_bit 16 x)"

section \<open>Overlays\<close>

definition overlay_candy :: "cart_canvas \<Rightarrow> int \<Rightarrow> draw" where
  "overlay_candy c t = draw_all
     [for_int 0 18 (\<lambda>i. let r = rng32 (of_int i * 991);
          x = uint ((r + of_int (t * (1 + i mod 3))) mod 320);
          y = uint ((drop_bit 11 r + of_int (i * 17)) mod 180)
        in star c x y (2 + i mod 3) (pal 2)),
      heart c 160 82 5 (pal 0) (pal 8),
      text_center c 139 ''CANDY VORTEX'' 3 (pal 2) (pal 8)]"

text \<open>
  Here \<^verbatim>\<open>(r%340)-10\<close> is unsigned arithmetic that wraps below zero before it is stored in an
  \<^verbatim>\<open>int\<close>.
\<close>

definition overlay_girl_mode :: "cart_canvas \<Rightarrow> int \<Rightarrow> draw" where
  "overlay_girl_mode c t = draw_all
     [for_int 0 24 (\<lambda>i. let r = rng32 (of_int i * 1777);
          x = sint (r mod 340 - 10);
          y = sint ((drop_bit 10 r + of_int (t * (2 + i mod 4))) mod 210 - 15)
        in heart c x y (1 + (if i mod 3 = 0 then 1 else 0)) (pal (i mod 5)) (pal 8)),
      text_center c 72 ''GIRL MODE'' 5 (pal 2) (pal 8),
      text_center c 119 ''MAXIMUM'' 4 (pal 0) (pal 8)]"

definition overlay_bubblegum :: "cart_canvas \<Rightarrow> int \<Rightarrow> draw" where
  "overlay_bubblegum c t = draw_all
     [for_int 0 20 (\<lambda>i. let r = rng32 (of_int i * 31337)
        in star c (uint (r mod 320)) (uint (drop_bit 10 r mod 180)) (1 + i mod 3) (pal 2)),
      text_center c 14 ''BUBBLEGUM'' 5 (pal 2) (pal 8),
      text_center c 145 ''OVERDRIVE'' 4 (pal 0) (pal 8)]"

definition butterfly :: "sine_table \<Rightarrow> cart_canvas \<Rightarrow> int \<Rightarrow> int \<Rightarrow> draw" where
  "butterfly sines c t i =
     (let x = (i * 29 + t * (i mod 3 + 1)) mod 350 - 15;
          w = si sines (t * (8 + i) + i * 193) * 55;
          y = 70 + drop_bit 10 w;
          left = pal ((i + 0) mod 5); right = pal ((i + 3) mod 5)
      in if list_all in_i32 [t * (i mod 3 + 1), i * 29 + t * (i mod 3 + 1), t * (8 + i),
             t * (8 + i) + i * 193, w, y]
         then draw_all
           [circle c (x - 4) (y - 2) 3 left, circle c (x + 4) (y - 2) 3 right,
            circle c (x - 3) (y + 3) 2 left, circle c (x + 3) (y + 3) 2 right,
            rect c (x - 1) (y - 4) 2 9 (pal 8),
            if (i + t div 3) mod 4 = 0 then star c (x - 10) (y + 5) 2 (pal 2) else Some]
         else (\<lambda>h. None))"

definition overlay_butterfly_riot :: "sine_table \<Rightarrow> cart_canvas \<Rightarrow> int \<Rightarrow> draw" where
  "overlay_butterfly_riot sines c t = draw_all
     [for_int 0 24 (butterfly sines c t),
      for_int 0 12 (\<lambda>i. flower c ((i * 41 + t) mod 340 - 10) (20 + (i * 23) mod 140) 2
        (pal ((i + 1) mod 5)) (pal 2)),
      text_center c 143 ''BUTTERFLY RIOT'' 3 (pal 2) (pal 8)]"

definition overlay_hyperdrive :: "sine_table \<Rightarrow> cart_canvas \<Rightarrow> int \<Rightarrow> draw" where
  "overlay_hyperdrive sines c t =
     (let cx = 160 + drop_bit 10 (si sines (t * 9) * 28);
          cy = 67 + drop_bit 10 (si sines (t * 13) * 9);
          r = 39
      in if list_all in_i32 [t * 9, si sines (t * 9) * 28, t * 13, si sines (t * 13) * 9, cx, cy]
         then draw_all
           [for_int (- r) (r + 1) (\<lambda>y. for_int (- r) (r + 1) (\<lambda>x.
              if x * x + y * y \<le> r * r
              then let band = ((y + r) * 10) div (2 * r + 1)
                   in px c (cx + x) (cy + y) (pal (band mod 8))
              else Some)),
            circle c (cx - 13) (cy - 15) 7 0xffffffff,
            star c (cx - 17) (cy - 18) 6 0xffffffff,
            text_center c 11 ''SHE HER'' 6 (pal 2) (pal 8),
            text_center c 143 ''HYPERDRIVE'' 4 (pal 0) (pal 8)]
         else (\<lambda>h. None))"

definition overlay_too_much :: "cart_canvas \<Rightarrow> int \<Rightarrow> draw" where
  "overlay_too_much c t = draw_all
     [for_int 0 35 (\<lambda>i. let r = rng32 (of_int i * 7331);
          x = uint (r mod 320); y = uint (drop_bit 10 r mod 180); s = 1 + i mod 3
        in if i mod 3 = 0 then heart c x y s (pal (i mod 5)) (pal 8)
           else if i mod 3 = 1 then flower c x y (2 + s) (pal (i mod 5)) (pal 2)
           else star c x y (2 + s) (pal 2)),
      text_center c 54 ''TOO MUCH'' 6 (pal 2) (pal 8),
      text_center c 104 ''IS ENOUGH'' 5 (pal 9) (pal 8)]"

definition overlay :: "sine_table \<Rightarrow> cart_canvas \<Rightarrow> int \<Rightarrow> int \<Rightarrow> draw" where
  "overlay sines c which t = draw_all
     [if which = 0 then overlay_candy c t
      else if which = 1 then overlay_girl_mode c t
      else if which = 2 then overlay_bubblegum c t
      else if which = 3 then overlay_butterfly_riot sines c t
      else if which = 4 then overlay_hyperdrive sines c t
      else overlay_too_much c t,
      for_int 0 SCENES (\<lambda>i. circle c (145 + i * 6) 171 (if i = which then 2 else 1)
        (if i = which then pal 2 else pal 8))]"

section \<open>The render entry point\<close>

datatype cart_scene_phase = CART_SCENE_RENDER_ROWS | CART_SCENE_RENDER_OVERLAY

record cart_scene_render_context =
  ctx_canvas :: "cart_canvas option"
  row_start :: int
  row_end :: int
  ctx_frame :: u64
  ctx_phase :: cart_scene_phase

definition legacy_frame_phase :: "u64 \<Rightarrow> int" where
  "legacy_frame_phase fr = uint (fr mod 65536)"

definition render_legacy_scene ::
    "sine_table \<Rightarrow> cart_scene_render_context option \<Rightarrow> int \<Rightarrow> draw" where
  "render_legacy_scene sines context which h =
     (case context of
        None \<Rightarrow> Some h
      | Some ctx \<Rightarrow>
          if ctx_canvas ctx = None \<or> which < 0 \<or> which \<ge> SCENES then Some h
          else let t = legacy_frame_phase (ctx_frame ctx); c = the (ctx_canvas ctx);
                   y0 = row_start ctx; y1 = row_end ctx
               in if ctx_phase ctx = CART_SCENE_RENDER_ROWS then
                    (if which = 0 then scene_candy sines c y0 y1 t h
                     else if which = 1 then scene_checker sines c y0 y1 t h
                     else if which = 2 then scene_bubbles sines c y0 y1 t h
                     else if which = 3 then scene_ribbons sines c y0 y1 t h
                     else if which = 4 then scene_chrome sines c y0 y1 t h
                     else scene_sugar sines c y0 y1 t h)
                  else overlay sines c which t h)"

section \<open>Row passes fill their rows\<close>

text \<open>
  \<open>fill a lo hi f h\<close> stores \<open>f i\<close> at every index \<open>i\<close> of buffer \<open>a\<close> between \<open>lo\<close> and
  \<open>hi\<close>. A row pass is such a fill, because the rows of the logical frame are contiguous.
\<close>

definition fill :: "addr \<Rightarrow> nat \<Rightarrow> nat \<Rightarrow> (nat \<Rightarrow> u32) \<Rightarrow> heap \<Rightarrow> heap" where
  "fill a lo hi f h =
     h(a := map (\<lambda>i. if lo \<le> i \<and> i < hi then f i else h a ! i) [0..<length (h a)])"

lemma length_fill [simp]: "length (fill a lo hi f h b) = length (h b)"
  by (simp add: fill_def)

lemma fill_other [simp]: "b \<noteq> a \<Longrightarrow> fill a lo hi f h b = h b"
  by (simp add: fill_def)

lemma nth_fill [simp]:
  "i < length (h a) \<Longrightarrow> fill a lo hi f h a ! i = (if lo \<le> i \<and> i < hi then f i else h a ! i)"
  by (simp add: fill_def)

lemma heap_eqI:
  assumes "\<And>b. b \<noteq> a \<Longrightarrow> g b = h b" "length (g a) = length (h a)"
    "\<And>i. i < length (h a) \<Longrightarrow> g a ! i = h a ! i"
  shows "g = (h :: heap)"
proof
  fix b show "g b = h b"
    using assms by (cases "b = a") (auto intro: nth_equalityI)
qed

lemma fill_empty [simp]: "hi \<le> lo \<Longrightarrow> fill a lo hi f h = h"
  by (rule heap_eqI [of a]) auto

lemma fill_join: "lo \<le> mid \<Longrightarrow> mid \<le> hi \<Longrightarrow> fill a mid hi f (fill a lo mid f h) = fill a lo hi f h"
  by (rule heap_eqI [of a]) auto

lemma fill_commute:
  "hi \<le> lo' \<Longrightarrow> fill a lo' hi' g (fill a lo hi f h) = fill a lo hi f (fill a lo' hi' g h)"
  by (rule heap_eqI [of a]) auto

lemma poke_fill:
  assumes "lo \<le> k" "k < length (h a)"
  shows "poke a k (f k) (fill a lo k f h) = Some (fill a lo (Suc k) f h)"
proof -
  have "(fill a lo k f h)(a := (fill a lo k f h a)[k := f k]) = fill a lo (Suc k) f h"
    using assms by (intro heap_eqI [of a]) (auto simp: nth_list_update less_Suc_eq)
  with assms show ?thesis by (simp add: poke_def)
qed

text \<open>A pixel function is total on the 320 by 180 frame; its value there, by buffer index.\<close>

definition shader_total :: "(int \<Rightarrow> int \<Rightarrow> u32 option) \<Rightarrow> bool" where
  "shader_total pixel \<longleftrightarrow> (\<forall>x y. 0 \<le> x \<and> x < LW \<and> 0 \<le> y \<and> y < LH \<longrightarrow> pixel x y \<noteq> None)"

definition shade :: "(int \<Rightarrow> int \<Rightarrow> u32 option) \<Rightarrow> nat \<Rightarrow> u32" where
  "shade pixel i = the (pixel (int (i mod 320)) (int (i div 320)))"

lemma put_low_fill:
  assumes a: "pixels c = Some a" and len: "57600 \<le> length (h a)" and tot: "shader_total pixel"
    and xy: "0 \<le> x" "x < 320" "0 \<le> y0" "y0 \<le> y" "y < 180"
  shows "do { v \<leftarrow> pixel x y; put_low c x y v (fill a (nat (y0 * 320)) (nat (y * 320 + x)) (shade pixel) h) }
    = Some (fill a (nat (y0 * 320)) (nat (y * 320 + (x + 1))) (shade pixel) h)"
proof -
  let ?k = "nat (y * 320 + x)"
  have k: "?k = nat y * 320 + nat x" "nat (y * 320 + (x + 1)) = Suc ?k"
    using xy by (simp_all add: nat_add_distrib nat_mult_distrib)
  have dm: "?k mod 320 = nat x" "?k div 320 = nat y"
    using xy unfolding k by (auto simp: nat_less_iff)
  have "pixel x y \<noteq> None" using tot [unfolded shader_total_def, rule_format, of x y] xy by simp
  then obtain v where v: "pixel x y = Some v" by blast
  have "shade pixel ?k = v" using v xy by (simp add: shade_def dm)
  moreover have "nat (y0 * 320) \<le> ?k" "?k < length (h a)" using xy len by auto
  ultimately show ?thesis
    using xy poke_fill [of "nat (y0 * 320)" ?k h a "shade pixel"]
    by (simp add: v put_low_def a in_i32_def k(2))
qed

lemma render_rows_fill:
  assumes a: "pixels c = Some a" and len: "57600 \<le> length (h a)" and tot: "shader_total pixel"
    and y: "0 \<le> y0" "y1 \<le> 180"
  shows "render_rows pixel c y0 y1 h = Some (fill a (nat (y0 * 320)) (nat (y1 * 320)) (shade pixel) h)"
proof (cases "y0 \<le> y1")
  case True
  let ?S = "\<lambda>k. fill a (nat (y0 * 320)) (nat k) (shade pixel) h"
  have row: "for_int 0 320 (\<lambda>x h. do { v \<leftarrow> pixel x y; put_low c x y v h }) (?S (y * 320))
      = Some (?S ((y + 1) * 320))" if "y0 \<le> y" "y < y1" for y
  proof -
    have "for_int 0 320 (\<lambda>x h. do { v \<leftarrow> pixel x y; put_low c x y v h }) (?S (y * 320 + 0))
        = Some (?S (y * 320 + 320))"
      using that y put_low_fill [of c a h, OF a len tot]
      by (intro for_int_trace [where S = "\<lambda>x. ?S (y * 320 + x)"]) auto
    then show ?thesis by (simp add: algebra_simps)
  qed
  have "for_int y0 y1 (\<lambda>y. for_int 0 320 (\<lambda>x h. do { v \<leftarrow> pixel x y; put_low c x y v h }))
      (?S (y0 * 320)) = Some (?S (y1 * 320))"
    using True row by (intro for_int_trace [where S = "\<lambda>y. ?S (y * 320)"]) auto
  then show ?thesis by (simp add: render_rows_def)
next
  case False
  then show ?thesis by (simp add: render_rows_def)
qed

section \<open>The scenes' arithmetic stays in range\<close>

lemma and_2047: "x AND 2047 = x mod (2048 :: int)"
  using take_bit_eq_mask [of 11 x] by (simp add: take_bit_eq_mod mask_eq_exp_minus_1)

lemma si_bound:
  assumes "sine_bounded sines"
  shows "- 1024 \<le> si sines x" "si sines x \<le> 1024"
proof -
  have "nat (x AND 2047) < 2048" by (simp add: and_2047 nat_less_iff)
  with assms have "\<bar>si sines x\<bar> \<le> 1024" by (simp add: si_def sine_bounded_def)
  then show "- 1024 \<le> si sines x" "si sines x \<le> 1024" by auto
qed

lemma shift_bound: "- B \<le> v \<Longrightarrow> v \<le> B \<Longrightarrow> - B \<le> drop_bit n v \<and> drop_bit n v \<le> (B :: int)"
proof -
  assume v: "- B \<le> v" "v \<le> B"
  then have "0 \<le> B" by simp
  have p: "(1::int) \<le> 2 ^ n" by simp
  have "v div 2 ^ n \<le> B"
  proof (cases "0 \<le> v")
    case True
    then have "v div 2 ^ n \<le> v div 1" using p by (intro zdiv_mono2) auto
    with v show ?thesis by simp
  next
    case False
    then have "v div 2 ^ n \<le> 0" by (simp add: div_nonpos_pos_le0)
    with \<open>0 \<le> B\<close> show ?thesis by simp
  qed
  moreover have "- B \<le> v div 2 ^ n"
  proof -
    have "- B * 2 ^ n \<le> - B" using p \<open>0 \<le> B\<close> by (simp add: mult_le_cancel_left1)
    then have "- B * 2 ^ n \<le> v" using v by simp
    then have "(- B * 2 ^ n) div 2 ^ n \<le> v div 2 ^ n" by (intro zdiv_mono1) auto
    moreover have "(- B * 2 ^ n) div 2 ^ n = - B" by (rule nonzero_mult_div_cancel_right) simp
    ultimately show ?thesis by simp
  qed
  ultimately show ?thesis by (simp add: drop_bit_eq_div)
qed

lemma square_bound: "- B \<le> v \<Longrightarrow> v \<le> B \<Longrightarrow> 0 \<le> v * v \<and> v * v \<le> B * (B :: int)"
  by (metis abs_le_iff abs_mult_self_eq minus_le_iff mult_mono' abs_ge_zero zero_le_mult_iff linear)

lemma chk_Some: "list_all in_i32 es \<Longrightarrow> chk es v = Some v"
  by (simp add: chk_def)

text \<open>The range of the frame phase the scenes see.\<close>

lemma frame_phase_range: "0 \<le> legacy_frame_phase fr" "legacy_frame_phase fr < 65536"
proof -
  have "fr mod 65536 < (65536 :: u64)" by (rule word_mod_less) simp
  then show "legacy_frame_phase fr < 65536" by (simp add: legacy_frame_phase_def word_less_def)
  show "0 \<le> legacy_frame_phase fr" by (simp add: legacy_frame_phase_def)
qed

lemma candy_total:
  assumes s: "sine_bounded sines" and t: "0 \<le> t" "t < 65536"
  shows "shader_total (candy_pixel sines t)"
  unfolding shader_total_def
proof (intro allI impI)
  fix x y :: int
  assume a: "0 \<le> x \<and> x < LW \<and> 0 \<le> y \<and> y < LH"
  define X Y where XY: "X = (x - 160) * (x - 160)" "Y = (y - 90) * (y - 90)"
  define d where "d = drop_bit 4 (X + Y)"
  define w where "w = si sines ((x * 9 + t * 11) AND 2047) + si sines ((y * 13 - t * 7) AND 2047)"
  define w7 where "w7 = drop_bit 7 w"
  note defs = XY [symmetric] d_def [symmetric] w_def [symmetric] w7_def [symmetric]
  have q: "0 \<le> X" "X \<le> 25600" "0 \<le> Y" "Y \<le> 8100"
    using a square_bound [of 160 "x - 160"] square_bound [of 90 "y - 90"] by (auto simp: XY)
  then have d: "0 \<le> d" "d \<le> 33700"
    using shift_bound [of 33700 "X + Y" 4] by (auto simp: d_def)
  have w: "- 2048 \<le> w" "w \<le> 2048"
    using si_bound [OF s, of "(x * 9 + t * 11) AND 2047"] si_bound [OF s, of "(y * 13 - t * 7) AND 2047"]
    unfolding w_def by linarith+
  have "- 2048 \<le> w7" "w7 \<le> 2048" using shift_bound [OF w, of 7] by (auto simp: w7_def)
  with a t q d w show "candy_pixel sines t x y \<noteq> None"
    unfolding candy_pixel_def Let_def defs by (subst chk_Some) (simp_all add: in_i32_def)
qed

lemma checker_total:
  assumes s: "sine_bounded sines" and t: "0 \<le> t" "t < 65536"
  shows "shader_total (checker_pixel sines t)"
  unfolding shader_total_def
proof (intro allI impI)
  fix x y :: int
  assume a: "0 \<le> x \<and> x < LW \<and> 0 \<le> y \<and> y < LH"
  note b = shift_bound [OF si_bound [OF s], of 8]
  show "checker_pixel sines t x y \<noteq> None"
    using a t b [of "x * 10 + t * 14"] b [of "y * 13 - t * 9"]
    by (simp add: checker_pixel_def Let_def chk_Some in_i32_def)
qed

lemma ribbons_total:
  assumes s: "sine_bounded sines" and t: "0 \<le> t" "t < 65536"
  shows "shader_total (ribbons_pixel sines t)"
  unfolding shader_total_def
proof (intro allI impI)
  fix x y :: int
  assume a: "0 \<le> x \<and> x < LW \<and> 0 \<le> y \<and> y < LH"
  note b = shift_bound [OF si_bound [OF s]]
  let ?w = "drop_bit 5 (si sines (x * 12 + t * 13))"
  let ?v = "drop_bit 4 (si sines (x * 9 - t * 17 + 500))"
  have w: "- 1024 \<le> ?w \<and> ?w \<le> 1024" "- 1024 \<le> ?v \<and> ?v \<le> 1024" using b by blast+
  have "in_i32 \<bar>y - (90 + ?w)\<bar>" "in_i32 \<bar>y - (90 + ?v)\<bar>" "in_i32 (y - (90 + ?w))"
    "in_i32 (y - (90 + ?v))" "in_i32 (90 + ?w)" "in_i32 (90 + ?v)"
    using a w unfolding in_i32_def by linarith+
  moreover have "list_all in_i32 [x * 12, t * 13, x * 12 + t * 13, x * 9, t * 17, x * 9 - t * 17,
      x * 9 - t * 17 + 500, y * 255]"
    using a t by (simp add: in_i32_def)
  ultimately show "ribbons_pixel sines t x y \<noteq> None"
    by (simp add: ribbons_pixel_def Let_def chk_Some del: diff_diff_eq diff_add_eq_diff_diff_swap)
qed

lemma sdiv_abs_le: "0 < b \<Longrightarrow> \<bar>a sdiv b\<bar> \<le> \<bar>a :: int\<bar>"
proof -
  assume b: "0 < b"
  have "\<bar>a\<bar> div b \<le> \<bar>a\<bar> div 1" using b by (intro zdiv_mono2) auto
  moreover have "0 \<le> \<bar>a\<bar> div b" using b by (simp add: pos_imp_zdiv_nonneg_iff)
  ultimately show ?thesis using b by (auto simp: signed_divide_int_def abs_mult sgn_if)
qed

lemma chrome_total:
  assumes s: "sine_bounded sines" and t: "0 \<le> t" "t < 65536"
  shows "shader_total (chrome_pixel sines t)"
  unfolding shader_total_def
proof (intro allI impI)
  fix x y :: int
  assume a: "0 \<le> x \<and> x < LW \<and> 0 \<le> y \<and> y < LH"
  show "chrome_pixel sines t x y \<noteq> None"
  proof (cases "y < 95")
    case True
    with a show ?thesis by (simp add: chrome_pixel_def Let_def chk_Some in_i32_def)
  next
    case False
    let ?n = "(x - 160) * 90"
    have "\<bar>?n\<bar> \<le> 14400" using a by (simp add: abs_if)
    with False sdiv_abs_le [of "y - 94 + 8" ?n] have "\<bar>?n sdiv (y - 94 + 8)\<bar> \<le> 14400" by linarith
    then have "in_i32 \<bar>?n sdiv (y - 94 + 8)\<bar>" unfolding in_i32_def by linarith
    moreover have "in_i32 ?n" "in_i32 ((y - 94) * 13)" "in_i32 (y - 94 + 8)"
      using a by (auto simp: in_i32_def)
    ultimately show ?thesis using False unfolding chrome_pixel_def Let_def chk_def by simp
  qed
qed

lemma sugar_total:
  assumes s: "sine_bounded sines" and t: "0 \<le> t" "t < 65536"
  shows "shader_total (sugar_pixel sines t)"
  unfolding shader_total_def
proof (intro allI impI)
  fix x y :: int
  assume a: "0 \<le> x \<and> x < LW \<and> 0 \<le> y \<and> y < LH"
  note b = si_bound [OF s]
  note c = shift_bound [OF b, of 7 "t * 17 + x * 3"]
  show "sugar_pixel sines t x y \<noteq> None"
    using a t b [of "x * 10 + t * 13"] b [of "y * 14 - t * 9"] b [of "(x + y) * 7 + t * 5"] c
    unfolding sugar_pixel_def Let_def by (subst chk_Some) (simp_all add: in_i32_def)
qed

lemma shift10_bound: "- (B * 1024) \<le> v \<Longrightarrow> v \<le> B * 1024 \<Longrightarrow> - B \<le> drop_bit 10 v \<and> drop_bit 10 v \<le> (B :: int)"
  using zdiv_mono1 [of v "B * 1024" 1024] zdiv_mono1 [of "- B * 1024" v 1024]
  by (simp add: drop_bit_eq_div)

lemma si_scaled:
  assumes s: "sine_bounded sines" and k: "0 \<le> k"
  shows "- (k * 1024) \<le> si sines x * k" "si sines x * k \<le> k * 1024"
  using mult_left_mono [OF si_bound(2) [OF s, of x] k] mult_left_mono [OF si_bound(1) [OF s, of x] k]
  by (simp_all add: mult.commute)

lemma bubble_centre:
  assumes s: "sine_bounded sines" and i: "0 \<le> i" "i \<le> 6"
  shows "0 \<le> bubble_x sines t i" "bubble_x sines t i \<le> 320"
    "0 \<le> bubble_y sines t i" "bubble_y sines t i \<le> 180"
proof -
  have k: "0 \<le> 45 + i * 5" "0 \<le> 28 + i * 4" using i by simp_all
  note x = shift10_bound [OF si_scaled [OF s k(1), of "t * (7 + i) + i * 273"]]
  note y = shift10_bound [OF si_scaled [OF s k(2), of "t * (9 + i) + i * 411"]]
  show "0 \<le> bubble_x sines t i" "bubble_x sines t i \<le> 320"
    "0 \<le> bubble_y sines t i" "bubble_y sines t i \<le> 180"
    using x y i unfolding bubble_x_def bubble_y_def by linarith+
qed

lemma bubble_checks_ok:
  assumes s: "sine_bounded sines" and t: "0 \<le> t" "t < 65536" and i: "0 \<le> i" "i \<le> 6"
  shows "list_all in_i32 (bubble_checks sines t i)"
proof -
  have k: "0 \<le> 45 + i * 5" "0 \<le> 28 + i * 4" using i by simp_all
  have "t * (7 + i) \<le> 65536 * 13" "t * (9 + i) \<le> 65536 * 15" "0 \<le> t * (7 + i)" "0 \<le> t * (9 + i)"
    using t i mult_mono [of t 65536 "7 + i" 13] mult_mono [of t 65536 "9 + i" 15] by simp_all
  moreover have "(45 + i * 5) * 1024 \<le> 100000" "(28 + i * 4) * 1024 \<le> 100000" using i by simp_all
  ultimately show ?thesis
    using i bubble_centre [OF s i, of t] si_scaled [OF s k(1), of "t * (7 + i) + i * 273"]
      si_scaled [OF s k(2), of "t * (9 + i) + i * 411"]
    unfolding bubble_checks_def list.pred_inject(2) in_i32_def by (intro conjI list.pred_inject(1); linarith)
qed

lemma bubble_term:
  fixes t :: int
  assumes s: "sine_bounded sines" and i: "0 \<le> i" "i \<le> 6" and a: "0 \<le> x" "x < 320" "0 \<le> y" "y < 180"
  defines "dx \<equiv> x - bubble_x sines t i" and "dy \<equiv> y - bubble_y sines t i"
  shows "list_all in_i32 [dx, dy, dx * dx, 18 + dx * dx, dy * dy, 18 + dx * dx + dy * dy]"
    "18 + dx * dx + dy * dy \<noteq> 0"
    "0 \<le> (9000 + i * 700) sdiv (18 + dx * dx + dy * dy)"
    "(9000 + i * 700) sdiv (18 + dx * dx + dy * dy) \<le> 13200"
proof -
  have "- 320 \<le> dx" "dx \<le> 320" "- 320 \<le> dy" "dy \<le> 320"
    using a bubble_centre [OF s i, of t] unfolding dx_def dy_def by linarith+
  note r = this square_bound [OF this(1,2)] square_bound [OF this(3,4)]
  show "list_all in_i32 [dx, dy, dx * dx, 18 + dx * dx, dy * dy, 18 + dx * dx + dy * dy]"
    using r unfolding list.pred_inject(2) in_i32_def by (intro conjI list.pred_inject(1); linarith)
  have p: "0 < 18 + dx * dx + dy * dy" using r by linarith
  then show "18 + dx * dx + dy * dy \<noteq> 0" by simp
  have n: "0 \<le> 9000 + i * 700" using i by simp
  have "(9000 + i * 700) sdiv (18 + dx * dx + dy * dy) = (9000 + i * 700) div (18 + dx * dx + dy * dy)"
    using n p by (cases "9000 + i * 700 = 0") (simp_all add: signed_divide_int_def sgn_if)
  moreover have "0 \<le> (9000 + i * 700) div (18 + dx * dx + dy * dy)"
    using n p by (simp only: pos_imp_zdiv_nonneg_iff)
  ultimately show "0 \<le> (9000 + i * 700) sdiv (18 + dx * dx + dy * dy)" by simp
  show "(9000 + i * 700) sdiv (18 + dx * dx + dy * dy) \<le> 13200"
    using sdiv_abs_le [OF p, of "9000 + i * 700"] i by linarith
qed

lemma bubble_field_total:
  assumes s: "sine_bounded sines" and a: "0 \<le> x" "x < 320" "0 \<le> y" "y < 180"
  shows "set is \<subseteq> {0..6} \<Longrightarrow> length is \<le> 7 \<Longrightarrow> 0 \<le> field \<Longrightarrow>
    field \<le> 13200 * (7 - int (length is)) \<Longrightarrow>
    \<exists>v. bubble_field sines t x y is field = Some v \<and> 0 \<le> v \<and> v \<le> 92400"
proof (induction "is" arbitrary: field)
  case (Cons i "is")
  then have i: "0 \<le> i" "i \<le> 6" by auto
  note b = bubble_term [OF s i a, of t]
  have "in_i32 (field + (9000 + i * 700) sdiv (18 + (x - bubble_x sines t i) * (x - bubble_x sines t i)
      + (y - bubble_y sines t i) * (y - bubble_y sines t i)))"
    using Cons.prems b(3,4) unfolding in_i32_def by simp
  with b(1,2) show ?case
    using Cons.prems b(3,4) by (simp add: Let_def) (rule Cons.IH, auto)
qed simp

lemma bubbles_total:
  assumes s: "sine_bounded sines" and t: "0 \<le> t" "t < 65536"
  shows "shader_total (bubbles_pixel sines t)"
  unfolding shader_total_def
proof (intro allI impI)
  fix x y :: int
  assume a: "0 \<le> x \<and> x < LW \<and> 0 \<le> y \<and> y < LH"
  then obtain v where v: "bubble_field sines t x y [0..6] 0 = Some v" "0 \<le> v" "v \<le> 92400"
    using bubble_field_total [OF s, of x y "[0..6]" 0 t] by auto
  define w where "w = drop_bit 5 (si sines (x * 8 - y * 6 + t * 18) + 1024)"
  have "0 \<le> w" "w \<le> 2048"
    using si_bound [OF s, of "x * 8 - y * 6 + t * 18"]
      shift_bound [of 2048 "si sines (x * 8 - y * 6 + t * 18) + 1024" 5]
    by (auto simp: w_def)
  with a t v show "bubbles_pixel sines t x y \<noteq> None"
    unfolding bubbles_pixel_def Let_def w_def [symmetric] v(1)
    by (simp add: chk_def in_i32_def)
qed

section \<open>Overlays stay in the canvas\<close>

text \<open>
  The contract of a drawing step on a canvas: from every store that backs the canvas it returns,
  and it changes only pixels of the canvas's buffer. What it does to that buffer does not depend on
  any other buffer (\<open>ignores_others\<close>).
\<close>

definition ignores_others :: "cart_canvas \<Rightarrow> draw \<Rightarrow> bool" where
  "ignores_others c f \<longleftrightarrow> (\<forall>h g. backed c h \<and> g (the (pixels c)) = h (the (pixels c)) \<longrightarrow>
     f g = map_option (\<lambda>h'. g(the (pixels c) := h' (the (pixels c)))) (f h))"

definition draws :: "cart_canvas \<Rightarrow> draw \<Rightarrow> bool" where
  "draws c f \<longleftrightarrow> (\<forall>h. backed c h \<longrightarrow> (\<exists>h'. f h = Some h' \<and>
     (\<forall>a. length (h' a) = length (h a)) \<and> (\<forall>a. a \<noteq> the (pixels c) \<longrightarrow> h' a = h a))) \<and> ignores_others c f"

named_theorems draws_intros \<open>drawing steps that keep the canvas contract\<close>

lemma paint_other: "a \<noteq> the (pixels c) \<Longrightarrow> paint c P v h a = h a"
  by (simp add: paint_def Let_def)

lemma paint_ignores:
  "g (the (pixels c)) = h (the (pixels c)) \<Longrightarrow> paint c P v g = g(the (pixels c) := paint c P v h (the (pixels c)))"
  by (auto simp: paint_def Let_def)

lemma drawsD:
  assumes "draws c f" "backed c h"
  obtains h' where "f h = Some h'" "\<And>a. length (h' a) = length (h a)" "\<And>a. a \<noteq> the (pixels c) \<Longrightarrow> h' a = h a"
    "backed c h'"
  using assms unfolding draws_def backed_def by fastforce

lemma draws_ignores:
  assumes "draws c f" "backed c h" "g (the (pixels c)) = h (the (pixels c))"
  shows "f g = map_option (\<lambda>h'. g(the (pixels c) := h' (the (pixels c)))) (f h)"
  using assms unfolding draws_def ignores_others_def by blast

lemma draws_skip [draws_intros]: "draws c Some"
  by (auto simp: draws_def ignores_others_def)

lemma draws_backed:
  "draws c f \<Longrightarrow> backed c h \<Longrightarrow> f h = Some h' \<Longrightarrow> backed c h'"
  by (force simp: draws_def backed_def)

lemma draws_bind [draws_intros]:
  assumes f: "draws c f" and g: "draws c g"
  shows "draws c (\<lambda>h. do { h \<leftarrow> f h; g h })"
  unfolding draws_def ignores_others_def
proof (intro conjI allI impI)
  fix h assume b: "backed c h"
  obtain h1 where
    h1: "f h = Some h1" "\<And>a. length (h1 a) = length (h a)" "\<And>a. a \<noteq> the (pixels c) \<Longrightarrow> h1 a = h a" "backed c h1"
    by (rule drawsD [OF f b]) blast
  obtain h2 where
    "g h1 = Some h2" "\<And>a. length (h2 a) = length (h1 a)" "\<And>a. a \<noteq> the (pixels c) \<Longrightarrow> h2 a = h1 a"
    by (rule drawsD [OF g h1(4)]) blast
  with h1 show "\<exists>h'. do { h \<leftarrow> f h; g h } = Some h' \<and> (\<forall>a. length (h' a) = length (h a)) \<and>
      (\<forall>a. a \<noteq> the (pixels c) \<longrightarrow> h' a = h a)"
    by simp
next
  fix h k :: heap assume b: "backed c h \<and> k (the (pixels c)) = h (the (pixels c))"
  then obtain h1 where h1: "f h = Some h1" "backed c h1" by (auto elim: drawsD [OF f])
  then show "do { h \<leftarrow> f k; g h } =
      map_option (\<lambda>h'. k(the (pixels c) := h' (the (pixels c)))) (do { h \<leftarrow> f h; g h })"
    using b draws_ignores [OF f, of h k] draws_ignores [OF g h1(2), of "k(the (pixels c) := h1 (the (pixels c)))"]
    by simp
qed

lemma draws_all [draws_intros]: "list_all (draws c) fs \<Longrightarrow> draws c (draw_all fs)"
proof (induction fs)
  case Nil
  have "draw_all [] = Some" by (rule ext) simp
  then show ?case by (simp add: draws_skip)
next
  case (Cons f fs)
  have "draw_all (f # fs) = (\<lambda>h. do { h \<leftarrow> f h; draw_all fs h })" by (rule ext) simp
  with Cons show ?case by (simp add: draws_bind)
qed

lemma draws_list [draws_intros]:
  "list_all (draws c) []" "draws c f \<Longrightarrow> list_all (draws c) fs \<Longrightarrow> list_all (draws c) (f # fs)"
  by simp_all

lemma draws_if [draws_intros]:
  "(P \<Longrightarrow> draws c f) \<Longrightarrow> (\<not> P \<Longrightarrow> draws c g) \<Longrightarrow> draws c (if P then f else g)"
  by simp

lemma draws_for [draws_intros]:
  assumes "\<And>i. lo \<le> i \<Longrightarrow> i < hi \<Longrightarrow> draws c (body i)"
  shows "draws c (for_int lo hi body)"
  using assms
proof (induction "nat (hi - lo)" arbitrary: lo)
  case 0
  then have "for_int lo hi body = Some" by (intro ext) simp
  then show ?case by (simp add: draws_skip)
next
  case (Suc n)
  then have lt: "lo < hi" by simp
  have "for_int lo hi body = (\<lambda>h. do { h \<leftarrow> body lo h; for_int (lo + 1) hi body h })"
    using lt by (intro ext) (simp add: for_int.simps [of lo] split: option.split)
  moreover have "draws c (for_int (lo + 1) hi body)" using Suc.hyps(2) Suc.prems by (intro Suc.hyps(1)) auto
  ultimately show ?case using draws_bind [OF Suc.prems [OF order_refl lt]] by simp
qed

lemma draws_paint:
  assumes "\<And>h. backed c h \<Longrightarrow> f h = Some (paint c P v h)"
  shows "draws c f"
  unfolding draws_def ignores_others_def
proof (intro conjI allI impI)
  fix h g :: heap assume b: "backed c h \<and> g (the (pixels c)) = h (the (pixels c))"
  then have "backed c g" by (simp add: backed_def)
  with b show "f g = map_option (\<lambda>h'. g(the (pixels c) := h' (the (pixels c)))) (f h)"
    using paint_ignores [of g c h P v] by (simp add: assms)
qed (simp add: assms paint_other)

lemma draws_px:
  "cart_canvas_valid (Some c) \<Longrightarrow> in_i32 x \<Longrightarrow> in_i32 y \<Longrightarrow> draws c (px c x y v)"
  by (rule draws_paint) (simp add: px_def px_paints)

lemma draws_rect:
  "cart_canvas_valid (Some c) \<Longrightarrow> in_i32 x \<Longrightarrow> in_i32 y \<Longrightarrow> in_i32 w \<Longrightarrow> in_i32 ht \<Longrightarrow>
   draws c (rect c x y w ht v)"
  by (rule draws_paint) (simp add: rect_def rect_paints)

lemma draws_circle:
  assumes "cart_canvas_valid (Some c)" "in_i32 cx" "in_i32 cy" "in_i32 r"
  shows "draws c (circle c cx cy r v)"
proof (rule draws_paint)
  fix h assume b: "backed c h"
  have "paint c (\<lambda>x y. 0 \<le> r \<and> disc_shape cx cy r x y) v h = (if r < 0 then h else paint c (disc_shape cx cy r) v h)"
    by (auto intro: paint_nothing)
  with assms b show "circle c cx cy r v h = Some (paint c (\<lambda>x y. 0 \<le> r \<and> disc_shape cx cy r x y) v h)"
    by (simp add: circle_def circle_paints)
qed

text \<open>Coordinates and sizes the overlays use are far inside the range of an \<^verbatim>\<open>int\<close>.\<close>

abbreviation near :: "int \<Rightarrow> bool" where "near v \<equiv> - 100000 \<le> v \<and> v \<le> 100000"
abbreviation small :: "int \<Rightarrow> bool" where "small s \<equiv> 0 \<le> s \<and> s \<le> 100"

lemma scaled_bound: "- m \<le> k \<Longrightarrow> k \<le> m \<Longrightarrow> small s \<Longrightarrow> - (m * 100) \<le> k * s \<and> k * s \<le> m * (100 :: int)"
proof -
  assume a: "- m \<le> k" "k \<le> m" "small s"
  then have "\<bar>k\<bar> * \<bar>s\<bar> \<le> m * 100" by (intro mult_mono) auto
  then have "\<bar>k * s\<bar> \<le> m * 100" by (simp add: abs_mult)
  then show ?thesis by linarith
qed

lemma draws_heart:
  assumes v: "cart_canvas_valid (Some c)" and b: "near cx" "near cy" "small s"
  shows "draws c (heart c cx cy s col edge)"
proof -
  have cell: "in_i32 (cx + (x - 4) * s)" "in_i32 (cy + (y - 3) * s)"
    if "0 \<le> x" "x < 8" "0 \<le> y" "y < 8" for x y
    using b scaled_bound [of 8 "x - 4" s] scaled_bound [of 8 "y - 3" s] that
    unfolding in_i32_def by linarith+
  have "in_i32 s" "in_i32 (cx - 2 * s)" "in_i32 (cy - 2 * s)" using b by (auto simp: in_i32_def)
  with cell v show ?thesis
    unfolding heart_def Let_def by (intro draws_intros draws_rect) assumption+
qed

lemma draws_star:
  assumes v: "cart_canvas_valid (Some c)" and b: "near cx" "near cy" "small r"
  shows "draws c (star c cx cy r col)"
proof -
  have "in_i32 (cx + i)" "in_i32 (cy + i)" "in_i32 (cy - i)" "in_i32 cx" "in_i32 cy"
    if "- r \<le> i" "i < r + 1" for i
    using b that by (auto simp: in_i32_def)
  with v show ?thesis unfolding star_def by (intro draws_intros draws_px) assumption+
qed

lemma draws_flower:
  assumes v: "cart_canvas_valid (Some c)" and b: "near cx" "near cy" "small s"
  shows "draws c (flower c cx cy s petal centre)"
  unfolding flower_def using b by (auto intro!: draws_intros draws_circle v simp: in_i32_def)

lemma draws_glyph:
  assumes v: "cart_canvas_valid (Some c)" and b: "- 200000 \<le> x" "x \<le> 200000" "near y" "small s"
  shows "draws c (glyph c x y ch s col)"
proof -
  have "in_i32 (x + xx * s)" "in_i32 (y + yy * s)" "in_i32 s"
    if "0 \<le> xx" "xx < 5" "0 \<le> yy" "yy < 7" for xx yy
    using b scaled_bound [of 8 xx s] scaled_bound [of 8 yy s] that unfolding in_i32_def by linarith+
  with v show ?thesis unfolding glyph_def by (intro draws_intros draws_rect) assumption+
qed

lemma draws_text_run:
  assumes v: "cart_canvas_valid (Some c)" and b: "near y" "small s"
  shows "- 100000 \<le> x \<Longrightarrow> x + 600 * int (length str) \<le> 200000 \<Longrightarrow> draws c (text_run c x y str s col)"
proof (induction str arbitrary: x)
  case Nil
  have "text_run c x y [] s col = Some" by (rule ext) simp
  then show ?case by (simp add: draws_skip)
next
  case (Cons ch str)
  have g: "draws c (if ch = CHR '' '' then Some else glyph c x y ch s col)"
    using Cons.prems by (intro draws_intros draws_glyph v b) auto
  have "draws c (text_run c (x + 6 * s) y str s col)" using b Cons.prems by (intro Cons.IH) auto
  from draws_bind [OF g this] show ?case
    by (rule back_subst [of "draws c"]) (rule ext, simp)
qed

lemma draws_draw_text:
  assumes "cart_canvas_valid (Some c)" "- 50000 \<le> y" "y \<le> 50000" "small s" "- 50000 \<le> x" "x \<le> 50000"
    "length str \<le> 100"
  shows "draws c (draw_text c x y str s col shadow)"
  unfolding draw_text_def using assms by (intro draws_intros draws_text_run) auto

lemma draws_text_center:
  assumes "cart_canvas_valid (Some c)" "- 50000 \<le> y" "y \<le> 50000" "0 \<le> s" "s \<le> 10" "length str \<le> 100"
  shows "draws c (text_center c y str s col shadow)"
proof -
  let ?w = "(int (length str) * 6 - 1) * s"
  have "\<bar>?w\<bar> \<le> 600 * 10" unfolding abs_mult using assms by (intro mult_mono) auto
  then have "\<bar>(320 - ?w) sdiv 2\<bar> \<le> 6320" using sdiv_abs_le [of 2 "320 - ?w"] by linarith
  then have "- 50000 \<le> (320 - ?w) sdiv 2" "(320 - ?w) sdiv 2 \<le> 50000" by linarith+
  with assms show ?thesis unfolding text_center_def Let_def by (intro draws_draw_text) auto
qed

section \<open>The overlays\<close>

lemma uint_mod_range: "k \<noteq> 0 \<Longrightarrow> 0 \<le> uint (w mod k) \<and> uint (w mod k) < uint (k :: u32)"
  using word_mod_less [of k w] by (simp add: word_less_def)

text \<open>\<^verbatim>\<open>(r % m) - k\<close> in unsigned arithmetic, stored in an \<^verbatim>\<open>int\<close>, is the signed difference.\<close>

lemma sint_wrapped_diff:
  fixes a k :: u32
  assumes "uint a < 1000" "uint k < 1000"
  shows "sint (a - k) = uint a - uint k"
proof -
  have "sint (a - k) = signed_take_bit 31 (uint a - uint k)"
    by (simp add: sint_uint uint_word_ariths signed_take_bit_take_bit [of 31 32, simplified]
        flip: take_bit_eq_mod [of 32, simplified])
  moreover have "- 1000 < uint a - uint k" "uint a - uint k < 1000"
    using assms unsigned_greater_eq [of a, where ?'a = int] unsigned_greater_eq [of k, where ?'a = int]
    by linarith+
  then have "- (2 ^ 31) \<le> uint a - uint k" "uint a - uint k < 2 ^ 31" by simp_all
  ultimately show ?thesis by (simp only: signed_take_bit_int_eq_self)
qed

lemma mod_near [simp]:
  "uint (w mod (320 :: u32)) \<le> 100000" "uint (w mod (180 :: u32)) \<le> 100000"
  "uint (w mod (340 :: u32)) \<le> 100010" "uint (w mod (210 :: u32)) \<le> 100015"
  "- numeral k \<le> uint (w' :: u32)"
  using uint_mod_range [of 320 w] uint_mod_range [of 180 w] uint_mod_range [of 340 w]
    uint_mod_range [of 210 w] order_trans [of "- numeral k" 0 "uint w'"]
  by simp_all

lemma sint_offset [simp]:
  "sint (w mod 340 - (10 :: u32)) = uint (w mod 340) - 10"
  "sint (w mod 210 - (15 :: u32)) = uint (w mod 210) - 15"
  using uint_mod_range [of 340 w] uint_mod_range [of 210 w]
  by (simp_all add: sint_wrapped_diff)

lemmas overlay_rules = draws_intros draws_px draws_rect draws_circle draws_star draws_heart
  draws_flower draws_text_center

lemma draws_overlay_candy:
  assumes v: "cart_canvas_valid (Some c)"
  shows "draws c (overlay_candy c t)"
  unfolding overlay_candy_def Let_def
  by (intro overlay_rules v) auto

lemma draws_overlay_girl_mode:
  assumes v: "cart_canvas_valid (Some c)"
  shows "draws c (overlay_girl_mode c t)"
  unfolding overlay_girl_mode_def Let_def
  by (intro overlay_rules v) auto

lemma draws_overlay_bubblegum:
  assumes v: "cart_canvas_valid (Some c)"
  shows "draws c (overlay_bubblegum c t)"
  unfolding overlay_bubblegum_def Let_def
  by (intro overlay_rules v) auto

lemma draws_overlay_too_much:
  assumes v: "cart_canvas_valid (Some c)"
  shows "draws c (overlay_too_much c t)"
  unfolding overlay_too_much_def Let_def
  by (intro overlay_rules v) auto

lemma draws_butterfly:
  assumes v: "cart_canvas_valid (Some c)" and s: "sine_bounded sines" and t: "0 \<le> t" "t < 65536"
    and i: "0 \<le> i" "i < 24"
  shows "draws c (butterfly sines c t i)"
proof -
  define w where "w = si sines (t * (8 + i) + i * 193) * 55"
  have w: "- (55 * 1024) \<le> w" "w \<le> 55 * 1024"
    using si_scaled [OF s, of 55 "t * (8 + i) + i * 193"] by (auto simp: w_def)
  define y where "y = 70 + drop_bit 10 w"
  have y: "0 \<le> y" "y \<le> 200" using shift10_bound [OF w] by (auto simp: y_def)
  define u where "u = i * 29 + t * (i mod 3 + 1)"
  have m: "0 \<le> i mod 3" "i mod 3 \<le> 2" by simp_all
  have p: "0 \<le> t * (i mod 3 + 1)" "t * (i mod 3 + 1) \<le> 65536 * 3" "0 \<le> t * (8 + i)" "t * (8 + i) \<le> 65536 * 32"
    using t i m mult_mono [of t 65536 "i mod 3 + 1" 3] mult_mono [of t 65536 "8 + i" 32] by simp_all
  then have chk: "list_all in_i32 [t * (i mod 3 + 1), u, t * (8 + i), t * (8 + i) + i * 193, w, y]"
    using i w y unfolding u_def list.pred_inject(2) in_i32_def
    by (intro conjI list.pred_inject(1); linarith)
  define x where "x = u mod 350 - 15"
  have "0 \<le> u mod 350" "u mod 350 < 350" by simp_all
  then have x: "- 15 \<le> x" "x < 335" unfolding x_def by linarith+
  show ?thesis
    unfolding butterfly_def Let_def w_def [symmetric] y_def [symmetric] u_def [symmetric] x_def [symmetric]
      if_P [OF chk]
    by (intro overlay_rules v) (use x y in \<open>auto simp: in_i32_def\<close>)
qed

lemma draws_overlay_butterfly_riot:
  assumes v: "cart_canvas_valid (Some c)" and s: "sine_bounded sines" and t: "0 \<le> t" "t < 65536"
  shows "draws c (overlay_butterfly_riot sines c t)"
proof -
  have "near ((i * 41 + t) mod 340 - 10)" "near (20 + i * 23 mod 140)" for i :: int
    using pos_mod_bound [of 340 "i * 41 + t"] pos_mod_sign [of 340 "i * 41 + t"]
      pos_mod_bound [of 140 "i * 23"] pos_mod_sign [of 140 "i * 23"] by linarith+
  then show ?thesis
    unfolding overlay_butterfly_riot_def
    by (intro overlay_rules draws_butterfly v s t) auto
qed

lemma draws_overlay_hyperdrive:
  assumes v: "cart_canvas_valid (Some c)" and s: "sine_bounded sines" and t: "0 \<le> t" "t < 65536"
  shows "draws c (overlay_hyperdrive sines c t)"
proof -
  note p = si_scaled [OF s, of 28 "t * 9"] si_scaled [OF s, of 9 "t * 13"]
  define cx where "cx = 160 + drop_bit 10 (si sines (t * 9) * 28)"
  define cy where "cy = 67 + drop_bit 10 (si sines (t * 13) * 9)"
  have b: "0 \<le> cx" "cx \<le> 320" "0 \<le> cy" "cy \<le> 180"
    using shift10_bound [OF p(1,2)] shift10_bound [OF p(3,4)] unfolding cx_def cy_def by auto
  have chk: "list_all in_i32 [t * 9, si sines (t * 9) * 28, t * 13, si sines (t * 13) * 9, cx, cy]"
    using p t b by (simp add: in_i32_def)
  show ?thesis
    unfolding overlay_hyperdrive_def Let_def cx_def [symmetric] cy_def [symmetric] if_P [OF chk]
    by (intro overlay_rules v) (use b in \<open>auto simp: in_i32_def\<close>)
qed

lemma draws_overlay:
  assumes v: "cart_canvas_valid (Some c)" and s: "sine_bounded sines" and t: "0 \<le> t" "t < 65536"
  shows "draws c (overlay sines c which t)"
  unfolding overlay_def
  by (intro overlay_rules v s t draws_overlay_candy draws_overlay_girl_mode draws_overlay_bubblegum
      draws_overlay_butterfly_riot draws_overlay_hyperdrive draws_overlay_too_much)
    (auto simp: in_i32_def)

section \<open>The two passes of a scene\<close>

definition scene_pixel :: "sine_table \<Rightarrow> int \<Rightarrow> int \<Rightarrow> int \<Rightarrow> int \<Rightarrow> u32 option" where
  "scene_pixel sines which t =
     (if which = 0 then candy_pixel sines t else if which = 1 then checker_pixel sines t
      else if which = 2 then bubbles_pixel sines t else if which = 3 then ribbons_pixel sines t
      else if which = 4 then chrome_pixel sines t else sugar_pixel sines t)"

lemma scene_pixel_total:
  "sine_bounded sines \<Longrightarrow> shader_total (scene_pixel sines which (legacy_frame_phase fr))"
  by (simp add: scene_pixel_def candy_total checker_total bubbles_total ribbons_total chrome_total
      sugar_total frame_phase_range)

abbreviation rows_context :: "cart_canvas \<Rightarrow> int \<Rightarrow> int \<Rightarrow> u64 \<Rightarrow> cart_scene_render_context" where
  "rows_context c y0 y1 fr \<equiv> \<lparr>ctx_canvas = Some c, row_start = y0, row_end = y1, ctx_frame = fr,
     ctx_phase = CART_SCENE_RENDER_ROWS\<rparr>"

abbreviation overlay_context :: "cart_canvas \<Rightarrow> int \<Rightarrow> int \<Rightarrow> u64 \<Rightarrow> cart_scene_render_context" where
  "overlay_context c y0 y1 fr \<equiv> \<lparr>ctx_canvas = Some c, row_start = y0, row_end = y1, ctx_frame = fr,
     ctx_phase = CART_SCENE_RENDER_OVERLAY\<rparr>"

lemma rows_render_eq:
  assumes "sine_bounded sines" "0 \<le> which" "which < 6"
  shows "render_legacy_scene sines (Some (rows_context c y0 y1 fr)) which =
    render_rows (scene_pixel sines which (legacy_frame_phase fr)) c y0 y1"
proof
  fix h
  have "list_all (\<lambda>i. list_all in_i32 (bubble_checks sines (legacy_frame_phase fr) i)) [0..6]"
    using bubble_checks_ok [OF assms(1) frame_phase_range] unfolding list_all_iff by auto
  with assms(2,3) show "render_legacy_scene sines (Some (rows_context c y0 y1 fr)) which h =
      render_rows (scene_pixel sines which (legacy_frame_phase fr)) c y0 y1 h"
    by (simp add: render_legacy_scene_def Let_def scene_pixel_def scene_candy_def scene_checker_def
        scene_bubbles_def scene_ribbons_def scene_chrome_def scene_sugar_def)
qed

lemma rows_render_fill:
  assumes s: "sine_bounded sines" and w: "0 \<le> which" "which < 6"
    and a: "pixels c = Some a" "57600 \<le> length (h a)" and y: "0 \<le> y0" "y1 \<le> 180"
  shows "render_legacy_scene sines (Some (rows_context c y0 y1 fr)) which h =
    Some (fill a (nat (y0 * 320)) (nat (y1 * 320))
            (shade (scene_pixel sines which (legacy_frame_phase fr))) h)"
  unfolding rows_render_eq [OF s w] by (rule render_rows_fill [of c a h, OF a scene_pixel_total [OF s] y])

text \<open>
  Claim C25. The row pass of every scene over any band of rows of a 320 by 180 frame is defined (no
  arithmetic overflow, no division by zero, no access outside the frame), changes exactly the
  pixels of its rows, and gives each of them a value that depends on the scene, the frame phase
  and the pixel's coordinates only, not on the band it was rendered in.
\<close>

theorem row_pass_fills_band:
  assumes "sine_bounded sines" "0 \<le> which" "which < 6"
    and "pixels c = Some a" "length (h a) = 320 * 180" "0 \<le> y0" "y0 \<le> y1" "y1 \<le> 180"
  shows "\<exists>h'. render_legacy_scene sines (Some (rows_context c y0 y1 fr)) which h = Some h' \<and>
    (\<forall>b. b \<noteq> a \<longrightarrow> h' b = h b) \<and> length (h' a) = length (h a) \<and>
    (\<forall>x y. x < 320 \<and> y < 180 \<longrightarrow> h' a ! (y * 320 + x) =
       (if y0 \<le> int y \<and> int y < y1
        then the (scene_pixel sines which (legacy_frame_phase fr) (int x) (int y))
        else h a ! (y * 320 + x)))"
proof -
  have i: "y * 320 + x < length (h a)" "(y * 320 + x) mod 320 = x" "(y * 320 + x) div 320 = y"
    "nat (y0 * 320) \<le> y * 320 + x \<longleftrightarrow> y0 \<le> int y" "y * 320 + x < nat (y1 * 320) \<longleftrightarrow> int y < y1"
    if "x < 320" "y < 180" for x y :: nat
    using that assms(5-8) by auto
  show ?thesis
    using assms rows_render_fill [of sines which c a h y0 y1 fr] i
    by (auto simp: shade_def)
qed

definition flat_sines :: sine_table where
  "flat_sines i = 0"

lemma flat_sines_bounded: "sine_bounded flat_sines"
  by (simp add: sine_bounded_def flat_sines_def)

theorem row_pass_fills_band_witness:
  "\<exists>h'. render_legacy_scene flat_sines
     (Some (rows_context \<lparr>pixels = Some 7, width = 320, height = 180, stride = 320\<rparr> 45 90 12)) 3
     (\<lambda>_. replicate 57600 0) = Some h' \<and> h' 7 ! (10 * 320 + 5) = 0"
proof -
  have "sine_bounded flat_sines" by (rule flat_sines_bounded)
  from row_pass_fills_band [OF this, of 3 "\<lparr>pixels = Some 7, width = 320, height = 180, stride = 320\<rparr>" 7
      "\<lambda>_. replicate 57600 0" 45 90 12]
  obtain h' where "render_legacy_scene flat_sines (Some (rows_context
      \<lparr>pixels = Some 7, width = 320, height = 180, stride = 320\<rparr> 45 90 12)) 3
      (\<lambda>_. replicate 57600 0) = Some h'"
    "\<forall>x y. x < 320 \<and> y < 180 \<longrightarrow> h' 7 ! (y * 320 + x) = (if 45 \<le> int y \<and> int y < 90
        then the (scene_pixel flat_sines 3 (legacy_frame_phase 12) (int x) (int y))
        else replicate 57600 0 ! (y * 320 + x))"
    by auto
  with this(2) [rule_format, of 5 10] show ?thesis by auto
qed

text \<open>
  Claim C26. The overlay pass of every scene, on every valid canvas whose buffer exists, is defined
  whatever the frame: no coordinate computation overflows, no primitive writes outside the
  canvas's buffer, and no other buffer changes.
\<close>

theorem overlay_stays_in_canvas:
  assumes "sine_bounded sines" "0 \<le> which" "which < 6" "cart_canvas_valid (Some c)" "backed c h"
  shows "\<exists>h'. render_legacy_scene sines (Some (overlay_context c y0 y1 fr)) which h = Some h' \<and>
    (\<forall>a. length (h' a) = length (h a)) \<and> (\<forall>a. a \<noteq> the (pixels c) \<longrightarrow> h' a = h a)"
  using assms draws_overlay [OF assms(4,1) frame_phase_range, of which fr]
  by (simp add: render_legacy_scene_def Let_def draws_def)

theorem overlay_stays_in_canvas_witness:
  "\<exists>h'. render_legacy_scene flat_sines (Some (overlay_context demo_canvas 0 180 99)) 4 demo_heap = Some h' \<and>
     (\<forall>a. length (h' a) = length (demo_heap a))"
proof -
  have "sine_bounded flat_sines" by (rule flat_sines_bounded)
  from overlay_stays_in_canvas [OF this _ _ demo_canvas_ok, of 4 0 180 99] show ?thesis by auto
qed

end
