(* ===== verification/Scene_Registry.thy ===== *)
theory Scene_Registry
  imports Legacy_Scenes
begin

text \<open>
  The scene registry (\<^verbatim>\<open>cart/src/scenes_builtin.c\<close>, \<^verbatim>\<open>cart/include/cart/scene.h\<close>): the table of
  the six built-in scenes and its lookups. A returned pointer into the table is the entry itself,
  NULL is \<open>None\<close>; the render function of an entry is a function of the sine table and the
  render context.
\<close>

type_synonym cart_scene_render_fn = "sine_table \<Rightarrow> cart_scene_render_context option \<Rightarrow> draw"

record cart_scene =
  scene_id :: u32
  display_name :: string
  preferred_width :: size_t
  preferred_height :: size_t
  capabilities :: u32
  render :: "cart_scene_render_fn option"

abbreviation (input) CART_SCENE_CAP_2D :: u32 where "CART_SCENE_CAP_2D \<equiv> 1"

definition cart_legacy_scene_candy :: cart_scene_render_fn where
  "cart_legacy_scene_candy sines context = render_legacy_scene sines context 0"

definition cart_legacy_scene_girl_mode :: cart_scene_render_fn where
  "cart_legacy_scene_girl_mode sines context = render_legacy_scene sines context 1"

definition cart_legacy_scene_bubblegum :: cart_scene_render_fn where
  "cart_legacy_scene_bubblegum sines context = render_legacy_scene sines context 2"

definition cart_legacy_scene_butterfly_riot :: cart_scene_render_fn where
  "cart_legacy_scene_butterfly_riot sines context = render_legacy_scene sines context 3"

definition cart_legacy_scene_hyperdrive :: cart_scene_render_fn where
  "cart_legacy_scene_hyperdrive sines context = render_legacy_scene sines context 4"

definition cart_legacy_scene_too_much :: cart_scene_render_fn where
  "cart_legacy_scene_too_much sines context = render_legacy_scene sines context 5"

definition builtin_scene :: "u32 \<Rightarrow> string \<Rightarrow> cart_scene_render_fn \<Rightarrow> cart_scene" where
  "builtin_scene i name f =
     \<lparr>scene_id = i, display_name = name, preferred_width = 320, preferred_height = 180,
      capabilities = CART_SCENE_CAP_2D, render = Some f\<rparr>"

definition builtin_scenes :: "cart_scene list" where
  "builtin_scenes =
     [builtin_scene 0 ''Candy Vortex'' cart_legacy_scene_candy,
      builtin_scene 1 ''Girl Mode'' cart_legacy_scene_girl_mode,
      builtin_scene 2 ''Bubblegum Overdrive'' cart_legacy_scene_bubblegum,
      builtin_scene 3 ''Butterfly Riot'' cart_legacy_scene_butterfly_riot,
      builtin_scene 4 ''She Her Hyperdrive'' cart_legacy_scene_hyperdrive,
      builtin_scene 5 ''Too Much Is Enough'' cart_legacy_scene_too_much]"

definition cart_scene_count :: size_t where
  "cart_scene_count = of_nat (length builtin_scenes)"

definition cart_scene_at :: "size_t \<Rightarrow> cart_scene option" where
  "cart_scene_at index = (if index \<ge> cart_scene_count then None else Some (builtin_scenes ! unat index))"

text \<open>The scan shared by the lookups: the index of the first entry with the id.\<close>

fun scan_id :: "cart_scene list \<Rightarrow> u32 \<Rightarrow> size_t \<Rightarrow> size_t option" where
  "scan_id [] i index = None"
| "scan_id (s # ss) i index = (if scene_id s = i then Some index else scan_id ss i (index + 1))"

definition cart_scene_find :: "u32 \<Rightarrow> cart_scene option" where
  "cart_scene_find i = map_option (\<lambda>index. builtin_scenes ! unat index) (scan_id builtin_scenes i 0)"

definition cart_scene_next :: "u32 \<Rightarrow> cart_scene option" where
  "cart_scene_next i = map_option (\<lambda>index. builtin_scenes ! unat ((index + 1) mod cart_scene_count))
     (scan_id builtin_scenes i 0)"

definition cart_scene_previous :: "u32 \<Rightarrow> cart_scene option" where
  "cart_scene_previous i =
     map_option (\<lambda>index. builtin_scenes ! unat ((index + cart_scene_count - 1) mod cart_scene_count))
       (scan_id builtin_scenes i 0)"

lemma scene_count [simp]: "cart_scene_count = 6"
  by (simp add: cart_scene_count_def builtin_scenes_def)

lemma below_six: "i < (6 :: u32) \<longleftrightarrow> i = 0 \<or> i = 1 \<or> i = 2 \<or> i = 3 \<or> i = 4 \<or> i = 5"
proof
  assume "i < 6"
  then have "unat i < 6" by (simp add: word_less_nat_alt)
  then have "unat i = 0 \<or> unat i = 1 \<or> unat i = 2 \<or> unat i = 3 \<or> unat i = 4 \<or> unat i = 5" by linarith
  then show "i = 0 \<or> i = 1 \<or> i = 2 \<or> i = 3 \<or> i = 4 \<or> i = 5" by (simp add: word_unat_eq_iff)
qed auto

lemma mod_six: "i mod 6 < (6 :: u32)"
  by (rule word_mod_less) simp

lemma scan_id_builtin: "scan_id builtin_scenes i 0 = (if i < 6 then Some i else None)"
  unfolding below_six by (auto simp: builtin_scenes_def builtin_scene_def)

lemma scene_at_below: "i < 6 \<Longrightarrow> cart_scene_at i = Some (builtin_scenes ! unat i)"
  by (simp add: cart_scene_at_def flip: not_less)

lemma scene_renders:
  assumes "i < 6"
  shows "\<exists>s. cart_scene_at i = Some s \<and> scene_id s = i \<and>
     render s = Some (\<lambda>sines ctx. render_legacy_scene sines ctx (uint i))"
proof -
  have "scene_id (builtin_scenes ! unat i) = i \<and>
      render (builtin_scenes ! unat i) = Some (\<lambda>sines ctx. render_legacy_scene sines ctx (uint i))"
    using assms unfolding below_six
    by (elim disjE) (simp_all add: builtin_scenes_def builtin_scene_def fun_eq_iff
      cart_legacy_scene_candy_def cart_legacy_scene_girl_mode_def cart_legacy_scene_bubblegum_def
      cart_legacy_scene_butterfly_riot_def cart_legacy_scene_hyperdrive_def
      cart_legacy_scene_too_much_def)
  with scene_at_below [OF assms] show ?thesis by blast
qed

lemma scene_at_id: "cart_scene_at i = Some s \<Longrightarrow> scene_id s = i \<and> i < 6"
proof -
  assume a: "cart_scene_at i = Some s"
  then have "i < 6" by (auto simp: cart_scene_at_def not_le split: if_splits)
  with scene_renders [of i] a show ?thesis by auto
qed

lemma lookups_as_at:
  assumes "i < 6"
  shows "cart_scene_find i = cart_scene_at i" "cart_scene_next i = cart_scene_at ((i + 1) mod 6)"
    "cart_scene_previous i = cart_scene_at ((i + 5) mod 6)"
  using assms
  by (simp_all add: cart_scene_find_def cart_scene_next_def cart_scene_previous_def
      scan_id_builtin scene_at_below mod_six add.commute)

text \<open>
  The registry is a ring of six scenes: exactly the ids below six are found, the entry
  found under an id carries that id and renders the legacy scene of that number, and stepping
  forward and then back, or back and then forward, returns to the same entry.
\<close>

theorem registry_ring:
  "(i < 6 \<longrightarrow> (\<exists>s n p. cart_scene_find i = Some s \<and> cart_scene_at i = Some s \<and> scene_id s = i \<and>
      render s = Some (\<lambda>sines ctx. render_legacy_scene sines ctx (uint i)) \<and>
      cart_scene_next i = Some n \<and> scene_id n = (i + 1) mod 6 \<and>
      cart_scene_previous (scene_id n) = Some s \<and>
      cart_scene_previous i = Some p \<and> cart_scene_next (scene_id p) = Some s))
   \<and> (6 \<le> i \<longrightarrow> cart_scene_find i = None \<and> cart_scene_next i = None \<and> cart_scene_previous i = None)"
proof (intro conjI impI)
  assume i: "i < 6"
  have m: "(i + 1) mod 6 < 6" "(i + 5) mod 6 < 6" "((i + 1) mod 6 + 5) mod 6 = i" "((i + 5) mod 6 + 1) mod 6 = i"
    using i unfolding below_six by (elim disjE; simp)+
  from scene_renders [OF i] scene_renders [OF m(1)] scene_renders [OF m(2)]
  obtain s n p where "cart_scene_at i = Some s" "scene_id s = i"
    "render s = Some (\<lambda>sines ctx. render_legacy_scene sines ctx (uint i))"
    "cart_scene_at ((i + 1) mod 6) = Some n" "scene_id n = (i + 1) mod 6"
    "cart_scene_at ((i + 5) mod 6) = Some p" "scene_id p = (i + 5) mod 6" by blast
  with lookups_as_at [OF i] lookups_as_at [OF m(1)] lookups_as_at [OF m(2)] m
  show "\<exists>s n p. cart_scene_find i = Some s \<and> cart_scene_at i = Some s \<and> scene_id s = i \<and>
      render s = Some (\<lambda>sines ctx. render_legacy_scene sines ctx (uint i)) \<and>
      cart_scene_next i = Some n \<and> scene_id n = (i + 1) mod 6 \<and>
      cart_scene_previous (scene_id n) = Some s \<and>
      cart_scene_previous i = Some p \<and> cart_scene_next (scene_id p) = Some s"
    by simp
next
  assume "6 \<le> i"
  then show "cart_scene_find i = None" "cart_scene_next i = None" "cart_scene_previous i = None"
    by (simp_all add: cart_scene_find_def cart_scene_next_def cart_scene_previous_def
        scan_id_builtin flip: not_less)
qed

theorem registry_ring_witness:
  "\<exists>n s. cart_scene_next 5 = Some n \<and> scene_id n = 0 \<and> cart_scene_previous 0 = Some s \<and> scene_id s = 5
    \<and> cart_scene_find 9 = None"
  using registry_ring [of 5] registry_ring [of 9] by auto

end
