(* ===== verification/Worker_Pool.thy ===== *)
theory Worker_Pool
  imports Cart_Prelude "HOL-Library.Multiset"
begin

text \<open>
  The persistent render pool (\<^verbatim>\<open>cart/src/worker_pool.c\<close>). The threads are modelled by their
  program points and an interleaving step relation: a step of a worker is one of the
  straight-line pieces of \<^verbatim>\<open>worker_main\<close>, a step of the calling thread one of the pieces of
  \<^verbatim>\<open>cart_worker_pool_init\<close>, \<^verbatim>\<open>cart_worker_pool_dispatch\<close> or \<^verbatim>\<open>cart_worker_pool_shutdown\<close>. A
  critical section under the startup mutex is one step, a condition wait is the guard of the step
  after it. A thread arriving at a barrier blocks; the arrival that completes the barrier's count
  unblocks all of them at once. What a job does to memory is a partial function on the memory
  state, and a job runs in one step: the jobs of one dispatch work on disjoint rows, see the
  locale \<open>band_job\<close>.
\<close>

abbreviation (input) CART_WORKER_POOL_MAX :: int where "CART_WORKER_POOL_MAX \<equiv> 8"

section \<open>State\<close>

type_synonym ('s, 'w) job_fn = "'s \<Rightarrow> int \<Rightarrow> int \<Rightarrow> u64 \<Rightarrow> 'w \<Rightarrow> 'w option"

record ('s, 'w) cart_worker_pool =
  active :: bool
  worker_count :: int
  rows :: int
  slots :: "'s list"
  job :: "('s, 'w) job_fn option"
  generation :: u64
  startup_ready :: bool
  startup_released :: int
  shutting_down :: bool

text \<open>Program points of a worker, in the order of \<^verbatim>\<open>worker_main\<close>.\<close>

datatype worker_pc =
    W_None       \<comment> \<open>no thread\<close>
  | W_Gate       \<comment> \<open>at the startup gate\<close>
  | W_AtStart    \<comment> \<open>about to wait at the start barrier\<close>
  | W_StartWait
  | W_Woken      \<comment> \<open>through the start barrier, about to test the shutdown flag\<close>
  | W_Run        \<comment> \<open>about to run its band\<close>
  | W_AtStop     \<comment> \<open>about to wait at the stop barrier\<close>
  | W_StopWait
  | W_Exited

datatype main_pc =
    M_Create nat | M_Released                              \<comment> \<open>init\<close>
  | M_FailJoin nat nat | M_Failed                          \<comment> \<open>init after a failed create\<close>
  | M_Idle                                                 \<comment> \<open>no call in progress\<close>
  | M_AtStart | M_StartWait | M_AtStop | M_StopWait        \<comment> \<open>dispatch\<close>
  | M_ShutAtStart | M_ShutWait | M_Join nat | M_Down       \<comment> \<open>shutdown\<close>

datatype sync_object = Startup_Mutex | Startup_Cond | Start_Barrier | Stop_Barrier

text \<open>
  The system: the shared structure, the live synchronisation objects, the threads and the memory
  the jobs work on. \<open>ran\<close> and \<open>mem0\<close> are history: the workers whose band of the current dispatch
  has run, in order, and the memory when the dispatch was published.
\<close>

record ('s, 'w) pool_sys =
  pool :: "('s, 'w) cart_worker_pool"
  objects :: "sync_object set"
  workers :: "worker_pc list"
  main :: main_pc
  mem :: 'w
  ran :: "nat list"
  mem0 :: 'w

section \<open>Bands\<close>

definition worker_band :: "('s, 'w) cart_worker_pool \<Rightarrow> int \<Rightarrow> (int \<times> int) option" where
  "worker_band p worker_index = do {
     a \<leftarrow> i32 (worker_index * rows p);
     b \<leftarrow> i32 ((worker_index + 1) * rows p);
     Some (a sdiv worker_count p, b sdiv worker_count p)
   }"

definition run_band :: "('s, 'w) cart_worker_pool \<Rightarrow> nat \<Rightarrow> 'w \<Rightarrow> 'w option" where
  "run_band p i m = do {
     (a, b) \<leftarrow> worker_band p (int i);
     f \<leftarrow> job p;
     f (slots p ! i) a b (generation p) m
   }"

section \<open>Barriers\<close>

text \<open>
  Both barriers are created with the count \<^verbatim>\<open>worker_count + 1\<close>. \<open>pass_start\<close> and \<open>pass_stop\<close>
  are applied after a thread has arrived: if the count is reached, every blocked thread goes on.
\<close>

definition start_waiting :: "('s, 'w) pool_sys \<Rightarrow> nat" where
  "start_waiting s = length (filter (\<lambda>p. p = W_StartWait) (workers s)) +
     (if main s = M_StartWait \<or> main s = M_ShutWait then 1 else 0)"

definition stop_waiting :: "('s, 'w) pool_sys \<Rightarrow> nat" where
  "stop_waiting s = length (filter (\<lambda>p. p = W_StopWait) (workers s)) +
     (if main s = M_StopWait then 1 else 0)"

definition pass_start :: "('s, 'w) pool_sys \<Rightarrow> ('s, 'w) pool_sys" where
  "pass_start s =
     (if int (start_waiting s) < worker_count (pool s) + 1 then s
      else s\<lparr>workers := map (\<lambda>p. if p = W_StartWait then W_Woken else p) (workers s),
             main := (if main s = M_StartWait then M_AtStop
                      else if main s = M_ShutWait then M_Join 0 else main s)\<rparr>)"

definition pass_stop :: "('s, 'w) pool_sys \<Rightarrow> ('s, 'w) pool_sys" where
  "pass_stop s =
     (if int (stop_waiting s) < worker_count (pool s) + 1 then s
      else s\<lparr>workers := map (\<lambda>p. if p = W_StopWait then W_AtStart else p) (workers s),
             main := (if main s = M_StopWait then M_Idle else main s)\<rparr>)"

section \<open>Initialisation\<close>

definition fresh_pool :: "int \<Rightarrow> int \<Rightarrow> ('s, 'w) cart_worker_pool" where
  "fresh_pool n r = \<lparr>active = False, worker_count = n, rows = r, slots = [], job = None,
     generation = 0, startup_ready = False, startup_released = 0, shutting_down = False\<rparr>"

text \<open>
  Creation of the four synchronisation objects in order; \<open>ok\<close> says which of the creations
  succeed. A failure destroys what exists. The result is the status and the live objects.
\<close>

definition create_objects :: "(sync_object \<Rightarrow> bool) \<Rightarrow> bool \<times> sync_object set" where
  "create_objects ok =
     (if \<not> ok Startup_Mutex then (False, {})
      else let live = {Startup_Mutex}
        in if \<not> ok Startup_Cond then (False, live - {Startup_Mutex})
      else let live = insert Startup_Cond live
        in if \<not> ok Start_Barrier then (False, live - {Startup_Cond} - {Startup_Mutex})
      else let live = insert Start_Barrier live
        in if \<not> ok Stop_Barrier
           then (False, live - {Start_Barrier} - {Startup_Cond} - {Startup_Mutex})
      else (True, insert Stop_Barrier live))"

text \<open>
  \<^verbatim>\<open>cart_worker_pool_init\<close> up to the loop that creates the threads: a status at once
  (\<open>Inl\<close>, -1 for a refused call) or the system in which the calling thread goes on.
\<close>

definition cart_worker_pool_init ::
    "bool \<Rightarrow> int \<Rightarrow> int \<Rightarrow> (sync_object \<Rightarrow> bool) \<Rightarrow> 'w \<Rightarrow> int + ('s, 'w) pool_sys" where
  "cart_worker_pool_init pool_is_null n r ok m =
     (if pool_is_null \<or> n < 0 \<or> n > CART_WORKER_POOL_MAX \<or> r \<le> 0 then Inl (- 1)
      else if n = 0
      then Inr \<lparr>pool = (fresh_pool n r)\<lparr>active := True\<rparr>, objects = {}, workers = [], main = M_Idle,
                mem = m, ran = [], mem0 = m\<rparr>
      else case create_objects ok of
        (False, live) \<Rightarrow>
          Inr \<lparr>pool = fresh_pool n r, objects = live, workers = replicate (nat n) W_None,
               main = M_Failed, mem = m, ran = [], mem0 = m\<rparr>
      | (True, live) \<Rightarrow>
          Inr \<lparr>pool = fresh_pool n r, objects = live, workers = replicate (nat n) W_None,
               main = M_Create 0, mem = m, ran = [], mem0 = m\<rparr>)"

section \<open>Steps\<close>

abbreviation set_worker :: "nat \<Rightarrow> worker_pc \<Rightarrow> ('s, 'w) pool_sys \<Rightarrow> ('s, 'w) pool_sys" where
  "set_worker i p s \<equiv> s\<lparr>workers := (workers s)[i := p]\<rparr>"

abbreviation set_main :: "main_pc \<Rightarrow> ('s, 'w) pool_sys \<Rightarrow> ('s, 'w) pool_sys" where
  "set_main m s \<equiv> s\<lparr>main := m\<rparr>"

definition at :: "('s, 'w) pool_sys \<Rightarrow> nat \<Rightarrow> worker_pc \<Rightarrow> bool" where
  "at s i p \<longleftrightarrow> i < length (workers s) \<and> workers s ! i = p"

text \<open>The steps of \<^verbatim>\<open>worker_main\<close>.\<close>

inductive worker_step :: "('s, 'w) pool_sys \<Rightarrow> ('s, 'w) pool_sys \<Rightarrow> bool" where
  gate_exit: "at s i W_Gate \<Longrightarrow> startup_ready (pool s) \<Longrightarrow> shutting_down (pool s) \<Longrightarrow>
    worker_step s (set_worker i W_Exited s)"
| gate_pass: "at s i W_Gate \<Longrightarrow> startup_ready (pool s) \<Longrightarrow> \<not> shutting_down (pool s) \<Longrightarrow>
    worker_step s ((set_worker i W_AtStart s)
      \<lparr>pool := (pool s)\<lparr>startup_released := startup_released (pool s) + 1\<rparr>\<rparr>)"
| start_wait: "at s i W_AtStart \<Longrightarrow> worker_step s (pass_start (set_worker i W_StartWait s))"
| woken_exit: "at s i W_Woken \<Longrightarrow> shutting_down (pool s) \<Longrightarrow> worker_step s (set_worker i W_Exited s)"
| woken_run: "at s i W_Woken \<Longrightarrow> \<not> shutting_down (pool s) \<Longrightarrow> worker_step s (set_worker i W_Run s)"
| run_job: "at s i W_Run \<Longrightarrow> run_band (pool s) i (mem s) = Some m \<Longrightarrow>
    worker_step s ((set_worker i W_AtStop s)\<lparr>mem := m, ran := ran s @ [i]\<rparr>)"
| stop_wait: "at s i W_AtStop \<Longrightarrow> worker_step s (pass_stop (set_worker i W_StopWait s))"

text \<open>The steps of the calling thread inside a call.\<close>

inductive main_step :: "('s, 'w) pool_sys \<Rightarrow> ('s, 'w) pool_sys \<Rightarrow> bool" where
  create_ok: "main s = M_Create k \<Longrightarrow> int k < worker_count (pool s) \<Longrightarrow>
    main_step s (set_main (M_Create (Suc k)) (set_worker k W_Gate s))"
| create_fail: "main s = M_Create k \<Longrightarrow> int k < worker_count (pool s) \<Longrightarrow>
    main_step s ((set_main (M_FailJoin 0 k) s)
      \<lparr>pool := (pool s)\<lparr>shutting_down := True, startup_ready := True\<rparr>\<rparr>)"
| fail_join: "main s = M_FailJoin j k \<Longrightarrow> j < k \<Longrightarrow> at s j W_Exited \<Longrightarrow>
    main_step s (set_main (M_FailJoin (Suc j) k) s)"
| fail_done: "main s = M_FailJoin k k \<Longrightarrow>
    main_step s ((set_main M_Failed s)\<lparr>objects := {},
      pool := (pool s)\<lparr>worker_count := 0, rows := 0\<rparr>\<rparr>)"
| open_gate: "main s = M_Create k \<Longrightarrow> worker_count (pool s) \<le> int k \<Longrightarrow>
    main_step s ((set_main M_Released s)\<lparr>pool := (pool s)\<lparr>startup_ready := True\<rparr>\<rparr>)"
| all_released: "main s = M_Released \<Longrightarrow> worker_count (pool s) \<le> startup_released (pool s) \<Longrightarrow>
    main_step s ((set_main M_Idle s)\<lparr>pool := (pool s)\<lparr>active := True\<rparr>\<rparr>)"
| dispatch_start: "main s = M_AtStart \<Longrightarrow> main_step s (pass_start (set_main M_StartWait s))"
| dispatch_stop: "main s = M_AtStop \<Longrightarrow> main_step s (pass_stop (set_main M_StopWait s))"
| shutdown_start: "main s = M_ShutAtStart \<Longrightarrow> main_step s (pass_start (set_main M_ShutWait s))"
| shutdown_join: "main s = M_Join k \<Longrightarrow> int k < worker_count (pool s) \<Longrightarrow> at s k W_Exited \<Longrightarrow>
    main_step s (set_main (M_Join (Suc k)) s)"
| shutdown_done: "main s = M_Join k \<Longrightarrow> worker_count (pool s) \<le> int k \<Longrightarrow>
    main_step s ((set_main M_Down s)\<lparr>objects := {},
      pool := (pool s)\<lparr>worker_count := 0, rows := 0\<rparr>\<rparr>)"

text \<open>
  The calls, when none is in progress. A dispatch that passes the guards of
  \<^verbatim>\<open>cart_worker_pool_dispatch\<close> runs the job inline or publishes it; a call the guards refuse
  (use after shutdown, NULL arguments) returns -1 and changes nothing, so it is no step. The
  slots are \<^verbatim>\<open>worker_count\<close> pointers, as the interface requires.
\<close>

inductive dispatch_call ::
    "('s, 'w) job_fn \<Rightarrow> 's list \<Rightarrow> u64 \<Rightarrow> ('s, 'w) pool_sys \<Rightarrow> ('s, 'w) pool_sys \<Rightarrow> bool" where
  dispatch_inline: "main s = M_Idle \<Longrightarrow> active (pool s) \<Longrightarrow> worker_count (pool s) = 0 \<Longrightarrow>
    sl \<noteq> [] \<Longrightarrow> f (sl ! 0) 0 (rows (pool s)) g (mem s) = Some m \<Longrightarrow>
    dispatch_call f sl g s (s\<lparr>mem := m, ran := [], mem0 := mem s\<rparr>)"
| dispatch_publish: "main s = M_Idle \<Longrightarrow> active (pool s) \<Longrightarrow> worker_count (pool s) \<noteq> 0 \<Longrightarrow>
    worker_count (pool s) \<le> int (length sl) \<Longrightarrow>
    dispatch_call f sl g s ((set_main M_AtStart s)\<lparr>pool := (pool s)\<lparr>job := Some f,
      slots := take (nat (worker_count (pool s))) sl, generation := g\<rparr>, ran := [], mem0 := mem s\<rparr>)"

inductive shutdown_call :: "('s, 'w) pool_sys \<Rightarrow> ('s, 'w) pool_sys \<Rightarrow> bool" where
  shutdown_inline: "main s = M_Idle \<Longrightarrow> active (pool s) \<Longrightarrow> worker_count (pool s) = 0 \<Longrightarrow>
    shutdown_call s ((set_main M_Down s)\<lparr>pool := (pool s)\<lparr>active := False\<rparr>\<rparr>)"
| shutdown_flag: "main s = M_Idle \<Longrightarrow> active (pool s) \<Longrightarrow> worker_count (pool s) \<noteq> 0 \<Longrightarrow>
    shutdown_call s ((set_main M_ShutAtStart s)
      \<lparr>pool := (pool s)\<lparr>active := False, shutting_down := True\<rparr>\<rparr>)"

definition internal_step :: "('s, 'w) pool_sys \<Rightarrow> ('s, 'w) pool_sys \<Rightarrow> bool" where
  "internal_step s s' \<longleftrightarrow> worker_step s s' \<or> main_step s s'"

definition pool_step :: "('s, 'w) pool_sys \<Rightarrow> ('s, 'w) pool_sys \<Rightarrow> bool" where
  "pool_step s s' \<longleftrightarrow> internal_step s s' \<or> (\<exists>f sl g. dispatch_call f sl g s s') \<or> shutdown_call s s'"

inductive pool_reachable :: "('s, 'w) pool_sys \<Rightarrow> bool" where
  start: "cart_worker_pool_init False n r ok m = Inr s \<Longrightarrow> pool_reachable s"
| step: "pool_reachable s \<Longrightarrow> pool_step s s' \<Longrightarrow> pool_reachable s'"

section \<open>Invariant\<close>

text \<open>
  Where the workers can be while the calling thread is at a given point. In the two middle points
  of a dispatch, \<open>ran\<close> holds exactly the workers that have finished their band, and the memory is
  the initial memory with those bands run in that order.
\<close>

definition bands_done :: "('s, 'w) pool_sys \<Rightarrow> nat set \<Rightarrow> bool" where
  "bands_done s A \<longleftrightarrow> distinct (ran s) \<and> set (ran s) = A \<and>
     (\<exists>f. job (pool s) = Some f) \<and> length (slots (pool s)) = length (workers s) \<and>
     foldl (\<lambda>m i. Option.bind m (run_band (pool s) i)) (Some (mem0 s)) (ran s) = Some (mem s)"

definition finished :: "('s, 'w) pool_sys \<Rightarrow> nat set" where
  "finished s = {i. i < length (workers s) \<and> workers s ! i \<in> {W_AtStop, W_StopWait}}"

definition published :: "('s, 'w) pool_sys \<Rightarrow> bool" where
  "published s \<longleftrightarrow> ran s = [] \<and> mem0 s = mem s \<and> (\<exists>f. job (pool s) = Some f) \<and>
     length (slots (pool s)) = length (workers s)"

definition main_inv :: "('s, 'w) pool_sys \<Rightarrow> bool" where
  "main_inv s = (let ws = workers s; p = pool s in
     case main s of
       M_Create k \<Rightarrow> k \<le> length ws \<and> \<not> startup_ready p \<and> \<not> shutting_down p \<and> \<not> active p \<and>
         startup_released p = 0 \<and> job p = None \<and>
         (\<forall>i < length ws. ws ! i = (if i < k then W_Gate else W_None))
     | M_Released \<Rightarrow> startup_ready p \<and> \<not> shutting_down p \<and> \<not> active p \<and>
         job p = None \<and> set ws \<subseteq> {W_Gate, W_AtStart, W_StartWait} \<and>
         startup_released p = int (length (filter (\<lambda>q. q \<noteq> W_Gate) ws))
     | M_FailJoin j k \<Rightarrow> j \<le> k \<and> k < length ws \<and> startup_ready p \<and> shutting_down p \<and> \<not> active p \<and>
         (\<forall>i < j. ws ! i = W_Exited) \<and> (\<forall>i < k. ws ! i \<in> {W_Gate, W_Exited}) \<and>
         (\<forall>i < length ws. k \<le> i \<longrightarrow> ws ! i = W_None)
     | M_Failed \<Rightarrow> set ws \<subseteq> {W_None, W_Exited} \<and> \<not> active p \<and> objects s = {}
     | M_Idle \<Rightarrow> set ws \<subseteq> {W_AtStart, W_StartWait} \<and> active p \<and> \<not> shutting_down p \<and>
         (job p = None \<or> bands_done s {..<length ws})
     | M_AtStart \<Rightarrow> set ws \<subseteq> {W_AtStart, W_StartWait} \<and> active p \<and> \<not> shutting_down p \<and> published s
     | M_StartWait \<Rightarrow> set ws \<subseteq> {W_AtStart, W_StartWait} \<and> W_AtStart \<in> set ws \<and> active p \<and>
         \<not> shutting_down p \<and> published s
     | M_AtStop \<Rightarrow> set ws \<subseteq> {W_Woken, W_Run, W_AtStop, W_StopWait} \<and> active p \<and>
         \<not> shutting_down p \<and> bands_done s (finished s)
     | M_StopWait \<Rightarrow> set ws \<subseteq> {W_Woken, W_Run, W_AtStop, W_StopWait} \<and> \<not> set ws \<subseteq> {W_StopWait} \<and>
         active p \<and> \<not> shutting_down p \<and> bands_done s (finished s)
     | M_ShutAtStart \<Rightarrow> set ws \<subseteq> {W_AtStart, W_StartWait} \<and> \<not> active p \<and> shutting_down p
     | M_ShutWait \<Rightarrow> set ws \<subseteq> {W_AtStart, W_StartWait} \<and> W_AtStart \<in> set ws \<and>
         \<not> active p \<and> shutting_down p
     | M_Join k \<Rightarrow> k \<le> length ws \<and> set ws \<subseteq> {W_Woken, W_Exited} \<and> (\<forall>i < k. ws ! i = W_Exited) \<and>
         \<not> active p \<and> shutting_down p
     | M_Down \<Rightarrow> set ws \<subseteq> {W_Exited} \<and> \<not> active p \<and> objects s = {})"

definition pool_inv :: "('s, 'w) pool_sys \<Rightarrow> bool" where
  "pool_inv s \<longleftrightarrow> main_inv s \<and>
     (main s \<noteq> M_Failed \<and> main s \<noteq> M_Down \<longrightarrow>
        worker_count (pool s) = int (length (workers s)) \<and> 0 < rows (pool s)) \<and>
     (main s \<noteq> M_Idle \<and> main s \<noteq> M_Down \<longrightarrow> workers s \<noteq> []) \<and> length (workers s) \<le> 8 \<and>
     (workers s = [] \<longrightarrow> objects s = {} \<and> job (pool s) = None)"

lemma filter_full: "length (filter P xs) = length xs \<longleftrightarrow> (\<forall>x\<in>set xs. P x)"
  by (metis filter_True filter_id_conv length_filter_less less_irrefl)

lemma blocked_count:
  "int (length (filter P xs) + (if b then 1 else 0)) < int (length xs) + 1 \<longleftrightarrow>
   \<not> ((\<forall>x\<in>set xs. P x) \<and> b)"
proof -
  have "length (filter P xs) \<le> length xs" by (rule length_filter_le)
  moreover have "length (filter P xs) = length xs \<longleftrightarrow> (\<forall>x\<in>set xs. P x)" by (rule filter_full)
  ultimately show ?thesis by (cases b) (auto simp: le_less)
qed

lemma start_full:
  "int (start_waiting s) < int (length (workers s)) + 1 \<longleftrightarrow>
   \<not> (set (workers s) \<subseteq> {W_StartWait} \<and> (main s = M_StartWait \<or> main s = M_ShutWait))"
  unfolding start_waiting_def blocked_count by auto

lemma stop_full:
  "int (stop_waiting s) < int (length (workers s)) + 1 \<longleftrightarrow>
   \<not> (set (workers s) \<subseteq> {W_StopWait} \<and> main s = M_StopWait)"
  unfolding stop_waiting_def blocked_count by auto

text \<open>What the passage through a barrier does, on a system whose count is its number of workers.\<close>

lemma pass_start_eq:
  assumes "worker_count (pool s) = int (length (workers s))"
  shows "pass_start s =
    (if set (workers s) \<subseteq> {W_StartWait} \<and> (main s = M_StartWait \<or> main s = M_ShutWait)
     then s\<lparr>workers := replicate (length (workers s)) W_Woken,
            main := (if main s = M_StartWait then M_AtStop else M_Join 0)\<rparr>
     else s)"
proof -
  have "map (\<lambda>p. if p = W_StartWait then W_Woken else p) (workers s) =
      replicate (length (workers s)) W_Woken" if "set (workers s) \<subseteq> {W_StartWait}"
    using that by (intro replicate_eqI) auto
  then show ?thesis unfolding pass_start_def assms start_full by auto
qed

lemma pass_stop_eq:
  assumes "worker_count (pool s) = int (length (workers s))"
  shows "pass_stop s =
    (if set (workers s) \<subseteq> {W_StopWait} \<and> main s = M_StopWait
     then s\<lparr>workers := replicate (length (workers s)) W_AtStart, main := M_Idle\<rparr>
     else s)"
proof -
  have "map (\<lambda>p. if p = W_StopWait then W_AtStart else p) (workers s) =
      replicate (length (workers s)) W_AtStart" if "set (workers s) \<subseteq> {W_StopWait}"
    using that by (intro replicate_eqI) auto
  then show ?thesis unfolding pass_stop_def assms stop_full by auto
qed

text \<open>Fields a step that only moves a program point leaves alone.\<close>

lemma bands_done_simps [simp]:
  "bands_done (s\<lparr>main := m\<rparr>) A = bands_done s A"
  "length ws = length (workers s) \<Longrightarrow> bands_done (s\<lparr>workers := ws\<rparr>) A = bands_done s A"
  "length ws = length (workers s) \<Longrightarrow> bands_done (s\<lparr>workers := ws, main := m\<rparr>) A = bands_done s A"
  by (simp_all add: bands_done_def)

lemma published_simps [simp]:
  "published (s\<lparr>main := m\<rparr>) = published s"
  "length ws = length (workers s) \<Longrightarrow> published (s\<lparr>workers := ws\<rparr>) = published s"
  "length ws = length (workers s) \<Longrightarrow> published (s\<lparr>workers := ws, main := m\<rparr>) = published s"
  by (simp_all add: published_def)

lemma finished_update:
  "i < length (workers s) \<Longrightarrow> finished (set_worker i p s) =
     (if p \<in> {W_AtStop, W_StopWait} then insert i (finished s) else finished s - {i})"
  by (auto simp: finished_def nth_list_update)

lemma published_done: "published s \<Longrightarrow> bands_done s {}"
  by (simp add: published_def bands_done_def)

section \<open>Every step keeps the invariant\<close>

lemma at_mem: "at s i p \<Longrightarrow> p \<in> set (workers s)"
  by (auto simp: at_def)

lemma inv_count:
  "pool_inv s \<Longrightarrow> main s \<noteq> M_Failed \<Longrightarrow> main s \<noteq> M_Down \<Longrightarrow>
   worker_count (pool s) = int (length (workers s))"
  by (simp add: pool_inv_def)

lemma set_update_in: "set xs \<subseteq> A \<Longrightarrow> x \<in> A \<Longrightarrow> set (xs[i := x]) \<subseteq> A"
  by (metis insert_subset order_trans set_update_subset_insert)

lemma count_update:
  assumes "i < length xs"
  shows "length (filter P (xs[i := x])) + (if P (xs ! i) then 1 else 0) =
    length (filter P xs) + (if P x then 1 else 0)"
proof -
  have "filter P xs = filter P (take i xs @ xs ! i # drop (Suc i) xs)"
    by (rule arg_cong [OF id_take_nth_drop [OF assms]])
  then have "length (filter P xs) = length (filter P (take i xs)) + (if P (xs ! i) then 1 else 0) +
      length (filter P (drop (Suc i) xs))"
    unfolding filter_append length_append by simp
  moreover have "xs[i := x] = take i xs @ x # drop (Suc i) xs" using assms by (rule upd_conv_take_nth_drop)
  then have "length (filter P (xs[i := x])) = length (filter P (take i xs)) + (if P x then 1 else 0) +
      length (filter P (drop (Suc i) xs))" by simp
  ultimately show ?thesis by simp
qed

text \<open>Where the calling thread is, from where a worker is.\<close>

lemma main_of_worker:
  assumes "main_inv s" "at s i p"
  shows "case p of
      W_None \<Rightarrow> (\<exists>k. main s = M_Create k) \<or> (\<exists>j k. main s = M_FailJoin j k) \<or> main s = M_Failed
    | W_Gate \<Rightarrow> (\<exists>k. main s = M_Create k) \<or> main s = M_Released \<or> (\<exists>j k. main s = M_FailJoin j k)
    | W_Exited \<Rightarrow> (\<exists>j k. main s = M_FailJoin j k) \<or> main s = M_Failed \<or> (\<exists>k. main s = M_Join k) \<or> main s = M_Down
    | W_Woken \<Rightarrow> main s = M_AtStop \<or> main s = M_StopWait \<or> (\<exists>k. main s = M_Join k)
    | W_AtStart \<Rightarrow> main s \<in> {M_Released, M_Idle, M_AtStart, M_StartWait, M_ShutAtStart, M_ShutWait}
    | W_StartWait \<Rightarrow> main s \<in> {M_Released, M_Idle, M_AtStart, M_StartWait, M_ShutAtStart, M_ShutWait}
    | _ \<Rightarrow> main s = M_AtStop \<or> main s = M_StopWait"
proof -
  have m: "p \<in> set (workers s)" "i < length (workers s)" "workers s ! i = p"
    using assms(2) by (auto simp: at_def)
  have sub: "set (workers s) \<subseteq> A \<Longrightarrow> p \<in> A" for A using m(1) by blast
  show ?thesis
  proof (cases "main s")
    case (M_Create k)
    then have "p = W_Gate \<or> p = W_None" using assms(1) m by (auto simp: main_inv_def Let_def split: if_splits)
    then show ?thesis using M_Create by auto
  next
    case (M_FailJoin j k)
    then have "p \<in> {W_Gate, W_Exited, W_None}"
      using assms(1) m by (cases "i < k") (auto simp: main_inv_def Let_def)
    then show ?thesis using M_FailJoin by auto
  qed (use assms(1) in \<open>auto simp: main_inv_def Let_def dest!: sub\<close>)
qed

lemma inv_gate_exit:
  assumes "pool_inv s" "at s i W_Gate" "shutting_down (pool s)"
  shows "pool_inv (set_worker i W_Exited s)"
proof -
  have m: "main_inv s" using assms(1) by (simp add: pool_inv_def)
  then obtain j k where jk: "main s = M_FailJoin j k"
    using main_of_worker [OF m assms(2)] assms(3) by (auto simp: main_inv_def Let_def)
  moreover have "i < k"
    using m assms(2) jk by (cases "i < k") (auto simp: main_inv_def Let_def at_def)
  ultimately show ?thesis
    using assms by (auto simp: pool_inv_def main_inv_def Let_def at_def nth_list_update)
qed

lemma inv_gate_pass:
  assumes "pool_inv s" "at s i W_Gate" "startup_ready (pool s)" "\<not> shutting_down (pool s)"
  shows "pool_inv ((set_worker i W_AtStart s)
      \<lparr>pool := (pool s)\<lparr>startup_released := startup_released (pool s) + 1\<rparr>\<rparr>)"
proof -
  have m: "main_inv s" using assms(1) by (simp add: pool_inv_def)
  then have "main s = M_Released"
    using main_of_worker [OF m assms(2)] assms(3,4) by (auto simp: main_inv_def Let_def)
  moreover have "length (filter (\<lambda>q. q \<noteq> W_Gate) ((workers s)[i := W_AtStart])) =
      length (filter (\<lambda>q. q \<noteq> W_Gate) (workers s)) + 1"
    using assms(2) count_update [of i "workers s" "\<lambda>q. q \<noteq> W_Gate" W_AtStart] by (auto simp: at_def)
  ultimately show ?thesis
    using assms set_update_in [of "workers s" "{W_Gate, W_AtStart, W_StartWait}" W_AtStart i]
    by (simp add: pool_inv_def main_inv_def Let_def)
qed

lemma inv_start_wait:
  assumes inv: "pool_inv s" and a: "at s i W_AtStart"
  shows "pool_inv (pass_start (set_worker i W_StartWait s))"
proof -
  let ?s = "set_worker i W_StartWait s"
  have m: "main_inv s" using inv by (simp add: pool_inv_def)
  note ms = main_of_worker [OF m a, simplified]
  have "worker_count (pool ?s) = int (length (workers ?s))" using inv_count [OF inv] ms by auto
  note eq = pass_start_eq [OF this]
  have len: "i < length (workers s)" "workers s \<noteq> []" using a by (auto simp: at_def)
  have sub: "set ((workers s)[i := W_StartWait]) \<subseteq> {W_AtStart, W_StartWait}"
    if "set (workers s) \<subseteq> {W_AtStart, W_StartWait}" using that by (intro set_update_in) auto
  show ?thesis
  proof (cases "main s = M_Released")
    case True
    have "length (filter (\<lambda>q. q \<noteq> W_Gate) ((workers s)[i := W_StartWait])) =
        length (filter (\<lambda>q. q \<noteq> W_Gate) (workers s))"
      using a count_update [of i "workers s" "\<lambda>q. q \<noteq> W_Gate" W_StartWait] by (auto simp: at_def)
    then show ?thesis unfolding eq
      using True inv set_update_in [of "workers s" "{W_Gate, W_AtStart, W_StartWait}" W_StartWait i]
      by (simp add: pool_inv_def main_inv_def Let_def)
  next
    case False
    then have all: "set (workers s) \<subseteq> {W_AtStart, W_StartWait}"
      using ms m by (auto simp: main_inv_def Let_def)
    have nonempty: "W_AtStart \<in> set ((workers s)[i := W_StartWait])"
      if "\<not> set ((workers s)[i := W_StartWait]) \<subseteq> {W_StartWait}" using that sub [OF all] by auto
    have fin: "finished (s\<lparr>workers := replicate (length (workers s)) W_Woken, main := m'\<rparr>) = {}" for m'
      by (auto simp: finished_def)
    show ?thesis
    proof (cases "set ((workers s)[i := W_StartWait]) \<subseteq> {W_StartWait} \<and>
        (main s = M_StartWait \<or> main s = M_ShutWait)")
      case True
      then show ?thesis unfolding eq using inv fin published_done [of s]
        by (auto simp: pool_inv_def main_inv_def Let_def)
    next
      case F: False
      then have "main s = M_StartWait \<or> main s = M_ShutWait \<Longrightarrow> W_AtStart \<in> set ((workers s)[i := W_StartWait])"
        using nonempty by blast
      with F ms False show ?thesis unfolding eq using inv sub [OF all] len
        by (elim disjE) (simp_all add: pool_inv_def main_inv_def Let_def)
    qed
  qed
qed

lemma inv_woken_exit:
  assumes inv: "pool_inv s" and a: "at s i W_Woken" and sd: "shutting_down (pool s)"
  shows "pool_inv (set_worker i W_Exited s)"
proof -
  have m: "main_inv s" using inv by (simp add: pool_inv_def)
  then obtain k where k: "main s = M_Join k"
    using main_of_worker [OF m a] sd by (auto simp: main_inv_def Let_def)
  then show ?thesis
    using inv a set_update_in [of "workers s" "{W_Woken, W_Exited}" W_Exited i]
    by (auto simp: pool_inv_def main_inv_def Let_def at_def nth_list_update)
qed

lemma mid_inv:
  assumes "main s = M_AtStop \<or> main s = M_StopWait"
  shows "main_inv s \<longleftrightarrow> set (workers s) \<subseteq> {W_Woken, W_Run, W_AtStop, W_StopWait} \<and>
    active (pool s) \<and> \<not> shutting_down (pool s) \<and> bands_done s (finished s) \<and>
    (main s = M_StopWait \<longrightarrow> \<not> set (workers s) \<subseteq> {W_StopWait})"
  using assms by (elim disjE) (auto simp: main_inv_def Let_def)

lemma not_all_update:
  "i < length xs \<Longrightarrow> x \<noteq> y \<Longrightarrow> \<not> set (xs[i := x]) \<subseteq> {y}"
  by (metis set_update_memI singletonD subsetD)

lemma inv_woken_run:
  assumes inv: "pool_inv s" and a: "at s i W_Woken" and sd: "\<not> shutting_down (pool s)"
  shows "pool_inv (set_worker i W_Run s)"
proof -
  have m: "main_inv s" using inv by (simp add: pool_inv_def)
  then have mid: "main s = M_AtStop \<or> main s = M_StopWait"
    using main_of_worker [OF m a] sd by (auto simp: main_inv_def Let_def)
  have i: "i < length (workers s)" "workers s ! i = W_Woken" using a by (auto simp: at_def)
  then have "finished (set_worker i W_Run s) = finished s"
    by (auto simp: finished_def nth_list_update)
  with inv m mid i show ?thesis
    using set_update_in [of "workers s" "{W_Woken, W_Run, W_AtStop, W_StopWait}" W_Run i]
      not_all_update [of i "workers s" W_Run W_StopWait]
    by (auto simp: pool_inv_def mid_inv)
qed

lemma inv_run_job:
  assumes inv: "pool_inv s" and a: "at s i W_Run" and r: "run_band (pool s) i (mem s) = Some m'"
  shows "pool_inv ((set_worker i W_AtStop s)\<lparr>mem := m', ran := ran s @ [i]\<rparr>)"
proof -
  let ?s = "(set_worker i W_AtStop s)\<lparr>mem := m', ran := ran s @ [i]\<rparr>"
  have m: "main_inv s" using inv by (simp add: pool_inv_def)
  then have mid: "main s = M_AtStop \<or> main s = M_StopWait" using main_of_worker [OF m a] by simp
  have i: "i < length (workers s)" "workers s ! i = W_Run" using a by (auto simp: at_def)
  then have f: "finished ?s = insert i (finished s)" "i \<notin> finished s"
    by (auto simp: finished_def nth_list_update)
  have "bands_done s (finished s)" using m mid by (simp add: mid_inv)
  with f r have "bands_done ?s (finished ?s)" by (auto simp: bands_done_def)
  with inv m mid i show ?thesis
    using set_update_in [of "workers s" "{W_Woken, W_Run, W_AtStop, W_StopWait}" W_AtStop i]
      not_all_update [of i "workers s" W_AtStop W_StopWait]
    by (auto simp: pool_inv_def mid_inv)
qed

lemma finished_all: "set (workers s) \<subseteq> {W_StopWait} \<Longrightarrow> finished s = {..<length (workers s)}"
  unfolding finished_def using nth_mem by fastforce

lemma inv_stop_wait:
  assumes inv: "pool_inv s" and a: "at s i W_AtStop"
  shows "pool_inv (pass_stop (set_worker i W_StopWait s))"
proof -
  let ?s = "set_worker i W_StopWait s"
  have m: "main_inv s" using inv by (simp add: pool_inv_def)
  have mid: "main s = M_AtStop \<or> main s = M_StopWait" using main_of_worker [OF m a] by simp
  have "worker_count (pool ?s) = int (length (workers ?s))" using inv_count [OF inv] mid by auto
  note eq = pass_stop_eq [OF this]
  have i: "i < length (workers s)" "workers s ! i = W_AtStop" using a by (auto simp: at_def)
  then have f: "finished ?s = finished s" by (auto simp: finished_def nth_list_update)
  have d: "bands_done s (finished s)" using m mid by (simp add: mid_inv)
  show ?thesis
  proof (cases "set (workers ?s) \<subseteq> {W_StopWait} \<and> main ?s = M_StopWait")
    case True
    with f have "finished s = {..<length (workers s)}" using finished_all [of ?s] by simp
    with True d inv show ?thesis unfolding eq
      by (auto simp: pool_inv_def main_inv_def Let_def mid_inv)
  next
    case False
    with inv m mid i f d show ?thesis unfolding eq
      using set_update_in [of "workers s" "{W_Woken, W_Run, W_AtStop, W_StopWait}" W_StopWait i]
      by (auto simp: pool_inv_def mid_inv)
  qed
qed

lemmas worker_step_invs = inv_gate_exit inv_gate_pass inv_start_wait inv_woken_exit inv_woken_run
  inv_run_job inv_stop_wait

lemma inv_worker_step: "worker_step s s' \<Longrightarrow> pool_inv s \<Longrightarrow> pool_inv s'"
  by (induction rule: worker_step.induct) (rule worker_step_invs; assumption)+

text \<open>The calling thread.\<close>

lemma inv_pass_start_main:
  assumes inv: "pool_inv s" and p: "main s = M_AtStart \<and> x = M_StartWait \<or> main s = M_ShutAtStart \<and> x = M_ShutWait"
  shows "pool_inv (pass_start (set_main x s))"
proof -
  let ?s = "set_main x s"
  have "worker_count (pool ?s) = int (length (workers ?s))" using inv_count [OF inv] p by auto
  note eq = pass_start_eq [OF this]
  have all: "set (workers s) \<subseteq> {W_AtStart, W_StartWait}" "workers s \<noteq> []"
    using inv p by (auto simp: pool_inv_def main_inv_def Let_def)
  have fin: "finished (s\<lparr>workers := replicate (length (workers s)) W_Woken, main := m'\<rparr>) = {}" for m'
    by (auto simp: finished_def)
  show ?thesis
  proof (cases "set (workers s) \<subseteq> {W_StartWait}")
    case True
    then show ?thesis unfolding eq using inv p fin published_done [of s]
      by (elim disjE) (auto simp: pool_inv_def main_inv_def Let_def)
  next
    case False
    then have "W_AtStart \<in> set (workers s)" using all by auto
    with False all show ?thesis unfolding eq using inv p
      by (elim disjE) (auto simp: pool_inv_def main_inv_def Let_def)
  qed
qed

lemma inv_dispatch_stop:
  assumes inv: "pool_inv s" and p: "main s = M_AtStop"
  shows "pool_inv (pass_stop (set_main M_StopWait s))"
proof -
  let ?s = "set_main M_StopWait s"
  have "worker_count (pool ?s) = int (length (workers ?s))" using inv_count [OF inv] p by auto
  note eq = pass_stop_eq [OF this]
  have fin: "finished ?s = finished s" by (simp add: finished_def)
  show ?thesis
  proof (cases "set (workers s) \<subseteq> {W_StopWait}")
    case True
    with finished_all [OF True] inv p show ?thesis unfolding eq
      by (auto simp: pool_inv_def main_inv_def Let_def)
  next
    case False
    with inv p fin show ?thesis unfolding eq by (simp add: pool_inv_def main_inv_def Let_def)
  qed
qed

lemma inv_create_ok:
  assumes inv: "pool_inv s" and p: "main s = M_Create k" "int k < worker_count (pool s)"
  shows "pool_inv (set_main (M_Create (Suc k)) (set_worker k W_Gate s))"
  using assms by (auto simp: pool_inv_def main_inv_def Let_def nth_list_update less_Suc_eq)

lemma inv_create_fail:
  assumes inv: "pool_inv s" and p: "main s = M_Create k" "int k < worker_count (pool s)"
  shows "pool_inv ((set_main (M_FailJoin 0 k) s)
      \<lparr>pool := (pool s)\<lparr>shutting_down := True, startup_ready := True\<rparr>\<rparr>)"
  using assms by (auto simp: pool_inv_def main_inv_def Let_def)

lemma inv_fail_join:
  assumes inv: "pool_inv s" and p: "main s = M_FailJoin j k" "j < k" "at s j W_Exited"
  shows "pool_inv (set_main (M_FailJoin (Suc j) k) s)"
  using assms by (auto simp: pool_inv_def main_inv_def Let_def less_Suc_eq at_def)

lemma inv_fail_done:
  assumes inv: "pool_inv s" and p: "main s = M_FailJoin k k"
  shows "pool_inv ((set_main M_Failed s)\<lparr>objects := {},
      pool := (pool s)\<lparr>worker_count := 0, rows := 0\<rparr>\<rparr>)"
proof -
  have "workers s ! i \<in> {W_None, W_Exited}" if "i < length (workers s)" for i
    using inv p that by (cases "i < k") (auto simp: pool_inv_def main_inv_def Let_def)
  then have "set (workers s) \<subseteq> {W_None, W_Exited}" by (metis in_set_conv_nth subsetI)
  with inv p show ?thesis by (simp add: pool_inv_def main_inv_def Let_def)
qed

lemma inv_open_gate:
  assumes inv: "pool_inv s" and p: "main s = M_Create k" "worker_count (pool s) \<le> int k"
  shows "pool_inv ((set_main M_Released s)\<lparr>pool := (pool s)\<lparr>startup_ready := True\<rparr>\<rparr>)"
proof -
  have w: "\<forall>q\<in>set (workers s). q = W_Gate"
    using inv p by (auto simp: pool_inv_def main_inv_def Let_def in_set_conv_nth)
  then have "filter (\<lambda>q. q \<noteq> W_Gate) (workers s) = []" by simp
  with w inv p show ?thesis by (auto simp: pool_inv_def main_inv_def Let_def)
qed

lemma inv_all_released:
  assumes inv: "pool_inv s" and p: "main s = M_Released" "worker_count (pool s) \<le> startup_released (pool s)"
  shows "pool_inv ((set_main M_Idle s)\<lparr>pool := (pool s)\<lparr>active := True\<rparr>\<rparr>)"
proof -
  have "length (filter (\<lambda>q. q \<noteq> W_Gate) (workers s)) = length (workers s)"
    using inv p length_filter_le [of "\<lambda>q. q \<noteq> W_Gate" "workers s"]
    by (simp add: pool_inv_def main_inv_def Let_def)
  then have g: "W_Gate \<notin> set (workers s)" using filter_full [of "\<lambda>q. q \<noteq> W_Gate" "workers s"] by auto
  have "set (workers s) \<subseteq> {W_Gate, W_AtStart, W_StartWait}"
    using inv p by (simp add: pool_inv_def main_inv_def Let_def)
  with g have "set (workers s) \<subseteq> {W_AtStart, W_StartWait}" by auto
  with inv p show ?thesis by (simp add: pool_inv_def main_inv_def Let_def)
qed

lemma inv_shutdown_join:
  assumes inv: "pool_inv s" and p: "main s = M_Join k" "int k < worker_count (pool s)" "at s k W_Exited"
  shows "pool_inv (set_main (M_Join (Suc k)) s)"
  using assms by (auto simp: pool_inv_def main_inv_def Let_def less_Suc_eq at_def)

lemma inv_shutdown_done:
  assumes inv: "pool_inv s" and p: "main s = M_Join k" "worker_count (pool s) \<le> int k"
  shows "pool_inv ((set_main M_Down s)\<lparr>objects := {},
      pool := (pool s)\<lparr>worker_count := 0, rows := 0\<rparr>\<rparr>)"
proof -
  have "set (workers s) \<subseteq> {W_Exited}"
    using inv p by (auto simp: pool_inv_def main_inv_def Let_def in_set_conv_nth)
  with inv p show ?thesis by (simp add: pool_inv_def main_inv_def Let_def)
qed

lemma inv_main_step: "main_step s s' \<Longrightarrow> pool_inv s \<Longrightarrow> pool_inv s'"
proof (induction rule: main_step.induct)
  case (dispatch_start s) then show ?case by (intro inv_pass_start_main) auto
next
  case (shutdown_start s) then show ?case by (intro inv_pass_start_main) auto
qed (rule inv_create_ok inv_create_fail inv_fail_join inv_fail_done inv_open_gate inv_all_released
    inv_dispatch_stop inv_shutdown_join inv_shutdown_done; assumption)+

text \<open>The calls and the start.\<close>

lemma inv_dispatch: "dispatch_call f sl g s s' \<Longrightarrow> pool_inv s \<Longrightarrow> pool_inv s'"
proof (induction rule: dispatch_call.induct)
  case (dispatch_inline s sl f g m)
  then have "workers s = []" by (auto simp: pool_inv_def)
  with dispatch_inline show ?case by (auto simp: pool_inv_def main_inv_def Let_def)
next
  case (dispatch_publish s sl f g)
  then show ?case by (auto simp: pool_inv_def main_inv_def Let_def published_def)
qed

lemma inv_shutdown: "shutdown_call s s' \<Longrightarrow> pool_inv s \<Longrightarrow> pool_inv s'"
proof (induction rule: shutdown_call.induct)
  case (shutdown_inline s)
  then have "workers s = []" by (auto simp: pool_inv_def)
  with shutdown_inline show ?case by (auto simp: pool_inv_def main_inv_def Let_def)
next
  case (shutdown_flag s)
  then show ?case by (auto simp: pool_inv_def main_inv_def Let_def)
qed

lemma create_objects_cases:
  "create_objects ok = (False, {}) \<or>
   create_objects ok = (True, {Startup_Mutex, Startup_Cond, Start_Barrier, Stop_Barrier})"
  by (auto simp: create_objects_def Let_def)

lemma inv_init:
  assumes "cart_worker_pool_init False n r ok m = Inr s"
  shows "pool_inv s"
proof (cases "n = 0")
  case True
  with assms show ?thesis
    by (auto simp: cart_worker_pool_init_def pool_inv_def main_inv_def Let_def fresh_pool_def split: if_splits)
next
  case False
  with assms have n: "0 < n" "n \<le> 8" "0 < r" by (auto simp: cart_worker_pool_init_def split: if_splits)
  with assms False show ?thesis using create_objects_cases [of ok]
    by (elim disjE) (auto simp: cart_worker_pool_init_def pool_inv_def main_inv_def Let_def fresh_pool_def)
qed

lemma inv_pool_step: "pool_step s s' \<Longrightarrow> pool_inv s \<Longrightarrow> pool_inv s'"
  by (auto simp: pool_step_def internal_step_def intro: inv_worker_step inv_main_step inv_dispatch inv_shutdown)

lemma reachable_inv: "pool_reachable s \<Longrightarrow> pool_inv s"
  by (induction rule: pool_reachable.induct) (auto intro: inv_init inv_pool_step)

section \<open>Progress and termination\<close>

fun main_rank :: "main_pc \<Rightarrow> nat" where
  "main_rank (M_Create k) = 40 - k"
| "main_rank M_Released = 31"
| "main_rank (M_FailJoin j k) = 30 - j"
| "main_rank M_ShutAtStart = 20"
| "main_rank M_ShutWait = 19"
| "main_rank (M_Join k) = 18 - k"
| "main_rank M_AtStart = 4"
| "main_rank M_StartWait = 3"
| "main_rank M_AtStop = 2"
| "main_rank M_StopWait = 1"
| "main_rank _ = 0"

fun worker_rank :: "worker_pc \<Rightarrow> nat" where
  "worker_rank W_None = 0"
| "worker_rank W_Gate = 8"
| "worker_rank W_AtStart = 7"
| "worker_rank W_StartWait = 6"
| "worker_rank W_Woken = 5"
| "worker_rank W_Run = 4"
| "worker_rank W_AtStop = 3"
| "worker_rank W_StopWait = 2"
| "worker_rank W_Exited = 1"

definition pool_order :: "(('s, 'w) pool_sys \<times> ('s, 'w) pool_sys) set" where
  "pool_order = inv_image (less_than <*lex*> less_than)
     (\<lambda>s. (main_rank (main s), sum_list (map worker_rank (workers s))))"

lemma wf_pool_order: "wf pool_order"
  by (auto simp: pool_order_def)

lemma worker_rank_update:
  assumes "at s i q" "worker_rank p < worker_rank q"
  shows "sum_list (map worker_rank ((workers s)[i := p])) < sum_list (map worker_rank (workers s))"
proof -
  have i: "i < length (map worker_rank (workers s))" "map worker_rank (workers s) ! i = worker_rank q"
    using assms(1) by (auto simp: at_def)
  have "worker_rank q \<le> sum_list (map worker_rank (workers s))"
    using i by (metis elem_le_sum_list)
  then show ?thesis
    using assms(2) i by (simp add: map_update sum_list_update)
qed

lemma worker_moves: "at s i q \<Longrightarrow> worker_rank p < worker_rank q \<Longrightarrow> (set_worker i p s, s) \<in> pool_order"
  using worker_rank_update [of s i q p] by (simp add: pool_order_def)

lemma start_moves:
  assumes inv: "pool_inv s" and a: "at s i W_AtStart"
  shows "(pass_start (set_worker i W_StartWait s), s) \<in> pool_order"
proof -
  have m: "main_inv s" using inv by (simp add: pool_inv_def)
  have "main s \<noteq> M_Failed" "main s \<noteq> M_Down" using main_of_worker [OF m a] by auto
  then have "worker_count (pool (set_worker i W_StartWait s)) = int (length (workers (set_worker i W_StartWait s)))"
    using inv_count [OF inv] by simp
  from pass_start_eq [OF this] worker_rank_update [OF a, of W_StartWait] show ?thesis
    by (auto simp: pool_order_def)
qed

lemma stop_moves:
  assumes inv: "pool_inv s" and a: "at s i W_AtStop"
  shows "(pass_stop (set_worker i W_StopWait s), s) \<in> pool_order"
proof -
  have m: "main_inv s" using inv by (simp add: pool_inv_def)
  have "main s \<noteq> M_Failed" "main s \<noteq> M_Down" using main_of_worker [OF m a] by auto
  then have "worker_count (pool (set_worker i W_StopWait s)) = int (length (workers (set_worker i W_StopWait s)))"
    using inv_count [OF inv] by simp
  from pass_stop_eq [OF this] worker_rank_update [OF a, of W_StopWait] show ?thesis
    by (auto simp: pool_order_def)
qed

lemma worker_step_decreases: "worker_step s s' \<Longrightarrow> pool_inv s \<Longrightarrow> (s', s) \<in> pool_order"
proof (induction rule: worker_step.induct)
  case (start_wait s i) then show ?case by (intro start_moves)
next
  case (stop_wait s i) then show ?case by (intro stop_moves)
next
  case (gate_pass s i)
  then show ?case using worker_rank_update [of s i W_Gate W_AtStart] by (simp add: pool_order_def)
next
  case (run_job s i m)
  then show ?case using worker_rank_update [of s i W_Run W_AtStop] by (simp add: pool_order_def)
qed (rule worker_moves, assumption, simp)+

lemma main_step_decreases: "main_step s s' \<Longrightarrow> pool_inv s \<Longrightarrow> (s', s) \<in> pool_order"
proof (induction rule: main_step.induct)
  case (dispatch_start s) then show ?case by (simp add: pool_order_def pass_start_def)
next
  case (dispatch_stop s) then show ?case by (simp add: pool_order_def pass_stop_def)
next
  case (shutdown_start s) then show ?case by (simp add: pool_order_def pass_start_def)
qed (auto simp: pool_order_def pool_inv_def main_inv_def Let_def)

lemma internal_step_decreases: "internal_step s s' \<Longrightarrow> pool_inv s \<Longrightarrow> (s', s) \<in> pool_order"
  by (auto simp: internal_step_def intro: worker_step_decreases main_step_decreases)

lemma internal_step_inv: "internal_step s s' \<Longrightarrow> pool_inv s \<Longrightarrow> pool_inv s'"
  by (auto simp: internal_step_def intro: inv_worker_step inv_main_step)

lemma no_infinite_internal:
  assumes "pool_inv (run 0)" "\<And>i. internal_step (run i) (run (Suc i))"
  shows False
proof -
  have "pool_inv (run i)" for i by (induction i) (auto intro: internal_step_inv assms)
  then have "(run (Suc i), run i) \<in> pool_order" for i using assms(2) by (intro internal_step_decreases)
  with wf_pool_order show False unfolding wf_iff_no_infinite_down_chain by blast
qed

text \<open>A thread can move unless the calling thread is between calls.\<close>

definition at_rest :: "('s, 'w) pool_sys \<Rightarrow> bool" where
  "at_rest s \<longleftrightarrow> main s = M_Idle \<or> main s = M_Down \<or> main s = M_Failed"

definition jobs_defined :: "('s, 'w) pool_sys \<Rightarrow> bool" where
  "jobs_defined s \<longleftrightarrow> (\<forall>i < length (workers s). workers s ! i = W_Run \<longrightarrow> run_band (pool s) i (mem s) \<noteq> None)"

lemma worker_ready:
  assumes "main_inv s" "at s i p" "p = W_AtStart \<or> p = W_Woken \<or> p = W_Run \<or> p = W_AtStop" "jobs_defined s"
  shows "\<exists>s'. worker_step s s'"
  using assms(3)
proof (elim disjE)
  assume "p = W_Run"
  with assms(2) have "at s i W_Run" by simp
  moreover from this assms(4) obtain m where "run_band (pool s) i (mem s) = Some m"
    by (auto simp: jobs_defined_def at_def)
  ultimately show ?thesis by (blast intro: run_job)
next
  assume "p = W_Woken"
  with assms(2) have "at s i W_Woken" by simp
  then show ?thesis by (cases "shutting_down (pool s)") (blast intro: woken_exit woken_run)+
qed (use assms(2) in \<open>blast intro: start_wait stop_wait\<close>)+

lemma in_set_at: "p \<in> set (workers s) \<Longrightarrow> \<exists>i. at s i p"
  by (auto simp: at_def in_set_conv_nth)

lemma released_progress:
  assumes "main_inv s" "main s = M_Released" "worker_count (pool s) = int (length (workers s))"
  shows "\<exists>s'. internal_step s s'"
proof (cases "W_Gate \<in> set (workers s)")
  case True
  then obtain i where "at s i W_Gate" using in_set_at by blast
  moreover have "startup_ready (pool s)" "\<not> shutting_down (pool s)"
    using assms by (auto simp: main_inv_def Let_def)
  ultimately show ?thesis by (metis gate_pass internal_step_def)
next
  case False
  then have "\<forall>q\<in>set (workers s). q \<noteq> W_Gate" by auto
  then have "worker_count (pool s) \<le> startup_released (pool s)"
    using assms filter_full [of "\<lambda>q. q \<noteq> W_Gate" "workers s"] by (simp add: main_inv_def Let_def)
  with assms(2) show ?thesis by (metis all_released internal_step_def)
qed

lemma fail_join_progress:
  assumes m: "main_inv s" and f: "main s = M_FailJoin j k"
  shows "\<exists>s'. internal_step s s'"
proof (cases "j < k")
  case True
  have k: "k < length (workers s)" using m f by (simp add: main_inv_def Let_def)
  then have "workers s ! j \<in> {W_Gate, W_Exited}" using m f True by (simp add: main_inv_def Let_def)
  then have "at s j W_Gate \<or> at s j W_Exited" using True k by (auto simp: at_def)
  moreover have "startup_ready (pool s)" "shutting_down (pool s)"
    using m f by (auto simp: main_inv_def Let_def)
  ultimately show ?thesis using f True by (metis gate_exit fail_join internal_step_def)
next
  case False
  then have "main s = M_FailJoin k k" using m f by (auto simp: main_inv_def Let_def)
  then show ?thesis by (metis fail_done internal_step_def)
qed

lemma join_progress:
  assumes m: "main_inv s" and f: "main s = M_Join k"
    and n: "worker_count (pool s) = int (length (workers s))" and j: "jobs_defined s"
  shows "\<exists>s'. internal_step s s'"
proof (cases "k < length (workers s)")
  case True
  have "workers s ! k \<in> {W_Woken, W_Exited}"
    using m f subsetD [OF _ nth_mem [OF True], of "{W_Woken, W_Exited}"]
    by (simp add: main_inv_def Let_def)
  then have "at s k W_Woken \<or> at s k W_Exited" using True by (auto simp: at_def)
  then show ?thesis
  proof
    assume "at s k W_Woken"
    from worker_ready [OF m this _ j] show ?thesis by (auto simp: internal_step_def)
  next
    assume "at s k W_Exited"
    with f n True show ?thesis by (metis shutdown_join internal_step_def of_nat_less_iff)
  qed
next
  case False
  with f n show ?thesis by (metis shutdown_done internal_step_def not_less of_nat_le_iff)
qed

lemma pool_progress:
  assumes inv: "pool_inv s" and r: "\<not> at_rest s" and j: "jobs_defined s"
  shows "\<exists>s'. internal_step s s'"
proof -
  have m: "main_inv s" using inv by (simp add: pool_inv_def)
  have n: "worker_count (pool s) = int (length (workers s))"
    using inv_count [OF inv] r by (auto simp: at_rest_def)
  have ready: "\<exists>s'. internal_step s s'" if "p \<in> set (workers s)"
    "p = W_AtStart \<or> p = W_Woken \<or> p = W_Run \<or> p = W_AtStop" for p
    using in_set_at [OF that(1)] worker_ready [OF m _ that(2) j] by (auto simp: internal_step_def)
  show ?thesis
  proof (cases "main s")
    case (M_Create k)
    then show ?thesis by (metis create_ok open_gate internal_step_def not_le)
  next
    case M_Released
    then show ?thesis using m n by (intro released_progress)
  next
    case (M_FailJoin j k)
    with m show ?thesis by (rule fail_join_progress)
  next
    case M_AtStart
    then show ?thesis by (metis dispatch_start internal_step_def)
  next
    case M_StartWait
    then have "W_AtStart \<in> set (workers s)" using m by (simp add: main_inv_def Let_def)
    then show ?thesis using ready by blast
  next
    case M_AtStop
    then show ?thesis by (metis dispatch_stop internal_step_def)
  next
    case M_StopWait
    then obtain p where "p \<in> set (workers s)" "p = W_Woken \<or> p = W_Run \<or> p = W_AtStop"
      using m by (auto simp: main_inv_def Let_def)
    then show ?thesis using ready by blast
  next
    case M_ShutAtStart
    then show ?thesis by (metis shutdown_start internal_step_def)
  next
    case M_ShutWait
    then have "W_AtStart \<in> set (workers s)" using m by (simp add: main_inv_def Let_def)
    then show ?thesis using ready by blast
  next
    case (M_Join k)
    then show ?thesis using m n j by (intro join_progress)
  qed (use r in \<open>auto simp: at_rest_def\<close>)
qed

section \<open>Running a schedule\<close>

text \<open>
  The step relation as a program: \<open>exec\<close> runs a list of scheduling choices, in which every thread
  creation succeeds. It gives concrete runs of the relation.
\<close>

datatype thread = Worker nat | Main

fun exec_worker :: "nat \<Rightarrow> ('s, 'w) pool_sys \<Rightarrow> ('s, 'w) pool_sys option" where
  "exec_worker i s =
     (if \<not> i < length (workers s) then None else
      case workers s ! i of
        W_Gate \<Rightarrow>
          if \<not> startup_ready (pool s) then None
          else if shutting_down (pool s) then Some (set_worker i W_Exited s)
          else Some ((set_worker i W_AtStart s)
            \<lparr>pool := (pool s)\<lparr>startup_released := startup_released (pool s) + 1\<rparr>\<rparr>)
      | W_AtStart \<Rightarrow> Some (pass_start (set_worker i W_StartWait s))
      | W_Woken \<Rightarrow> Some (set_worker i (if shutting_down (pool s) then W_Exited else W_Run) s)
      | W_Run \<Rightarrow> (case run_band (pool s) i (mem s) of None \<Rightarrow> None
          | Some m \<Rightarrow> Some ((set_worker i W_AtStop s)\<lparr>mem := m, ran := ran s @ [i]\<rparr>))
      | W_AtStop \<Rightarrow> Some (pass_stop (set_worker i W_StopWait s))
      | _ \<Rightarrow> None)"

fun exec_main :: "('s, 'w) pool_sys \<Rightarrow> ('s, 'w) pool_sys option" where
  "exec_main s =
     (case main s of
        M_Create k \<Rightarrow>
          if int k < worker_count (pool s)
          then Some (set_main (M_Create (Suc k)) (set_worker k W_Gate s))
          else Some ((set_main M_Released s)\<lparr>pool := (pool s)\<lparr>startup_ready := True\<rparr>\<rparr>)
      | M_Released \<Rightarrow>
          if worker_count (pool s) \<le> startup_released (pool s)
          then Some ((set_main M_Idle s)\<lparr>pool := (pool s)\<lparr>active := True\<rparr>\<rparr>) else None
      | M_AtStart \<Rightarrow> Some (pass_start (set_main M_StartWait s))
      | M_AtStop \<Rightarrow> Some (pass_stop (set_main M_StopWait s))
      | _ \<Rightarrow> None)"

fun exec :: "thread list \<Rightarrow> ('s, 'w) pool_sys \<Rightarrow> ('s, 'w) pool_sys option" where
  "exec [] s = Some s"
| "exec (t # ts) s = (case (case t of Worker i \<Rightarrow> exec_worker i s | Main \<Rightarrow> exec_main s) of
     None \<Rightarrow> None | Some s' \<Rightarrow> exec ts s')"

declare exec_worker.simps [simp del] exec_main.simps [simp del]

lemma exec_worker_step: "exec_worker i s = Some s' \<Longrightarrow> worker_step s s'"
  by (auto simp: exec_worker.simps at_def intro: worker_step.intros
      split: if_splits worker_pc.splits option.splits)

lemma exec_main_step: "exec_main s = Some s' \<Longrightarrow> main_step s s'"
  by (auto simp: exec_main.simps intro: main_step.intros split: if_splits main_pc.splits)

lemma exec_steps: "exec ts s = Some s' \<Longrightarrow> internal_step\<^sup>*\<^sup>* s s'"
proof (induction ts s rule: exec.induct)
  case (2 t ts s)
  then obtain s1 where s1: "(case t of Worker i \<Rightarrow> exec_worker i s | Main \<Rightarrow> exec_main s) = Some s1"
    "exec ts s1 = Some s'" by (auto split: option.splits)
  then have "internal_step s s1"
    by (auto simp: internal_step_def split: thread.splits intro: exec_worker_step exec_main_step)
  from this 2(1) [OF s1] show ?case by (rule converse_rtranclp_into_rtranclp)
qed simp

lemma reachable_internal: "internal_step\<^sup>*\<^sup>* s s' \<Longrightarrow> pool_reachable s \<Longrightarrow> pool_reachable s'"
  by (induction rule: rtranclp_induct) (auto intro: pool_reachable.step simp: pool_step_def)

text \<open>A pool of two workers over five rows whose jobs note the calls they get.\<close>

definition note_job :: "(nat, (nat \<times> int \<times> int \<times> u64) list) job_fn" where
  "note_job slot a b g m = Some (m @ [(slot, a, b, g)])"

definition demo_pool :: "main_pc \<Rightarrow> worker_pc list \<Rightarrow> bool \<Rightarrow> (nat, (nat \<times> int \<times> int \<times> u64) list) pool_sys" where
  "demo_pool mp ws up =
     \<lparr>pool = \<lparr>active = up, worker_count = 2, rows = 5, slots = [], job = None, generation = 0,
        startup_ready = up, startup_released = (if up then 2 else 0), shutting_down = False\<rparr>,
      objects = {Startup_Mutex, Startup_Cond, Start_Barrier, Stop_Barrier}, workers = ws, main = mp,
      mem = [], ran = [], mem0 = []\<rparr>"

lemma demo_init:
  "cart_worker_pool_init False 2 5 (\<lambda>_. True) [] = Inr (demo_pool (M_Create 0) [W_None, W_None] False)"
  by (auto simp: cart_worker_pool_init_def create_objects_def demo_pool_def fresh_pool_def numeral_2_eq_2)

lemmas exec_simps = exec_worker.simps exec_main.simps pass_start_def pass_stop_def start_waiting_def
  stop_waiting_def

lemma demo_up:
  "exec [Main, Main, Main, Worker 1, Worker 0, Main] (demo_pool (M_Create 0) [W_None, W_None] False)
   = Some (demo_pool M_Idle [W_AtStart, W_AtStart] True)"
  by (simp add: exec_simps demo_pool_def)

lemma demo_reachable:
  "pool_reachable (demo_pool (M_Create 0) [W_None, W_None] False)"
  "pool_reachable (demo_pool M_Idle [W_AtStart, W_AtStart] True)"
  using pool_reachable.start [OF demo_init] reachable_internal [OF exec_steps [OF demo_up]] by auto

definition demo_dispatched :: "(nat, (nat \<times> int \<times> int \<times> u64) list) pool_sys" where
  "demo_dispatched = (demo_pool M_AtStart [W_AtStart, W_AtStart] True)
     \<lparr>pool := (pool (demo_pool M_Idle [] True))\<lparr>job := Some note_job, slots := [7, 8], generation := 9\<rparr>\<rparr>"

lemma demo_dispatch:
  "dispatch_call note_job [7, 8] 9 (demo_pool M_Idle [W_AtStart, W_AtStart] True) demo_dispatched"
  using dispatch_publish [of "demo_pool M_Idle [W_AtStart, W_AtStart] True" "[7, 8]" note_job 9]
  by (simp add: demo_pool_def demo_dispatched_def)

lemma demo_run:
  "\<exists>s. exec [Worker 1, Main, Worker 0, Worker 1, Main, Worker 1, Worker 0, Worker 0, Worker 0, Worker 1]
     demo_dispatched = Some s \<and> main s = M_Idle \<and> mem s = [(8, 2, 5, 9), (7, 0, 2, 9)]"
  by (simp add: exec_simps demo_dispatched_def demo_pool_def run_band_def worker_band_def note_job_def
      i32_def in_i32_def signed_divide_int_def)

section \<open>Properties of the pool\<close>

lemma div_step: "0 < n \<Longrightarrow> (i + 1) * r div n - i * r div n \<in> {r div n, r div n + (1 :: int)}"
proof -
  assume n: "0 < n"
  have "0 \<le> (i * r mod n + r mod n) div n"
    using n pos_mod_sign [OF n, of "i * r"] pos_mod_sign [OF n, of r]
    by (simp add: pos_imp_zdiv_nonneg_iff)
  then have "i * r div n + r div n \<le> (i * r + r) div n" by (simp add: div_add1_eq [of "i * r" r n])
  moreover have "(i * r + r) div n \<le> i * r div n + r div n + 1"
  proof -
    have "i * r mod n + r mod n \<le> 1 * n + (n - 1)"
      using pos_mod_bound [OF n, of "i * r"] pos_mod_bound [OF n, of r] by linarith
    then have "(i * r mod n + r mod n) div n \<le> (1 * n + (n - 1)) div n" using n by (rule zdiv_mono1)
    also have "\<dots> = 1" using n by (subst div_mult_self3) (auto simp: div_pos_pos_trivial)
    finally have "(i * r mod n + r mod n) div n \<le> 1" .
    then show ?thesis by (simp add: div_add1_eq [of "i * r" r n])
  qed
  ultimately show ?thesis by (simp add: distrib_right) linarith
qed

lemma worker_band_eq:
  assumes "0 < worker_count p" "0 < rows p" "worker_count p * rows p \<le> INT_MAX"
    "0 \<le> i" "i < worker_count p"
  shows "worker_band p i = Some (i * rows p div worker_count p, (i + 1) * rows p div worker_count p)"
proof -
  have "0 \<le> i * rows p" "0 \<le> (i + 1) * rows p" "(i + 1) * rows p \<le> worker_count p * rows p"
    using assms by (auto intro: mult_right_mono)
  moreover have "i * rows p \<le> (i + 1) * rows p" using assms by (simp add: distrib_right)
  ultimately have "in_i32 (i * rows p)" "in_i32 ((i + 1) * rows p)"
    using assms(3) unfolding in_i32_def by linarith+
  moreover have "a sdiv worker_count p = a div worker_count p" if "0 \<le> a" for a
    using that assms(1) by (cases "a = 0") (simp_all add: signed_divide_int_def sgn_if)
  ultimately show ?thesis
    using \<open>0 \<le> i * rows p\<close> \<open>0 \<le> (i + 1) * rows p\<close> by (simp add: worker_band_def)
qed

text \<open>
  The bands of the workers tile the rows: as long as the product of workers and rows
  fits an \<^verbatim>\<open>int\<close>, every worker's band is defined, band \<open>i + 1\<close> begins where band \<open>i\<close> ends,
  the first begins at row 0 and the last ends at the last row, and any two bands differ by at
  most one row.
\<close>

theorem bands_tile_rows:
  fixes p :: "('s, 'w) cart_worker_pool"
  assumes "0 < worker_count p" "0 < rows p" "worker_count p * rows p \<le> INT_MAX"
  shows "\<exists>b. b 0 = 0 \<and> b (worker_count p) = rows p \<and>
    (\<forall>i. 0 \<le> i \<and> i < worker_count p \<longrightarrow> worker_band p i = Some (b i, b (i + 1)) \<and>
       b (i + 1) - b i \<in> {rows p div worker_count p, rows p div worker_count p + 1})"
  using assms worker_band_eq [OF assms] div_step [OF assms(1)]
  by (intro exI [of _ "\<lambda>i. i * rows p div worker_count p"]) auto

theorem bands_tile_rows_witness:
  "\<exists>b. b (4 :: int) = 180 \<and> worker_band (fresh_pool 4 180 :: (nat, nat) cart_worker_pool) 1 = Some (b 1, b 2)
     \<and> b 2 - b 1 = (45 :: int)"
proof -
  have "0 < worker_count (fresh_pool 4 180 :: (nat, nat) cart_worker_pool)"
    "0 < rows (fresh_pool 4 180 :: (nat, nat) cart_worker_pool)"
    "worker_count (fresh_pool 4 180 :: (nat, nat) cart_worker_pool) * rows (fresh_pool 4 180 :: (nat, nat) cart_worker_pool) \<le> INT_MAX"
    by (simp_all add: fresh_pool_def)
  from bands_tile_rows [OF this] obtain b where b: "b 4 = 180"
    "\<forall>i. 0 \<le> i \<and> i < 4 \<longrightarrow> worker_band (fresh_pool 4 180 :: (nat, nat) cart_worker_pool) i = Some (b i, b (i + 1))"
    by (auto simp: fresh_pool_def)
  moreover have "worker_band (fresh_pool 4 180 :: (nat, nat) cart_worker_pool) 1 = Some (45, 90)"
    by code_simp
  ultimately show ?thesis using b(2) [rule_format, of 1] by auto
qed

text \<open>During a dispatch no step touches the shared structure.\<close>

definition in_dispatch :: "('s, 'w) pool_sys \<Rightarrow> bool" where
  "in_dispatch s \<longleftrightarrow> main s \<in> {M_AtStart, M_StartWait, M_AtStop, M_StopWait, M_Idle}"

lemma pass_pool [simp]:
  "pool (pass_start s) = pool s" "pool (pass_stop s) = pool s"
  "mem0 (pass_start s) = mem0 s" "mem0 (pass_stop s) = mem0 s"
  by (simp_all add: pass_start_def pass_stop_def)

lemma dispatch_step_frame:
  assumes inv: "pool_inv s" and d: "in_dispatch s" and st: "internal_step s s'"
  shows "in_dispatch s' \<and> pool s' = pool s \<and> mem0 s' = mem0 s"
  using st unfolding internal_step_def
proof
  have m: "main_inv s" using inv by (simp add: pool_inv_def)
  have gate: False if "at s i W_Gate" for i
    using main_of_worker [OF m that] d by (auto simp: in_dispatch_def)
  assume "worker_step s s'"
  then show ?thesis using d gate
    by (cases rule: worker_step.cases) (auto simp: in_dispatch_def pass_start_def pass_stop_def)
next
  assume "main_step s s'"
  then show ?thesis using d
    by (cases rule: main_step.cases) (auto simp: in_dispatch_def pass_start_def pass_stop_def)
qed

lemma dispatch_run_frame:
  assumes "internal_step\<^sup>*\<^sup>* s s'" "pool_inv s" "in_dispatch s"
  shows "pool_inv s' \<and> in_dispatch s' \<and> pool s' = pool s \<and> mem0 s' = mem0 s"
  using assms
proof (induction rule: rtranclp_induct)
  case (step y z)
  then have y: "pool_inv y" "in_dispatch y" "pool y = pool s" "mem0 y = mem0 s" by auto
  from dispatch_step_frame [OF y(1,2) step.hyps(2)] internal_step_inv [OF step.hyps(2) y(1)] y
  show ?case by simp
qed simp

lemma bands_done_perm:
  "bands_done s {..<n} \<Longrightarrow> mset (ran s) = mset [0..<n]"
  by (metis atLeast_upt bands_done_def distinct_upt lessThan_atLeast0 set_eq_iff_mset_eq_distinct set_upt)

text \<open>
  Claim C2. From any reachable state of a pool with workers, whatever the interleaving of the
  threads, when a dispatch returns every worker's band has run exactly once, with the dispatched
  job, slots and generation and nothing else: the memory is the memory at the call with the bands
  of the workers \<open>0, ..., worker_count - 1\<close> run in some order.
\<close>

theorem dispatch_runs_each_band_once:
  assumes "pool_reachable s" "dispatch_call f sl g s s1" "worker_count (pool s) \<noteq> 0"
    and "internal_step\<^sup>*\<^sup>* s1 s2" "main s2 = M_Idle"
  shows "\<exists>order. mset order = mset [0..<nat (worker_count (pool s))] \<and>
    foldl (\<lambda>m i. Option.bind m (run_band ((pool s)\<lparr>job := Some f, slots := sl, generation := g\<rparr>) i))
      (Some (mem s)) order = Some (mem s2)"
proof -
  have inv: "pool_inv s" using assms(1) by (rule reachable_inv)
  let ?n = "nat (worker_count (pool s))"
  from assms(2,3) have s1: "main s = M_Idle" "main s1 = M_AtStart" "mem0 s1 = mem s" "?n \<le> length sl"
    "pool s1 = (pool s)\<lparr>job := Some f, slots := take ?n sl, generation := g\<rparr>"
    by (auto elim: dispatch_call.cases)
  have "pool_inv s1" using inv_dispatch [OF assms(2) inv] .
  from dispatch_run_frame [OF assms(4) this] s1 have s2: "pool_inv s2" "pool s2 = pool s1" "mem0 s2 = mem s"
    by (auto simp: in_dispatch_def)
  have "length (workers s2) = ?n" using s2 s1 assms(5) by (simp add: pool_inv_def)
  with s2 s1 assms(5) have fin: "bands_done s2 {..<?n}" by (simp add: pool_inv_def main_inv_def Let_def)
  have lt: "i < ?n" if "i \<in> set (ran s2)" for i using that fin by (auto simp: bands_done_def)
  have eq: "run_band (pool s1) i m = run_band ((pool s)\<lparr>job := Some f, slots := sl, generation := g\<rparr>) i m"
    if "i < ?n" for i m
    using that s1 by (simp add: run_band_def worker_band_def)
  have "foldl (\<lambda>m i. Option.bind m (run_band ((pool s)\<lparr>job := Some f, slots := sl, generation := g\<rparr>) i))
      (Some (mem s)) (ran s2) = foldl (\<lambda>m i. Option.bind m (run_band (pool s1) i)) (Some (mem s)) (ran s2)"
    by (rule foldl_cong) (auto simp: eq lt cong: Option.bind_cong)
  with bands_done_perm [OF fin] fin s2 show ?thesis by (auto simp: bands_done_def)
qed

theorem dispatch_runs_each_band_once_witness:
  "\<exists>s2 order. internal_step\<^sup>*\<^sup>* demo_dispatched s2 \<and> main s2 = M_Idle \<and>
     mset order = mset [0, 1] \<and>
     foldl (\<lambda>m i. Option.bind m (run_band (pool demo_dispatched) i)) (Some []) order = Some (mem s2) \<and>
     mem s2 = [(8, 2, 5, 9), (7, 0, 2, 9)]"
proof -
  obtain s2 where s2: "internal_step\<^sup>*\<^sup>* demo_dispatched s2" "main s2 = M_Idle"
    "mem s2 = [(8, 2, 5, 9), (7, 0, 2, 9)]"
    using demo_run exec_steps by blast
  have "worker_count (pool (demo_pool M_Idle [W_AtStart, W_AtStart] True)) \<noteq> 0"
    by (simp add: demo_pool_def)
  from dispatch_runs_each_band_once [OF demo_reachable(2) demo_dispatch this s2(1,2)]
  obtain order where "mset order = mset [0, 1]"
    "foldl (\<lambda>m i. Option.bind m (run_band (pool demo_dispatched) i)) (Some []) order = Some (mem s2)"
    by (auto simp: demo_pool_def demo_dispatched_def numeral_2_eq_2)
  with s2 show ?thesis by blast
qed

text \<open>
  Claim C19. A dispatch, an initialisation and a shutdown always return: from a reachable state no
  schedule lets the threads run forever without a new call, and while a call is in progress some
  thread can take a step, unless a job is about to do something undefined. So every maximal run
  ends with the calling thread out of its call; in particular the two barriers never deadlock.
\<close>

theorem pool_calls_return:
  assumes "pool_reachable s"
  shows "(\<nexists>run. run 0 = s \<and> (\<forall>i. internal_step (run i) (run (Suc i)))) \<and>
    (\<not> at_rest s \<and> jobs_defined s \<longrightarrow> (\<exists>s'. internal_step s s'))"
  using no_infinite_internal reachable_inv [OF assms] pool_progress by metis

theorem pool_calls_return_witness:
  "\<exists>s'. internal_step (demo_pool (M_Create 0) [W_None, W_None] False) s'"
proof -
  have "\<not> at_rest (demo_pool (M_Create 0) [W_None, W_None] False)"
    "jobs_defined (demo_pool (M_Create 0) [W_None, W_None] False)"
    by (auto simp: at_rest_def jobs_defined_def demo_pool_def nth_Cons split: nat.splits)
  with pool_calls_return [OF demo_reachable(1)] show ?thesis by blast
qed

text \<open>
  The shared structure is never written while a worker may be reading it: as long as
  some worker is between the two barriers, no step of any thread and no call changes any field of
  the pool.
\<close>

theorem pool_fields_stable:
  assumes "pool_reachable s" "at s i W_Woken \<or> at s i W_Run" "pool_step s s'"
  shows "pool s' = pool s"
proof -
  have m: "main_inv s" using reachable_inv [OF assms(1)] by (simp add: pool_inv_def)
  have n: "worker_count (pool s) = int (length (workers s))" if "main s = M_Join k" for k
    using inv_count [OF reachable_inv [OF assms(1)]] that by simp
  have pc: "main s = M_AtStop \<or> main s = M_StopWait \<or> (\<exists>k. main s = M_Join k)"
    using assms(2) main_of_worker [OF m, of i W_Woken] main_of_worker [OF m, of i W_Run] by auto
  have gate: False if "at s j W_Gate" for j using main_of_worker [OF m that] pc by auto
  have early: False if "main s = M_Join k" "worker_count (pool s) \<le> int k" for k
    using m that n [OF that(1)] assms(2) by (auto simp: main_inv_def Let_def at_def)
  from assms(3) consider "worker_step s s'" | "main_step s s'" | f sl g where "dispatch_call f sl g s s'"
    | "shutdown_call s s'" by (auto simp: pool_step_def internal_step_def)
  then show ?thesis
  proof cases
    case 1
    then show ?thesis using gate by (cases rule: worker_step.cases) auto
  next
    case 2
    then show ?thesis using pc early by (cases rule: main_step.cases) auto
  next
    case 3
    then show ?thesis using pc by (cases rule: dispatch_call.cases) auto
  next
    case 4
    then show ?thesis using pc by (cases rule: shutdown_call.cases) auto
  qed
qed

theorem pool_fields_stable_witness:
  "\<exists>(s :: (nat, (nat \<times> int \<times> int \<times> u64) list) pool_sys) s'.
     at s 1 W_Woken \<and> pool_step s s' \<and> pool s' = pool s \<and> mem s = []"
proof -
  obtain s where s: "exec [Worker 1, Main, Worker 0] demo_dispatched = Some s" "at s 1 W_Woken" "mem s = []"
    by (simp add: exec_simps demo_dispatched_def demo_pool_def at_def)
  have "pool_reachable demo_dispatched"
    using pool_reachable.step [OF demo_reachable(2)] demo_dispatch by (auto simp: pool_step_def)
  then have r: "pool_reachable s" using reachable_internal exec_steps [OF s(1)] by blast
  have j: "jobs_defined s" "\<not> at_rest s" using s(1)
    by (auto simp: exec_simps demo_dispatched_def demo_pool_def jobs_defined_def at_rest_def
        nth_Cons split: nat.splits)
  then obtain s' where "pool_step s s'"
    using pool_progress [OF reachable_inv [OF r]] by (auto simp: pool_step_def)
  with pool_fields_stable [OF r _ this] s show ?thesis by blast
qed

text \<open>
  After a shutdown, or an initialisation that failed at any of its allocations or
  thread creations, no worker thread is left, every synchronisation object has been destroyed and
  the pool refuses further dispatches.
\<close>

theorem pool_down_is_clean:
  assumes "pool_reachable s" "main s = M_Down \<or> main s = M_Failed"
  shows "set (workers s) \<subseteq> {W_None, W_Exited} \<and> objects s = {} \<and> \<not> (\<exists>f sl g s'. dispatch_call f sl g s s')"
proof -
  have m: "main_inv s" using reachable_inv [OF assms(1)] by (simp add: pool_inv_def)
  have "\<not> dispatch_call f sl g s s'" for f sl g s' using assms(2) by (auto elim: dispatch_call.cases)
  with m assms(2) show ?thesis by (auto simp: main_inv_def Let_def)
qed

theorem pool_down_is_clean_witness:
  "\<exists>s :: (nat, nat) pool_sys.
     cart_worker_pool_init False 2 5 (\<lambda>x. x \<noteq> Stop_Barrier) 0 = Inr s \<and> main s = M_Failed \<and> objects s = {}"
proof -
  obtain s :: "(nat, nat) pool_sys" where s: "cart_worker_pool_init False 2 5 (\<lambda>x. x \<noteq> Stop_Barrier) 0 = Inr s"
    "main s = M_Failed"
    by (auto simp: cart_worker_pool_init_def create_objects_def)
  with pool_down_is_clean [OF pool_reachable.start [OF s(1)]] show ?thesis by auto
qed

section \<open>Jobs on disjoint rows\<close>

text \<open>
  The contract a job gives the pool: \<open>band a b\<close> is the effect of the job on rows \<open>a\<close> to \<open>b\<close>. It is
  defined on the states \<open>ok\<close>, consecutive bands compose and disjoint bands commute. Then the order
  in which the bands run does not matter.
\<close>

locale band_job =
  fixes band :: "int \<Rightarrow> int \<Rightarrow> 'w \<Rightarrow> 'w option" and ok :: "'w \<Rightarrow> bool" and height :: int
  assumes band_ok: "ok m \<Longrightarrow> 0 \<le> a \<Longrightarrow> a \<le> b \<Longrightarrow> b \<le> height \<Longrightarrow> \<exists>m'. band a b m = Some m' \<and> ok m'"
    and band_empty: "ok m \<Longrightarrow> band a a m = Some m"
    and band_join: "ok m \<Longrightarrow> 0 \<le> a \<Longrightarrow> a \<le> b \<Longrightarrow> b \<le> d \<Longrightarrow> d \<le> height \<Longrightarrow>
      Option.bind (band a b m) (band b d) = band a d m"
    and band_commute: "ok m \<Longrightarrow> 0 \<le> a \<Longrightarrow> a \<le> b \<Longrightarrow> b \<le> d \<Longrightarrow> d \<le> e \<Longrightarrow> e \<le> height \<Longrightarrow>
      Option.bind (band a b m) (band d e) = Option.bind (band d e m) (band a b)"
begin

definition run_all :: "(int \<Rightarrow> int) \<Rightarrow> nat list \<Rightarrow> 'w option \<Rightarrow> 'w option" where
  "run_all b order m = foldl (\<lambda>m i. Option.bind m (band (b (int i)) (b (int i + 1)))) m order"

lemma run_all_Cons: "run_all b (i # order) m = run_all b order (Option.bind m (band (b (int i)) (b (int i + 1))))"
  by (simp add: run_all_def)

lemma run_all_Nil [simp]: "run_all b [] m = m"
  by (simp add: run_all_def)

lemma run_all_append: "run_all b (xs @ ys) m = run_all b ys (run_all b xs m)"
  by (simp add: run_all_def)

text \<open>One band as a step that is undefined outside \<open>ok\<close>; such steps commute everywhere.\<close>

definition guarded :: "(int \<Rightarrow> int) \<Rightarrow> nat \<Rightarrow> 'w option \<Rightarrow> 'w option" where
  "guarded b i m = (case m of None \<Rightarrow> None
     | Some x \<Rightarrow> if ok x then band (b (int i)) (b (int i + 1)) x else None)"

definition tiles :: "(int \<Rightarrow> int) \<Rightarrow> nat \<Rightarrow> bool" where
  "tiles b n \<longleftrightarrow> b 0 = 0 \<and> b (int n) = height \<and> (\<forall>i j. 0 \<le> i \<and> i \<le> j \<and> j \<le> int n \<longrightarrow> b i \<le> b j)"

lemma tiles_range:
  assumes "tiles b n" "i < n"
  shows "0 \<le> b (int i)" "b (int i) \<le> b (int i + 1)" "b (int i + 1) \<le> height"
  using assms unfolding tiles_def by (auto dest: spec [of _ 0] intro: order_trans)

lemma guarded_ok:
  assumes t: "tiles b n" "i < n" and x: "ok x"
  obtains x' where "guarded b i (Some x) = Some x'" "band (b (int i)) (b (int i + 1)) x = Some x'" "ok x'"
  using band_ok [OF x tiles_range [OF t]] x by (auto simp: guarded_def)

lemma guarded_commute_less:
  assumes t: "tiles b n" and ij: "i < j" "j < n" and x: "ok x"
  shows "guarded b i (guarded b j (Some x)) = guarded b j (guarded b i (Some x))"
proof -
  have i: "i < n" using ij by simp
  have le: "b (int i + 1) \<le> b (int j)" using t ij unfolding tiles_def by auto
  note ri = tiles_range [OF t i] and rj = tiles_range [OF t ij(2)]
  obtain y where y: "guarded b j (Some x) = Some y" "band (b (int j)) (b (int j + 1)) x = Some y" "ok y"
    by (rule guarded_ok [OF t ij(2) x])
  obtain z where z: "guarded b i (Some x) = Some z" "band (b (int i)) (b (int i + 1)) x = Some z" "ok z"
    by (rule guarded_ok [OF t i x])
  from band_commute [OF x ri(1,2) le rj(2,3)] y z show ?thesis by (simp add: guarded_def)
qed

lemma guarded_commute:
  assumes t: "tiles b n" and ij: "i < n" "j < n"
  shows "guarded b i \<circ> guarded b j = guarded b j \<circ> guarded b i"
proof
  fix m
  show "(guarded b i \<circ> guarded b j) m = (guarded b j \<circ> guarded b i) m"
  proof (cases "\<exists>x. m = Some x \<and> ok x")
    case True
    then obtain x where "m = Some x" "ok x" by blast
    then show ?thesis
      using guarded_commute_less [OF t, of i j x] guarded_commute_less [OF t, of j i x] ij
      by (cases i j rule: linorder_cases) simp_all
  next
    case False
    then show ?thesis by (auto simp: guarded_def split: option.splits)
  qed
qed

lemma run_all_guarded:
  "tiles b n \<Longrightarrow> set order \<subseteq> {..<n} \<Longrightarrow> ok x \<Longrightarrow> run_all b order (Some x) = fold (guarded b) order (Some x)"
proof (induction order arbitrary: x)
  case (Cons i order)
  then have i: "i < n" by simp
  obtain y where y: "guarded b i (Some x) = Some y" "band (b (int i)) (b (int i + 1)) x = Some y" "ok y"
    by (rule guarded_ok [OF Cons.prems(1) i Cons.prems(3)])
  with Cons show ?case by (simp add: run_all_Cons)
qed simp

lemma run_all_upto:
  assumes t: "tiles b n" and x: "ok x"
  shows "k \<le> n \<Longrightarrow> run_all b [0..<k] (Some x) = band 0 (b (int k)) x"
proof (induction k)
  case 0
  then show ?case using t x band_empty by (simp add: tiles_def)
next
  case (Suc k)
  then have k: "k < n" by simp
  note r = tiles_range [OF t k]
  have "run_all b [0..<Suc k] (Some x) = Option.bind (band 0 (b (int k)) x) (band (b (int k)) (b (int k + 1)))"
    using Suc by (simp add: run_all_append run_all_Cons)
  also have "\<dots> = band 0 (b (int k + 1)) x" using r by (intro band_join x) auto
  finally show ?case by (simp add: add.commute)
qed

lemma any_order:
  assumes t: "tiles b n" and x: "ok x" and p: "mset order = mset [0..<n]"
  shows "run_all b order (Some x) = band 0 height x"
proof -
  have "set order = set [0..<n]" by (rule mset_eq_setD [OF p])
  then have s: "set order = {..<n}" by (simp only: atLeast_upt)
  have f: "fold (guarded b) order = fold (guarded b) [0..<n]"
    using s by (intro fold_multiset_equiv [OF _ p] guarded_commute [OF t]) simp_all
  have "run_all b order (Some x) = fold (guarded b) order (Some x)"
    using s by (intro run_all_guarded [OF t _ x]) simp
  also have "\<dots> = fold (guarded b) [0..<n] (Some x)" by (simp only: f)
  also have "\<dots> = run_all b [0..<n] (Some x)" by (rule run_all_guarded [OF t _ x, symmetric]) auto
  also have "\<dots> = band 0 (b (int n)) x" by (rule run_all_upto [OF t x]) simp
  finally show ?thesis using t by (simp add: tiles_def)
qed

end

end
