(* ===== verification/Demo_Render.thy ===== *)
theory Demo_Render
  imports Scene_Registry Worker_Pool
begin

text \<open>
  Rendering of a frame by the demo (\<^verbatim>\<open>cart/src/pstv-demo-cart.c\<close>, lines 24 to 122): the row job, the
  frame rendered on the pool or inline, and rendering into another buffer. The pool is the system
  of interleaved threads of theory \<open>Worker_Pool\<close>, so a frame is a relation between the system before
  and after. The main result is that every schedule of the pool draws the picture that the
  scene draws in one sequential pass.
\<close>

section \<open>State\<close>

text \<open>The memory of the renderer: the pixel buffers and the render context of each worker.\<close>

record demo_mem =
  px_heap :: heap
  row_contexts :: "cart_scene_render_context list"

type_synonym demo_sys = "(nat, demo_mem) pool_sys"

text \<open>The static buffers and the mapped framebuffer.\<close>

definition low :: addr where "low = 0"
definition low_from :: addr where "low_from = 1"
definition low_to :: addr where "low_to = 2"
definition display_row :: addr where "display_row = 3"
definition fb :: addr where "fb = 4"

definition low_canvas :: cart_canvas where
  "low_canvas = \<lparr>pixels = Some low, width = 320, height = 180, stride = 320\<rparr>"

definition row_slots :: "nat list" where
  "row_slots = [0..<8]"

section \<open>Operations\<close>

definition row_job :: "sine_table \<Rightarrow> cart_scene \<Rightarrow> (nat, demo_mem) job_fn" where
  "row_job sines row_scene slot y0 y1 fr m =
     (let ctx = (row_contexts m ! slot)\<lparr>row_start := y0, row_end := y1, ctx_frame := fr,
                  ctx_phase := CART_SCENE_RENDER_ROWS\<rparr>;
          m = m\<lparr>row_contexts := (row_contexts m)[slot := ctx]\<rparr>
      in do {
        f \<leftarrow> render row_scene;
        h \<leftarrow> f sines (Some ctx) (px_heap m);
        Some (m\<lparr>px_heap := h\<rparr>)
      })"

text \<open>
  The binding loop of \<^verbatim>\<open>render_frame\<close>. A context holds a pointer to the canvas; nothing changes the
  canvas between the binding and the end of the frame, so the model stores its value.
\<close>

definition bind_contexts :: "cart_canvas \<Rightarrow> int \<Rightarrow> demo_mem \<Rightarrow> demo_mem" where
  "bind_contexts c workers_used m =
     (let to_bind = (if workers_used > 0 then workers_used else 1)
      in m\<lparr>row_contexts := foldl (\<lambda>cs i. cs[i := (cs ! i)\<lparr>ctx_canvas := Some c\<rparr>]) (row_contexts m)
            [0..<nat (min to_bind CART_WORKER_POOL_MAX)]\<rparr>)"

abbreviation bound :: "cart_canvas \<Rightarrow> demo_sys \<Rightarrow> demo_sys" where
  "bound c s \<equiv> s\<lparr>mem := bind_contexts c (worker_count (pool s)) (mem s)\<rparr>"

definition draw_overlay ::
    "sine_table \<Rightarrow> cart_scene_render_fn \<Rightarrow> cart_canvas \<Rightarrow> u64 \<Rightarrow> demo_mem \<Rightarrow> demo_mem option" where
  "draw_overlay sines f c fr m = do {
     h \<leftarrow> f sines (Some \<lparr>ctx_canvas = Some c, row_start = 0, row_end = 180, ctx_frame = fr,
                        ctx_phase = CART_SCENE_RENDER_OVERLAY\<rparr>) (px_heap m);
     Some (m\<lparr>px_heap := h\<rparr>)
   }"

inductive render_frame :: "sine_table \<Rightarrow> cart_canvas \<Rightarrow> int \<Rightarrow> u64 \<Rightarrow> demo_sys \<Rightarrow> demo_sys \<Rightarrow> bool"
  for sines c which fr where
  no_scene: "cart_scene_at (of_int which) = None \<Longrightarrow> render_frame sines c which fr s s"
| no_render: "cart_scene_at (of_int which) = Some sc \<Longrightarrow> render sc = None \<Longrightarrow> render_frame sines c which fr s s"
| pooled: "cart_scene_at (of_int which) = Some sc \<Longrightarrow> render sc = Some f \<Longrightarrow> worker_count (pool s) > 0 \<Longrightarrow>
    dispatch_call (row_job sines sc) row_slots fr (bound c s) s1 \<Longrightarrow> internal_step\<^sup>*\<^sup>* s1 s2 \<Longrightarrow> main s2 = M_Idle \<Longrightarrow>
    draw_overlay sines f c fr (mem s2) = Some m \<Longrightarrow> render_frame sines c which fr s (s2\<lparr>mem := m\<rparr>)"
| refused: "cart_scene_at (of_int which) = Some sc \<Longrightarrow> render sc = Some f \<Longrightarrow> worker_count (pool s) > 0 \<Longrightarrow>
    \<not> cart_worker_pool.active (pool s) \<Longrightarrow> render_frame sines c which fr s (bound c s)"
| inline: "cart_scene_at (of_int which) = Some sc \<Longrightarrow> render sc = Some f \<Longrightarrow> worker_count (pool s) \<le> 0 \<Longrightarrow>
    row_job sines sc 0 0 180 fr (mem (bound c s)) = Some m1 \<Longrightarrow> draw_overlay sines f c fr m1 = Some m \<Longrightarrow>
    render_frame sines c which fr s (s\<lparr>mem := m\<rparr>)"

text \<open>The canvas is retargeted around the call and restored after it.\<close>

definition render_scene_into ::
    "sine_table \<Rightarrow> cart_canvas \<Rightarrow> addr \<Rightarrow> int \<Rightarrow> u64 \<Rightarrow> demo_sys \<Rightarrow> demo_sys \<Rightarrow> bool" where
  "render_scene_into sines c destination which fr = render_frame sines (c\<lparr>pixels := Some destination\<rparr>) which fr"

section \<open>A pool between dispatches\<close>

text \<open>
  What a dispatch needs of the pool. It says nothing about the memory, which the calling thread
  also writes between dispatches, nor about the last job.
\<close>

definition pool_ready :: "('s, 'w) pool_sys \<Rightarrow> bool" where
  "pool_ready s \<longleftrightarrow> main s = M_Idle \<and> set (workers s) \<subseteq> {W_AtStart, W_StartWait} \<and>
     cart_worker_pool.active (pool s) \<and> \<not> shutting_down (pool s) \<and> worker_count (pool s) = int (length (workers s)) \<and>
     0 < rows (pool s) \<and> length (workers s) \<le> 8"

lemma reachable_ready: "pool_reachable s \<Longrightarrow> main s = M_Idle \<Longrightarrow> pool_ready s"
  using reachable_inv [of s] by (simp add: pool_ready_def pool_inv_def main_inv_def Let_def)

lemma ready_mem [simp]: "pool_ready (s\<lparr>mem := m\<rparr>) = pool_ready s"
  by (simp add: pool_ready_def)

lemma ready_dispatch:
  assumes "pool_ready s" "dispatch_call f sl g s s1" "worker_count (pool s) \<noteq> 0"
  shows "pool_inv s1" "in_dispatch s1" "mem0 s1 = mem s" "length (workers s1) = length (workers s)"
    "pool s1 = (pool s)\<lparr>job := Some f, slots := take (nat (worker_count (pool s))) sl, generation := g\<rparr>"
    "nat (worker_count (pool s)) \<le> length sl" "mem s1 = mem s" "main s1 = M_AtStart"
  using assms
  by (auto elim!: dispatch_call.cases
      simp: pool_ready_def pool_inv_def main_inv_def published_def in_dispatch_def Let_def)

lemma inv_idle_ready: "pool_inv s \<Longrightarrow> main s = M_Idle \<Longrightarrow> pool_ready s"
  by (simp add: pool_ready_def pool_inv_def main_inv_def Let_def)

text \<open>The outcome of a dispatch from a ready pool: all bands, each once, in some order.\<close>

lemma ready_dispatch_outcome:
  assumes r: "pool_ready s" and d: "dispatch_call f sl g s s1" and n: "worker_count (pool s) \<noteq> 0"
    and run: "internal_step\<^sup>*\<^sup>* s1 s2" and idle: "main s2 = M_Idle"
  obtains order where "mset order = mset [0..<nat (worker_count (pool s))]" "pool s2 = pool s1" "pool_ready s2"
    "foldl (\<lambda>m i. Option.bind m (run_band (pool s1) i)) (Some (mem s)) order = Some (mem s2)"
proof -
  note s1 = ready_dispatch [OF r d n]
  from dispatch_run_frame [OF run s1(1,2)] s1 have s2: "pool_inv s2" "pool s2 = pool s1" "mem0 s2 = mem s" by auto
  have "length (workers s2) = nat (worker_count (pool s))" using s2 s1 idle by (simp add: pool_inv_def)
  with s2 s1 idle have "bands_done s2 {..<nat (worker_count (pool s))}"
    by (simp add: pool_inv_def main_inv_def Let_def)
  with bands_done_perm [OF this] s2 inv_idle_ready [OF s2(1) idle] that show thesis
    by (auto simp: bands_done_def)
qed

section \<open>Every order draws the same rows\<close>

text \<open>The row pass of a scene over a band satisfies the contract of band jobs.\<close>

definition frame_backed :: "addr \<Rightarrow> heap \<Rightarrow> bool" where
  "frame_backed a h \<longleftrightarrow> 57600 \<le> length (h a)"

definition row_pass :: "sine_table \<Rightarrow> int \<Rightarrow> u64 \<Rightarrow> addr \<Rightarrow> int \<Rightarrow> int \<Rightarrow> heap \<Rightarrow> heap option" where
  "row_pass sines which fr a y0 y1 h =
     (if sine_bounded sines \<and> 0 \<le> which \<and> which < 6
      then render_legacy_scene sines (Some (rows_context (low_canvas\<lparr>pixels := Some a\<rparr>) y0 y1 fr)) which h
      else Some h)"

lemma row_pass_fill:
  assumes "frame_backed a h" "0 \<le> y0" "y1 \<le> 180"
  shows "row_pass sines which fr a y0 y1 h =
    Some (if sine_bounded sines \<and> 0 \<le> which \<and> which < 6
      then fill a (nat (y0 * 320)) (nat (y1 * 320)) (shade (scene_pixel sines which (legacy_frame_phase fr))) h else h)"
  using assms rows_render_fill [of sines which "low_canvas\<lparr>pixels := Some a\<rparr>" a h y0 y1 fr]
  by (simp add: row_pass_def frame_backed_def)

lemma fill_backed [simp]: "frame_backed a (fill b lo hi g h) = frame_backed a h"
  by (simp add: frame_backed_def)

interpretation rowjob: band_job "row_pass sines which fr a" "frame_backed a" 180 for sines which fr a
proof
  fix h :: heap and y0 y1 y2 y3 :: int
  assume ok: "frame_backed a h"
  show "\<exists>h'. row_pass sines which fr a y0 y1 h = Some h' \<and> frame_backed a h'"
    if "0 \<le> y0" "y0 \<le> y1" "y1 \<le> 180"
    using row_pass_fill [OF ok that(1,3)] ok by (auto split: if_splits)
  show "row_pass sines which fr a y0 y0 h = Some h"
    by (simp add: row_pass_def rows_render_eq render_rows_def)
  show "Option.bind (row_pass sines which fr a y0 y1 h) (row_pass sines which fr a y1 y2) = row_pass sines which fr a y0 y2 h"
    if "0 \<le> y0" "y0 \<le> y1" "y1 \<le> y2" "y2 \<le> 180"
  proof -
    have "nat (y0 * 320) \<le> nat (y1 * 320)" "nat (y1 * 320) \<le> nat (y2 * 320)" using that by auto
    with that ok show ?thesis by (simp add: row_pass_fill fill_join)
  qed
  show "Option.bind (row_pass sines which fr a y0 y1 h) (row_pass sines which fr a y2 y3) =
      Option.bind (row_pass sines which fr a y2 y3 h) (row_pass sines which fr a y0 y1)"
    if "0 \<le> y0" "y0 \<le> y1" "y1 \<le> y2" "y2 \<le> y3" "y3 \<le> 180"
  proof -
    have "nat (y1 * 320) \<le> nat (y2 * 320)" using that by auto
    with that ok show ?thesis by (simp add: row_pass_fill fill_commute)
  qed
qed

section \<open>Dispatches return\<close>

lemma internal_mem:
  assumes "internal_step s s'"
  shows "length (workers s') = length (workers s) \<and>
    (mem s' = mem s \<or> (\<exists>i < length (workers s). run_band (pool s) i (mem s) = Some (mem s')))"
  using assms unfolding internal_step_def
proof
  assume "worker_step s s'"
  then show ?thesis by cases (auto simp: pass_start_def pass_stop_def at_def)
next
  assume "main_step s s'"
  then show ?thesis by cases (auto simp: pass_start_def pass_stop_def)
qed

text \<open>
  When the bands are defined on a set \<open>Q\<close> of memories closed under them, a dispatch in progress can
  always be run to its return.
\<close>

lemma dispatch_returns:
  assumes "pool_inv s" "in_dispatch s" "Q (mem s)"
    and "\<And>i m. i < length (workers s) \<Longrightarrow> Q m \<Longrightarrow> \<exists>m'. run_band (pool s) i m = Some m' \<and> Q m'"
  shows "\<exists>s'. internal_step\<^sup>*\<^sup>* s s' \<and> main s' = M_Idle"
  using assms
proof (induction s rule: wf_induct_rule [OF wf_pool_order])
  case (1 s)
  show ?case
  proof (cases "main s = M_Idle")
    case False
    have r: "\<not> at_rest s" using False "1.prems"(2) by (auto simp: at_rest_def in_dispatch_def)
    have "jobs_defined s" using "1.prems"(3,4) by (fastforce simp: jobs_defined_def)
    with pool_progress [OF "1.prems"(1) r] obtain s1 where st: "internal_step s s1" by blast
    note f = dispatch_step_frame [OF "1.prems"(1,2) st] internal_mem [OF st]
    have q: "Q (mem s1)" using f "1.prems"(3,4) by fastforce
    have "\<exists>s'. internal_step\<^sup>*\<^sup>* s1 s' \<and> main s' = M_Idle"
      using f q "1.prems"(4)
      by (intro "1.IH" [OF internal_step_decreases [OF st "1.prems"(1)] internal_step_inv [OF st "1.prems"(1)]]) auto
    with st show ?thesis by (meson converse_rtranclp_into_rtranclp)
  qed blast
qed

section \<open>A frame is its sequential rendering\<close>

definition render_inline :: "sine_table \<Rightarrow> cart_canvas \<Rightarrow> int \<Rightarrow> u64 \<Rightarrow> heap \<Rightarrow> heap option" where
  "render_inline sines c which fr h = do {
     h \<leftarrow> render_legacy_scene sines (Some (rows_context c 0 180 fr)) which h;
     render_legacy_scene sines (Some (overlay_context c 0 180 fr)) which h
   }"

abbreviation canvas_on :: "addr \<Rightarrow> cart_canvas" where
  "canvas_on a \<equiv> low_canvas\<lparr>pixels := Some a\<rparr>"

definition demo_ok :: "demo_sys \<Rightarrow> bool" where
  "demo_ok s \<longleftrightarrow> pool_ready s \<and> rows (pool s) = 180 \<and> length (row_contexts (mem s)) = 8"

definition ctx_bound :: "cart_canvas \<Rightarrow> nat \<Rightarrow> demo_mem \<Rightarrow> bool" where
  "ctx_bound c n m \<longleftrightarrow> length (row_contexts m) = 8 \<and> n \<le> 8 \<and> (\<forall>i<n. ctx_canvas (row_contexts m ! i) = Some c)"

lemma bind_loop:
  "k \<le> length cs \<Longrightarrow> (let cs' = foldl (\<lambda>cs i. cs[i := (cs ! i)\<lparr>ctx_canvas := Some c\<rparr>]) cs [0..<k]
    in length cs' = length cs \<and> (\<forall>i<k. ctx_canvas (cs' ! i) = Some c))"
  by (induction k) (auto simp: Let_def nth_list_update less_Suc_eq)

lemma bind_contexts_bound:
  assumes "length (row_contexts m) = 8" "n \<le> 8"
  shows "ctx_bound c (max 1 n) (bind_contexts c (int n) m)" "px_heap (bind_contexts c (int n) m) = px_heap m"
proof -
  have k: "nat (min (if int n > 0 then int n else 1) 8) = max 1 n" using assms(2) by (auto simp: max_def)
  show "ctx_bound c (max 1 n) (bind_contexts c (int n) m)" "px_heap (bind_contexts c (int n) m) = px_heap m"
    using bind_loop [of "max 1 n" "row_contexts m" c] assms
    unfolding ctx_bound_def bind_contexts_def Let_def k by auto
qed

lemma row_job_pass:
  assumes w: "sine_bounded sines" "0 \<le> which" "which < 6"
    and sc: "render sc = Some (\<lambda>sines ctx. render_legacy_scene sines ctx which)"
    and b: "ctx_bound (canvas_on a) n m" "i < n"
  shows "\<exists>cs. row_job sines sc i y0 y1 fr m =
      map_option (\<lambda>h. m\<lparr>px_heap := h, row_contexts := cs\<rparr>) (row_pass sines which fr a y0 y1 (px_heap m)) \<and>
    ctx_bound (canvas_on a) n (m\<lparr>row_contexts := cs\<rparr>)"
proof -
  let ?ctx = "(row_contexts m ! i)\<lparr>row_start := y0, row_end := y1, ctx_frame := fr, ctx_phase := CART_SCENE_RENDER_ROWS\<rparr>"
  have c: "ctx_canvas (row_contexts m ! i) = Some (canvas_on a)" using b by (simp add: ctx_bound_def)
  have "?ctx = rows_context (canvas_on a) y0 y1 fr" using c by (cases "row_contexts m ! i") simp
  then have "row_job sines sc i y0 y1 fr m =
      map_option (\<lambda>h. m\<lparr>px_heap := h, row_contexts := (row_contexts m)[i := ?ctx]\<rparr>)
        (row_pass sines which fr a y0 y1 (px_heap m))"
    using w by (simp add: row_job_def sc row_pass_def Let_def map_option_case split: option.split bind_splits)
  moreover have "ctx_bound (canvas_on a) n (m\<lparr>row_contexts := (row_contexts m)[i := ?ctx]\<rparr>)"
    using b c by (auto simp: ctx_bound_def nth_list_update)
  ultimately show ?thesis by blast
qed

text \<open>The bands of the workers, as the pool computes them.\<close>

definition demo_band :: "int \<Rightarrow> int \<Rightarrow> int" where
  "demo_band n i = i * 180 div n"

lemma demo_tiles: "0 < n \<Longrightarrow> rowjob.tiles (demo_band (int n)) n"
  unfolding rowjob.tiles_def demo_band_def by (auto intro!: zdiv_mono1)

lemma run_band_row:
  assumes "worker_count p = int n" "rows p = 180" "job p = Some (row_job sines sc)" "slots p = take n row_slots"
    "generation p = fr" "i < n" "n \<le> 8"
  shows "run_band p i m = row_job sines sc i (demo_band (int n) (int i)) (demo_band (int n) (int i + 1)) fr m"
proof -
  have "worker_band p (int i) = Some (demo_band (int n) (int i), demo_band (int n) (int i + 1))"
    using worker_band_eq [of p "int i"] assms by (simp add: demo_band_def)
  moreover have "slots p ! i = i" using assms by (simp add: row_slots_def)
  ultimately show ?thesis using assms by (simp add: run_band_def)
qed

lemma run_order:
  assumes w: "sine_bounded sines" "0 \<le> which" "which < 6"
    and sc: "render sc = Some (\<lambda>sines ctx. render_legacy_scene sines ctx which)"
    and p: "\<And>i m. i < n \<Longrightarrow> run_band p i m = row_job sines sc i (b (int i)) (b (int i + 1)) fr m"
  shows "ctx_bound (canvas_on a) n m \<Longrightarrow> \<forall>i\<in>set order. i < n \<Longrightarrow>
    foldl (\<lambda>m i. Option.bind m (run_band p i)) (Some m) order = Some m' \<Longrightarrow>
    rowjob.run_all sines which fr a b order (Some (px_heap m)) = Some (px_heap m') \<and> ctx_bound (canvas_on a) n m'"
proof (induction order arbitrary: m)
  case (Cons i order)
  have i: "i < n" using Cons.prems(2) by simp
  from row_job_pass [OF w sc Cons.prems(1) i, of "b (int i)" "b (int i + 1)" fr] obtain cs where
    cs: "run_band p i m = map_option (\<lambda>h. m\<lparr>px_heap := h, row_contexts := cs\<rparr>)
        (row_pass sines which fr a (b (int i)) (b (int i + 1)) (px_heap m))"
      "ctx_bound (canvas_on a) n (m\<lparr>row_contexts := cs\<rparr>)"
    using p [OF i] by auto
  have "run_band p i m \<noteq> None"
  proof
    assume "run_band p i m = None"
    moreover have "foldl (\<lambda>m i. Option.bind m (run_band p i)) None xs = None" for xs by (induction xs) simp_all
    ultimately show False using Cons.prems(3) by simp
  qed
  with cs obtain h where h: "row_pass sines which fr a (b (int i)) (b (int i + 1)) (px_heap m) = Some h"
    "run_band p i m = Some (m\<lparr>px_heap := h, row_contexts := cs\<rparr>)" by auto
  have "ctx_bound (canvas_on a) n (m\<lparr>px_heap := h, row_contexts := cs\<rparr>)" using cs(2) by (simp add: ctx_bound_def)
  from Cons.IH [OF this] Cons.prems(2,3) h show ?case by (simp add: rowjob.run_all_Cons)
qed simp

lemma scene_of:
  assumes "0 \<le> which" "which < 6"
  obtains sc where "cart_scene_at (of_int which) = Some sc"
    "render sc = Some (\<lambda>sines ctx. render_legacy_scene sines ctx which)"
proof -
  have u: "uint (of_int which :: size_t) = which" using assms by (simp add: uint_word_of_int)
  then have "(of_int which :: size_t) < 6" using assms by (simp add: word_less_def)
  from scene_renders [OF this] u that show thesis by auto
qed

lemma canvas_on_valid: "cart_canvas_valid (Some (canvas_on a))" "backed (canvas_on a) h \<longleftrightarrow> frame_backed a h"
  by (simp_all add: cart_canvas_valid_def low_canvas_def backed_def frame_backed_def)

lemma overlay_returns:
  assumes "sine_bounded sines" "0 \<le> which" "which < 6" "frame_backed a (px_heap m)"
  obtains h where "render_legacy_scene sines (Some (overlay_context (canvas_on a) 0 180 fr)) which (px_heap m) = Some h"
    "draw_overlay sines (\<lambda>sines ctx. render_legacy_scene sines ctx which) (canvas_on a) fr m = Some (m\<lparr>px_heap := h\<rparr>)"
    "\<And>b. length (h b) = length (px_heap m b)" "\<And>b. b \<noteq> a \<Longrightarrow> h b = px_heap m b"
proof -
  have "draws (canvas_on a) (overlay sines (canvas_on a) which (legacy_frame_phase fr))"
    by (rule draws_overlay [OF canvas_on_valid(1) assms(1) frame_phase_range])
  then obtain h where "overlay sines (canvas_on a) which (legacy_frame_phase fr) (px_heap m) = Some h"
    "\<forall>b. length (h b) = length (px_heap m b)" "\<forall>b. b \<noteq> a \<longrightarrow> h b = px_heap m b"
    using assms(4) unfolding draws_def canvas_on_valid(2) by auto
  with assms(2,3) that show thesis by (simp add: draw_overlay_def render_legacy_scene_def Let_def)
qed

lemma render_inline_defined:
  assumes "sine_bounded sines" "0 \<le> which" "which < 6" "frame_backed a h"
  obtains h' where "render_inline sines (canvas_on a) which fr h = Some h'"
    "\<And>b. length (h' b) = length (h b)" "\<And>b. b \<noteq> a \<Longrightarrow> h' b = h b"
proof -
  let ?h = "fill a 0 57600 (shade (scene_pixel sines which (legacy_frame_phase fr))) h"
  have rows: "render_legacy_scene sines (Some (rows_context (canvas_on a) 0 180 fr)) which h = Some ?h"
    using rows_render_fill [of sines which "canvas_on a" a h 0 180 fr] assms by (simp add: frame_backed_def)
  have fb: "frame_backed a (px_heap \<lparr>px_heap = ?h, row_contexts = []\<rparr>)" using assms(4) by simp
  obtain h' where
    "render_legacy_scene sines (Some (overlay_context (canvas_on a) 0 180 fr)) which ?h = Some h'"
    "\<And>b. length (h' b) = length (?h b)" "\<And>b. b \<noteq> a \<Longrightarrow> h' b = ?h b"
    by (rule overlay_returns [OF assms(1-3) fb, of fr]) simp
  with rows that show thesis by (simp add: render_inline_def)
qed

lemma render_inline_split:
  assumes "sine_bounded sines" "0 \<le> which" "which < 6" "row_pass sines which fr a 0 180 h = Some h1"
    "draw_overlay sines (\<lambda>sines ctx. render_legacy_scene sines ctx which) (canvas_on a) fr m1 = Some m" "px_heap m1 = h1"
  shows "render_inline sines (canvas_on a) which fr h = Some (px_heap m) \<and> row_contexts m = row_contexts m1"
  using assms by (auto simp: render_inline_def row_pass_def draw_overlay_def split: bind_splits)

lemma pooled_frame:
  assumes w: "sine_bounded sines" "0 \<le> which" "which < 6"
    and sc: "render sc = Some (\<lambda>sines ctx. render_legacy_scene sines ctx which)"
    and s: "demo_ok s" "frame_backed a (px_heap (mem s))" and n: "worker_count (pool s) > 0"
    and d: "dispatch_call (row_job sines sc) row_slots fr (bound (canvas_on a) s) s1"
    and run: "internal_step\<^sup>*\<^sup>* s1 s2" "main s2 = M_Idle"
  shows "row_pass sines which fr a 0 180 (px_heap (mem s)) = Some (px_heap (mem s2))"
    "demo_ok s2" "worker_count (pool s2) = worker_count (pool s)"
proof -
  define k where "k = length (workers s)"
  have r: "pool_ready (bound (canvas_on a) s)" using s(1) by (simp add: demo_ok_def)
  have k: "worker_count (pool s) = int k" "k \<le> 8" "0 < k" using s(1) n by (auto simp: demo_ok_def pool_ready_def k_def)
  have ne: "worker_count (pool (bound (canvas_on a) s)) \<noteq> 0" using n by simp
  note s1 = ready_dispatch [OF r d ne]
  from ready_dispatch_outcome [OF r d ne run] obtain order where
    o: "mset order = mset [0..<nat (worker_count (pool (bound (canvas_on a) s)))]" "pool s2 = pool s1" "pool_ready s2"
    "foldl (\<lambda>m i. Option.bind m (run_band (pool s1) i)) (Some (mem (bound (canvas_on a) s))) order = Some (mem s2)" .
  have ord: "mset order = mset [0..<k]" using o(1) k by simp
  have lt: "\<forall>i\<in>set order. i < k" using mset_eq_setD [OF ord] by simp
  have band: "run_band (pool s1) i m =
      row_job sines sc i (demo_band (int k) (int i)) (demo_band (int k) (int i + 1)) fr m" if "i < k" for i m
    by (rule run_band_row) (use that s1(5) s(1) k in \<open>simp_all add: demo_ok_def\<close>)
  have b: "ctx_bound (canvas_on a) k (mem (bound (canvas_on a) s))"
    "px_heap (mem (bound (canvas_on a) s)) = px_heap (mem s)"
    using bind_contexts_bound [of "mem s" k "canvas_on a"] s(1) k by (simp_all add: demo_ok_def ctx_bound_def)
  from run_order [OF w sc band b(1) lt o(4)] b(2) have
    "rowjob.run_all sines which fr a (demo_band (int k)) order (Some (px_heap (mem s))) = Some (px_heap (mem s2))"
    "ctx_bound (canvas_on a) k (mem s2)" by auto
  with rowjob.any_order [OF demo_tiles [OF k(3)] s(2) ord]
  show "row_pass sines which fr a 0 180 (px_heap (mem s)) = Some (px_heap (mem s2))" by metis
  show "demo_ok s2" "worker_count (pool s2) = worker_count (pool s)"
    using o(2,3) s1(5) s(1) \<open>ctx_bound (canvas_on a) k (mem s2)\<close> by (simp_all add: demo_ok_def ctx_bound_def)
qed

lemma demo_ok_mem: "demo_ok s \<Longrightarrow> length (row_contexts m) = 8 \<Longrightarrow> demo_ok (s\<lparr>mem := m\<rparr>)"
  by (simp add: demo_ok_def)

lemma frame_outcome:
  assumes w: "sine_bounded sines" "0 \<le> which" "which < 6"
    and s: "demo_ok s" "frame_backed a (px_heap (mem s))"
    and f: "render_frame sines (canvas_on a) which fr s s'"
  shows "render_inline sines (canvas_on a) which fr (px_heap (mem s)) = Some (px_heap (mem s')) \<and> demo_ok s' \<and>
    worker_count (pool s') = worker_count (pool s)"
proof -
  obtain sc0 where sc0: "cart_scene_at (of_int which) = Some sc0"
    "render sc0 = Some (\<lambda>sines ctx. render_legacy_scene sines ctx which)" by (rule scene_of [OF w(2,3)])
  from f show ?thesis
  proof cases
    case (pooled sc g s1 s2 m)
    then have g: "g = (\<lambda>sines ctx. render_legacy_scene sines ctx which)"
      "render sc = Some (\<lambda>sines ctx. render_legacy_scene sines ctx which)" using sc0 by auto
    note p = pooled_frame [OF w g(2) s pooled(4-7)]
    from render_inline_split [OF w p(1) pooled(8) [unfolded g(1)] refl] p(2,3) pooled(1) show ?thesis
      by (simp add: demo_ok_def)
  next
    case (inline sc g m1 m)
    then have g: "g = (\<lambda>sines ctx. render_legacy_scene sines ctx which)"
      "render sc = Some (\<lambda>sines ctx. render_legacy_scene sines ctx which)" using sc0 by auto
    have k: "worker_count (pool s) = int 0" using s(1) inline(4) by (auto simp: demo_ok_def pool_ready_def)
    have b: "ctx_bound (canvas_on a) 1 (mem (bound (canvas_on a) s))" "px_heap (mem (bound (canvas_on a) s)) = px_heap (mem s)"
      using bind_contexts_bound [of "mem s" 0 "canvas_on a"] s(1) k by (simp_all add: demo_ok_def)
    obtain h cs where
      "row_pass sines which fr a 0 180 (px_heap (mem s)) = Some h" "length cs = 8"
      "m1 = (mem (bound (canvas_on a) s))\<lparr>px_heap := h, row_contexts := cs\<rparr>"
    proof -
      obtain cs where "row_job sines sc 0 0 180 fr (mem (bound (canvas_on a) s)) =
          map_option (\<lambda>h. (mem (bound (canvas_on a) s))\<lparr>px_heap := h, row_contexts := cs\<rparr>)
            (row_pass sines which fr a 0 180 (px_heap (mem s)))" "length cs = 8"
        using row_job_pass [OF w g(2) b(1), of 0 0 180 fr] b(2) by (auto simp: ctx_bound_def)
      with inline(5) that show thesis by (cases "row_pass sines which fr a 0 180 (px_heap (mem s))") auto
    qed
    then have "row_pass sines which fr a 0 180 (px_heap (mem s)) = Some (px_heap m1)" "row_contexts m1 = cs" "length cs = 8"
      by simp_all
    from render_inline_split [OF w this(1) inline(6) [unfolded g(1)] refl] this(2,3) inline(1) s(1) show ?thesis
      by (simp add: demo_ok_def)
  qed (use sc0 s(1) in \<open>simp_all add: demo_ok_def pool_ready_def\<close>)
qed

lemma row_job_defined:
  assumes w: "sine_bounded sines" "0 \<le> which" "which < 6" and f: "render sc = Some (\<lambda>sines ctx. render_legacy_scene sines ctx which)"
    and m: "i < n" "ctx_bound (canvas_on a) n m" "frame_backed a (px_heap m)" and y: "0 \<le> y0" "y0 \<le> y1" "y1 \<le> 180"
  shows "\<exists>m'. row_job sines sc i y0 y1 fr m = Some m' \<and> ctx_bound (canvas_on a) n m' \<and> frame_backed a (px_heap m')"
  using row_job_pass [OF w f m(2,1), of y0 y1 fr] rowjob.band_ok [OF m(3) y, of sines which fr]
  by (auto simp: ctx_bound_def)

lemma pooled_rows_return:
  assumes w: "sine_bounded sines" "0 \<le> which" "which < 6" and f: "render sc = Some (\<lambda>sines ctx. render_legacy_scene sines ctx which)"
    and s: "demo_ok s" "frame_backed a (px_heap (mem s))" and n: "worker_count (pool s) > 0"
  shows "\<exists>s1 s2. dispatch_call (row_job sines sc) row_slots fr (bound (canvas_on a) s) s1 \<and> internal_step\<^sup>*\<^sup>* s1 s2 \<and> main s2 = M_Idle"
proof -
  define k where "k = length (workers s)"
  have k: "worker_count (pool s) = int k" "k \<le> 8" "0 < k" using s(1) n by (auto simp: demo_ok_def pool_ready_def k_def)
  have r: "pool_ready (bound (canvas_on a) s)" and n': "worker_count (pool (bound (canvas_on a) s)) \<noteq> 0"
    using s(1) n by (simp_all add: demo_ok_def)
  obtain s1 where d: "dispatch_call (row_job sines sc) row_slots fr (bound (canvas_on a) s) s1"
    using dispatch_publish [of "bound (canvas_on a) s" row_slots] r n' k by (auto simp: pool_ready_def row_slots_def)
  note s1 = ready_dispatch [OF r d n']
  define Q where "Q m \<longleftrightarrow> ctx_bound (canvas_on a) k m \<and> frame_backed a (px_heap m)" for m
  have t: "0 \<le> demo_band (int k) (int i)" "demo_band (int k) (int i) \<le> demo_band (int k) (int i + 1)"
    "demo_band (int k) (int i + 1) \<le> 180" if "i < k" for i
    using rowjob.tiles_range [OF demo_tiles that] k(3) by auto
  have "\<exists>m'. run_band (pool s1) i m = Some m' \<and> Q m'" if "i < k" "Q m" for i m
  proof -
    have "run_band (pool s1) i m = row_job sines sc i (demo_band (int k) (int i)) (demo_band (int k) (int i + 1)) fr m"
      by (rule run_band_row) (use that s1(5) s(1) k in \<open>simp_all add: demo_ok_def\<close>)
    with row_job_defined [OF w f that(1) _ _ t [OF that(1)]] that(2) show ?thesis by (auto simp: Q_def)
  qed
  moreover have "Q (mem s1)"
    using s1(7) bind_contexts_bound [of "mem s" k "canvas_on a"] s k by (simp add: Q_def demo_ok_def max_def split: if_splits)
  moreover have "length (workers s1) = k" using s1(4) by (simp add: k_def)
  ultimately show ?thesis using dispatch_returns [OF s1(1,2), of Q] d by auto
qed

lemma frame_exists:
  assumes w: "sine_bounded sines" "0 \<le> which" "which < 6"
    and s: "demo_ok s" "frame_backed a (px_heap (mem s))"
  shows "\<exists>s'. render_frame sines (canvas_on a) which fr s s'"
proof -
  obtain sc where sc: "cart_scene_at (of_int which) = Some sc"
    "render sc = Some (\<lambda>sines ctx. render_legacy_scene sines ctx which)" by (rule scene_of [OF w(2,3)])
  have k: "worker_count (pool s) = int (length (workers s))" using s(1) by (simp add: demo_ok_def pool_ready_def)
  show ?thesis
  proof (cases "workers s = []")
    case True
    have "ctx_bound (canvas_on a) 1 (mem (bound (canvas_on a) s))" "frame_backed a (px_heap (mem (bound (canvas_on a) s)))"
      using bind_contexts_bound [of "mem s" 0 "canvas_on a"] s k True by (simp_all add: demo_ok_def)
    from row_job_defined [OF w sc(2) _ this, of 0 0 180] obtain m1 where
      m1: "row_job sines sc 0 0 180 fr (mem (bound (canvas_on a) s)) = Some m1" "frame_backed a (px_heap m1)" by auto
    obtain h where "draw_overlay sines (\<lambda>sines ctx. render_legacy_scene sines ctx which) (canvas_on a) fr m1 = Some (m1\<lparr>px_heap := h\<rparr>)"
      by (rule overlay_returns [OF w m1(2)])
    from inline [OF sc _ m1(1) this] k True show ?thesis by auto
  next
    case False
    then have n: "worker_count (pool s) > 0" using k by simp
    obtain s1 s2 where d: "dispatch_call (row_job sines sc) row_slots fr (bound (canvas_on a) s) s1" "internal_step\<^sup>*\<^sup>* s1 s2" "main s2 = M_Idle"
      using pooled_rows_return [OF w sc(2) s n] by blast
    have "frame_backed a (px_heap (mem s2))"
      using rowjob.band_ok [OF s(2), of 0 180 sines which fr] pooled_frame [OF w sc(2) s n d] by auto
    then obtain h where "draw_overlay sines (\<lambda>sines ctx. render_legacy_scene sines ctx which) (canvas_on a) fr (mem s2)
        = Some ((mem s2)\<lparr>px_heap := h\<rparr>)" by (rule overlay_returns [OF w])
    from pooled [OF sc n d this] show ?thesis by blast
  qed
qed


text \<open>An idle system with two workers for the example.\<close>

definition idle_pair :: demo_sys where
  "idle_pair = \<lparr>pool = (fresh_pool 2 180)\<lparr>cart_worker_pool.active := True, startup_ready := True, startup_released := 2\<rparr>,
     objects = {Startup_Mutex, Startup_Cond, Start_Barrier, Stop_Barrier}, workers = [W_AtStart, W_StartWait],
     main = M_Idle, mem = \<lparr>px_heap = (\<lambda>_. replicate 57600 0), row_contexts =
       replicate 8 \<lparr>ctx_canvas = None, row_start = 0, row_end = 0, ctx_frame = 0, ctx_phase = CART_SCENE_RENDER_ROWS\<rparr>\<rparr>,
     ran = [], mem0 = \<lparr>px_heap = (\<lambda>_. []), row_contexts = []\<rparr>\<rparr>"


end
