(* ===== verification/V01_Scenes.thy ===== *)
theory V01_Scenes
  imports Demo_Render
begin

text \<open>
  The drawing code of the first release (\<^verbatim>\<open>cart/provenance/v0.1/pstv-demo-cart.c\<close>, lines 18 to 312),
  which drew straight into the static array \<^verbatim>\<open>low\<close>, clipped by hand in 32-bit arithmetic and
  started four threads for every frame. The scene file of the current tree claims to keep this
  drawing body literally while binding it to a canvas; the theory transcribes the old body on its own
  primitives and proves that every frame it draws is the frame of the current renderer, whatever
  the order in which the threads' pixel stores reach the array. The sine table is the parameter of
  theory \<open>Legacy_Scenes\<close>; both files fill it with the same expression.
\<close>

section \<open>Primitives\<close>

definition v01_PAL :: "u32 list" where
  "v01_PAL = [0xffb8a9f5, 0xffe8d6ff, 0xffffffff, 0xffface5b, 0xffe8bc49,
              0xffff8cc5, 0xffff6c9d, 0xffc8f7ff, 0xffa82a6b, 0xffa147f4]"

abbreviation v01_pal :: "int \<Rightarrow> u32" where "v01_pal i \<equiv> v01_PAL ! nat i"

definition v01_rgba :: "int \<Rightarrow> int \<Rightarrow> int \<Rightarrow> u32" where
  "v01_rgba r g b =
     (let r = (if r < 0 then 0 else r); r = (if r > 255 then 255 else r);
          g = (if g < 0 then 0 else g); g = (if g > 255 then 255 else g);
          b = (if b < 0 then 0 else b); b = (if b > 255 then 255 else b)
      in of_int r OR push_bit 8 (of_int g) OR push_bit 16 (of_int b) OR 0xff000000)"

definition v01_si :: "sine_table \<Rightarrow> int \<Rightarrow> int" where
  "v01_si sines x = sines (nat (x AND 2047))"

text \<open>The weight is used as it is: it is not limited to 256, and the products may overflow.\<close>

definition v01_mix :: "u32 \<Rightarrow> u32 \<Rightarrow> int \<Rightarrow> u32 option" where
  "v01_mix a b t =
     (let ar = uint (a AND 255); ag = uint (drop_bit 8 a AND 255); ab = uint (drop_bit 16 a AND 255);
          br = uint (b AND 255); bg = uint (drop_bit 8 b AND 255); bb = uint (drop_bit 16 b AND 255)
      in chk [(br - ar) * t, (bg - ag) * t, (bb - ab) * t]
           (v01_rgba (ar + drop_bit 8 ((br - ar) * t)) (ag + drop_bit 8 ((bg - ag) * t))
                     (ab + drop_bit 8 ((bb - ab) * t))))"

text \<open>\<^verbatim>\<open>low[y * LW + x] = c\<close>, an access outside the array being undefined.\<close>

definition v01_store :: "int \<Rightarrow> int \<Rightarrow> u32 \<Rightarrow> draw" where
  "v01_store x y c h =
     (if in_i32 (y * LW) \<and> in_i32 (y * LW + x) \<and> 0 \<le> y * LW + x then poke low (nat (y * LW + x)) c h else None)"

definition v01_px :: "int \<Rightarrow> int \<Rightarrow> u32 \<Rightarrow> draw" where
  "v01_px x y c h =
     (if \<not> (in_i32 x \<and> in_i32 y) then None
      else if (of_int x :: u32) < 320 \<and> (of_int y :: u32) < 180 then v01_store x y c h else Some h)"

definition v01_rect :: "int \<Rightarrow> int \<Rightarrow> int \<Rightarrow> int \<Rightarrow> u32 \<Rightarrow> draw" where
  "v01_rect x y w ht c h =
     (if \<not> list_all in_i32 [x, y, w, ht, x + w, y + ht] then None
      else let x0 = (if x < 0 then 0 else x); y0 = (if y < 0 then 0 else y);
               x1 = (if x + w > LW then LW else x + w); y1 = (if y + ht > LH then LH else y + ht)
           in for_int y0 y1 (\<lambda>yy. for_int x0 x1 (\<lambda>xx. v01_store xx yy c)) h)"

definition v01_circle :: "int \<Rightarrow> int \<Rightarrow> int \<Rightarrow> u32 \<Rightarrow> draw" where
  "v01_circle cx cy r c h =
     (if \<not> list_all in_i32 [cx, cy, r, r * r] then None
      else for_int (- r) (r + 1) (\<lambda>y. for_int (- r) (r + 1) (\<lambda>x h.
             if \<not> list_all in_i32 [x * x, y * y, x * x + y * y] then None
             else if x * x + y * y \<le> r * r then v01_px (cx + x) (cy + y) c h else Some h)) h)"

section \<open>Shapes and text\<close>

definition v01_shape :: "string list" where
  "v01_shape = [''01100110'', ''11111111'', ''11111111'', ''11111111'',
                ''01111110'', ''00111100'', ''00011000'', ''00000000'']"

abbreviation v01_cell :: "int \<Rightarrow> int \<Rightarrow> char" where
  "v01_cell y x \<equiv> v01_shape ! nat y ! nat x"

definition v01_heart :: "int \<Rightarrow> int \<Rightarrow> int \<Rightarrow> u32 \<Rightarrow> u32 \<Rightarrow> draw" where
  "v01_heart cx cy s c edge = draw_all
     [for_int 0 8 (\<lambda>y. for_int 0 8 (\<lambda>x.
        if v01_cell y x = CHR ''1'' then
          let border = (x = 0 \<or> x = 7 \<or> y = 0 \<or> y = 6 \<or>
                        (x > 0 \<and> v01_cell y (x - 1) = CHR ''0'') \<or>
                        (x < 7 \<and> v01_cell y (x + 1) = CHR ''0'') \<or>
                        (y > 0 \<and> v01_cell (y - 1) x = CHR ''0''))
          in v01_rect (cx + (x - 4) * s) (cy + (y - 3) * s) s s (if border then edge else c)
        else Some)),
      (if s > 1 then v01_rect (cx - 2 * s) (cy - 2 * s) s s 0xffffffff else Some)]"

definition v01_star :: "int \<Rightarrow> int \<Rightarrow> int \<Rightarrow> u32 \<Rightarrow> draw" where
  "v01_star cx cy r c = for_int (- r) (r + 1) (\<lambda>i. draw_all
     [v01_px (cx + i) cy c, v01_px cx (cy + i) c,
      if \<bar>i\<bar> < r sdiv 2 + 1 then draw_all [v01_px (cx + i) (cy + i) c, v01_px (cx + i) (cy - i) c] else Some])"

definition v01_flower :: "int \<Rightarrow> int \<Rightarrow> int \<Rightarrow> u32 \<Rightarrow> u32 \<Rightarrow> draw" where
  "v01_flower cx cy s petal centre = draw_all
     [v01_circle (cx - s) cy s petal, v01_circle (cx + s) cy s petal,
      v01_circle cx (cy - s) s petal, v01_circle cx (cy + s) s petal,
      v01_circle cx cy s centre]"

definition v01_FONT :: "int list list" where
  "v01_FONT =
    [[14,17,17,31,17,17,17],[30,17,17,30,17,17,30],[14,17,16,16,16,17,14],
     [30,17,17,17,17,17,30],[31,16,16,30,16,16,31],[31,16,16,30,16,16,16],
     [14,17,16,23,17,17,15],[17,17,17,31,17,17,17],[14,4,4,4,4,4,14],
     [7,2,2,2,18,18,12],[17,18,20,24,20,18,17],[16,16,16,16,16,16,31],
     [17,27,21,21,17,17,17],[17,25,21,19,17,17,17],[14,17,17,17,17,17,14],
     [30,17,17,30,16,16,16],[14,17,17,17,21,18,13],[30,17,17,30,20,18,17],
     [15,16,16,14,1,1,30],[31,4,4,4,4,4,4],[17,17,17,17,17,17,14],
     [17,17,17,17,17,10,4],[17,17,17,21,21,21,10],[17,17,10,4,10,17,17],
     [17,17,10,4,4,4,4],[31,1,2,4,8,16,31],
     [14,17,19,21,25,17,14],[4,12,4,4,4,4,14],[14,17,1,2,4,8,31],
     [30,1,1,14,1,1,30],[2,6,10,18,31,2,2],[31,16,16,30,1,1,30],
     [14,16,16,30,17,17,14],[31,1,2,4,8,8,8],[14,17,17,14,17,17,14],
     [14,17,17,15,1,1,14],[0,0,0,0,0,0,0]]"

definition v01_font_index :: "char \<Rightarrow> nat" where
  "v01_font_index ch =
     (let v = of_char ch
      in if 65 \<le> v \<and> v \<le> 90 then v - 65 else if 48 \<le> v \<and> v \<le> 57 then 26 + v - 48 else 36)"

text \<open>The body of the character loop of \<^verbatim>\<open>text\<close>, the loop, and the call that draws the shadow first.\<close>

definition v01_glyph :: "int \<Rightarrow> int \<Rightarrow> char \<Rightarrow> int \<Rightarrow> u32 \<Rightarrow> draw" where
  "v01_glyph x y ch scale c = for_int 0 7 (\<lambda>yy. for_int 0 5 (\<lambda>xx.
     if (v01_FONT ! v01_font_index ch ! nat yy) AND push_bit (nat (4 - xx)) 1 \<noteq> 0
     then v01_rect (x + xx * scale) (y + yy * scale) scale scale c else Some))"

fun v01_text_run :: "int \<Rightarrow> int \<Rightarrow> string \<Rightarrow> int \<Rightarrow> u32 \<Rightarrow> draw" where
  "v01_text_run x y [] scale c h = Some h"
| "v01_text_run x y (ch # s) scale c h = do {
     h \<leftarrow> (if ch = CHR '' '' then Some h else v01_glyph x y ch scale c h);
     v01_text_run (x + 6 * scale) y s scale c h
   }"

definition v01_text :: "int \<Rightarrow> int \<Rightarrow> string \<Rightarrow> int \<Rightarrow> u32 \<Rightarrow> u32 \<Rightarrow> draw" where
  "v01_text x y s scale c shadow = draw_all
     [if shadow \<noteq> 0 then v01_text_run (x + scale) (y + scale) s scale shadow else Some,
      v01_text_run x y s scale c]"

definition v01_text_center :: "int \<Rightarrow> string \<Rightarrow> int \<Rightarrow> u32 \<Rightarrow> u32 \<Rightarrow> draw" where
  "v01_text_center y s scale c shadow =
     (let w = (int (length s) * 6 - 1) * scale
      in v01_text ((LW - w) sdiv 2) y s scale c shadow)"

section \<open>Row passes\<close>

text \<open>The pixel each scene computes, with the \<^verbatim>\<open>int\<close> values on the way that have to fit.\<close>

definition v01_candy_pixel :: "sine_table \<Rightarrow> int \<Rightarrow> int \<Rightarrow> int \<Rightarrow> u32 option" where
  "v01_candy_pixel sines t x y =
     (let dx = x - 160; dy = y - 90;
          d = drop_bit 4 (dx * dx + dy * dy);
          warp = v01_si sines ((x * 9 + t * 11) AND 2047) + v01_si sines ((y * 13 - t * 7) AND 2047);
          band = drop_bit 4 (d + drop_bit 7 warp - t * 8) AND 7;
          a = v01_pal (band mod 5); b = v01_pal ((band + 1) mod 5)
      in if list_all in_i32 [dx * dx, dy * dy, dx * dx + dy * dy, x * 9, t * 11, x * 9 + t * 11, y * 13, t * 7,
              y * 13 - t * 7, warp, d + drop_bit 7 warp, t * 8, d + drop_bit 7 warp - t * 8,
              d * 5, t * 17, d * 5 + t * 17]
         then v01_mix a b (drop_bit 3 (v01_si sines (d * 5 + t * 17) + 1024)) else None)"

definition v01_checker_pixel :: "sine_table \<Rightarrow> int \<Rightarrow> int \<Rightarrow> int \<Rightarrow> u32 option" where
  "v01_checker_pixel sines t x y =
     (let yy = y + drop_bit 8 (v01_si sines (x * 10 + t * 14));
          xx = x + drop_bit 8 (v01_si sines (y * 13 - t * 9));
          q = (drop_bit 3 xx XOR drop_bit 3 yy) AND 1;
          glow = drop_bit 4 (v01_si sines (x * 6 + y * 8 + t * 12) + 1024)
      in if list_all in_i32 [x * 10, t * 14, x * 10 + t * 14, y * 13, t * 9, y * 13 - t * 9, yy, xx,
              x * 6, y * 8, x * 6 + y * 8, t * 12, x * 6 + y * 8 + t * 12]
         then v01_mix (if q \<noteq> 0 then v01_pal 0 else v01_pal 4) (if q \<noteq> 0 then v01_pal 2 else v01_pal 5) glow
         else None)"

definition v01_bx :: "sine_table \<Rightarrow> int \<Rightarrow> int \<Rightarrow> int" where
  "v01_bx sines t i = 160 + drop_bit 10 (v01_si sines (t * (7 + i) + i * 273) * (45 + i * 5))"

definition v01_by :: "sine_table \<Rightarrow> int \<Rightarrow> int \<Rightarrow> int" where
  "v01_by sines t i = 90 + drop_bit 10 (v01_si sines (t * (9 + i) + i * 411) * (28 + i * 4))"

text \<open>The loop that fills \<^verbatim>\<open>bx\<close> and \<^verbatim>\<open>by\<close> before the first pixel is defined.\<close>

definition v01_centres_ok :: "sine_table \<Rightarrow> int \<Rightarrow> bool" where
  "v01_centres_ok sines t = list_all (\<lambda>i. list_all in_i32
     [t * (7 + i), t * (7 + i) + i * 273, v01_si sines (t * (7 + i) + i * 273) * (45 + i * 5), v01_bx sines t i,
      t * (9 + i), t * (9 + i) + i * 411, v01_si sines (t * (9 + i) + i * 411) * (28 + i * 4), v01_by sines t i])
     [0..6]"

fun v01_field :: "sine_table \<Rightarrow> int \<Rightarrow> int \<Rightarrow> int \<Rightarrow> int list \<Rightarrow> int \<Rightarrow> int option" where
  "v01_field sines t x y [] field = Some field"
| "v01_field sines t x y (i # is) field =
     (let dx = x - v01_bx sines t i; dy = y - v01_by sines t i;
          term = (9000 + i * 700) sdiv (18 + dx * dx + dy * dy)
      in if list_all in_i32 [dx, dy, dx * dx, 18 + dx * dx, dy * dy, 18 + dx * dx + dy * dy,
              field + term] \<and> 18 + dx * dx + dy * dy \<noteq> 0
         then v01_field sines t x y is (field + term) else None)"

definition v01_bubbles_pixel :: "sine_table \<Rightarrow> int \<Rightarrow> int \<Rightarrow> int \<Rightarrow> u32 option" where
  "v01_bubbles_pixel sines t x y = do {
     field \<leftarrow> v01_field sines t x y [0..6] 0;
     let wave = drop_bit 5 (v01_si sines (x * 8 - y * 6 + t * 18) + 1024);
     if list_all in_i32 ([x * 8, y * 6, x * 8 - y * 6, t * 18, x * 8 - y * 6 + t * 18] @
          (if field > 22 then [field * 9, field * 9 + wave] else []))
     then if field > 22 then v01_mix (v01_pal 1) (v01_pal 5) ((field * 9 + wave) AND 255)
          else v01_mix (v01_pal 8) (v01_pal 6) wave
     else None
   }"

definition v01_ribbons_pixel :: "sine_table \<Rightarrow> int \<Rightarrow> int \<Rightarrow> int \<Rightarrow> u32 option" where
  "v01_ribbons_pixel sines t x y =
     (let wave = 90 + drop_bit 5 (v01_si sines (x * 12 + t * 13));
          wave2 = 90 + drop_bit 4 (v01_si sines (x * 9 - t * 17 + 500));
          d1 = \<bar>y - wave\<bar>; d2 = \<bar>y - wave2\<bar>
      in if list_all in_i32 [x * 12, t * 13, x * 12 + t * 13, wave, x * 9, t * 17, x * 9 - t * 17,
              x * 9 - t * 17 + 500, wave2, y - wave, y - wave2, d1, d2, y * 255]
         then do {
           base \<leftarrow> v01_mix (v01_pal 3) (v01_pal 1) ((y * 255) sdiv LH);
           base \<leftarrow> (if d1 < 8 then v01_mix (v01_pal 0) (v01_pal 2) (d1 * 30) else Some base);
           (if d2 < 5 then v01_mix (v01_pal 6) (v01_pal 2) (d2 * 45) else Some base)
         } else None)"

definition v01_chrome_pixel :: "sine_table \<Rightarrow> int \<Rightarrow> int \<Rightarrow> int \<Rightarrow> u32 option" where
  "v01_chrome_pixel sines t x y =
     (if y < 95
      then let glow = drop_bit 4 (v01_si sines (x * 5 + y * 4) + 1024)
           in if list_all in_i32 [x * 5, y * 4, x * 5 + y * 4] then v01_mix (v01_pal 8) (v01_pal 0) glow else None
      else let z = y - 94;
               horizon = ((z * 13) AND 31) < 2;
               van = ((x - 160) * 90) sdiv (z + 8);
               vertical = \<bar>van\<bar> smod 42 < 2
           in if list_all in_i32 [z * 13, (x - 160) * 90, z + 8, \<bar>van\<bar>]
              then if horizon \<or> vertical then Some (v01_pal 2) else v01_mix (v01_pal 6) (v01_pal 8) z
              else None)"

definition v01_sugar_pixel :: "sine_table \<Rightarrow> int \<Rightarrow> int \<Rightarrow> int \<Rightarrow> u32 option" where
  "v01_sugar_pixel sines t x y =
     (let a = v01_si sines (x * 10 + t * 13); b = v01_si sines (y * 14 - t * 9);
          c = v01_si sines ((x + y) * 7 + t * 5);
          v = (a + b + c + 3072) sdiv 12;
          w = x + y + drop_bit 7 (v01_si sines (t * 17 + x * 3));
          stripe = drop_bit 3 w AND 3
      in if list_all in_i32 [x * 10, t * 13, x * 10 + t * 13, y * 14, t * 9, y * 14 - t * 9, (x + y) * 7, t * 5,
              (x + y) * 7 + t * 5, a + b, a + b + c, a + b + c + 3072, t * 17, x * 3,
              t * 17 + x * 3, w]
         then v01_mix (v01_pal ((stripe + 0) mod 5)) (v01_pal ((stripe + 2) mod 5)) (v AND 255) else None)"

text \<open>The two loops around a pixel. A row pass is the scene's prologue, then its loops.\<close>

definition v01_put :: "(int \<Rightarrow> int \<Rightarrow> u32 option) \<Rightarrow> int \<Rightarrow> int \<Rightarrow> draw" where
  "v01_put pixel x y h = do { v \<leftarrow> pixel x y; v01_store x y v h }"

definition v01_rows :: "(int \<Rightarrow> int \<Rightarrow> u32 option) \<Rightarrow> int \<Rightarrow> int \<Rightarrow> draw" where
  "v01_rows pixel y0 y1 = for_int y0 y1 (\<lambda>y. for_int 0 LW (\<lambda>x. v01_put pixel x y))"

definition v01_scene_candy :: "sine_table \<Rightarrow> int \<Rightarrow> int \<Rightarrow> int \<Rightarrow> draw" where
  "v01_scene_candy sines y0 y1 t = v01_rows (v01_candy_pixel sines t) y0 y1"

definition v01_scene_checker :: "sine_table \<Rightarrow> int \<Rightarrow> int \<Rightarrow> int \<Rightarrow> draw" where
  "v01_scene_checker sines y0 y1 t = v01_rows (v01_checker_pixel sines t) y0 y1"

definition v01_scene_bubbles :: "sine_table \<Rightarrow> int \<Rightarrow> int \<Rightarrow> int \<Rightarrow> draw" where
  "v01_scene_bubbles sines y0 y1 t h =
     (if v01_centres_ok sines t then v01_rows (v01_bubbles_pixel sines t) y0 y1 h else None)"

definition v01_scene_ribbons :: "sine_table \<Rightarrow> int \<Rightarrow> int \<Rightarrow> int \<Rightarrow> draw" where
  "v01_scene_ribbons sines y0 y1 t = v01_rows (v01_ribbons_pixel sines t) y0 y1"

definition v01_scene_chrome :: "sine_table \<Rightarrow> int \<Rightarrow> int \<Rightarrow> int \<Rightarrow> draw" where
  "v01_scene_chrome sines y0 y1 t = v01_rows (v01_chrome_pixel sines t) y0 y1"

definition v01_scene_sugar :: "sine_table \<Rightarrow> int \<Rightarrow> int \<Rightarrow> int \<Rightarrow> draw" where
  "v01_scene_sugar sines y0 y1 t = v01_rows (v01_sugar_pixel sines t) y0 y1"

section \<open>Overlays\<close>

definition v01_rng32 :: "u32 \<Rightarrow> u32" where
  "v01_rng32 x =
     (let x = x XOR drop_bit 16 x; x = x * 0x7feb352d;
          x = x XOR drop_bit 15 x; x = x * 0x846ca68b
      in x XOR drop_bit 16 x)"

text \<open>A statement whose expressions have the signed intermediate values \<open>es\<close>.\<close>

definition v01_guard :: "int list \<Rightarrow> draw \<Rightarrow> draw" where
  "v01_guard es f h = (if list_all in_i32 es then f h else None)"

definition v01_overlay_candy :: "int \<Rightarrow> draw" where
  "v01_overlay_candy t = draw_all
     [for_int 0 18 (\<lambda>i. let r = v01_rng32 (of_int i * 991);
          x = uint ((r + of_int (t * (1 + i mod 3))) mod 320);
          y = uint ((drop_bit 11 r + of_int (i * 17)) mod 180)
        in v01_guard [t * (1 + i mod 3)] (v01_star x y (2 + i mod 3) (v01_pal 2))),
      v01_heart 160 82 5 (v01_pal 0) (v01_pal 8),
      v01_text_center 139 ''CANDY VORTEX'' 3 (v01_pal 2) (v01_pal 8)]"

definition v01_overlay_girl :: "int \<Rightarrow> draw" where
  "v01_overlay_girl t = draw_all
     [for_int 0 24 (\<lambda>i. let r = v01_rng32 (of_int i * 1777);
          x = sint (r mod 340 - 10);
          y = sint ((drop_bit 10 r + of_int (t * (2 + i mod 4))) mod 210 - 15)
        in v01_guard [t * (2 + i mod 4)]
             (v01_heart x y (1 + (if i mod 3 = 0 then 1 else 0)) (v01_pal (i mod 5)) (v01_pal 8))),
      v01_text_center 72 ''GIRL MODE'' 5 (v01_pal 2) (v01_pal 8),
      v01_text_center 119 ''MAXIMUM'' 4 (v01_pal 0) (v01_pal 8)]"

definition v01_overlay_bubblegum :: "int \<Rightarrow> draw" where
  "v01_overlay_bubblegum t = draw_all
     [for_int 0 20 (\<lambda>i. let r = v01_rng32 (of_int i * 31337)
        in v01_star (uint (r mod 320)) (uint (drop_bit 10 r mod 180)) (1 + i mod 3) (v01_pal 2)),
      v01_text_center 14 ''BUBBLEGUM'' 5 (v01_pal 2) (v01_pal 8),
      v01_text_center 145 ''OVERDRIVE'' 4 (v01_pal 0) (v01_pal 8)]"

definition v01_butterfly :: "sine_table \<Rightarrow> int \<Rightarrow> int \<Rightarrow> draw" where
  "v01_butterfly sines t i =
     (let x = (i * 29 + t * (i mod 3 + 1)) smod 350 - 15;
          w = v01_si sines (t * (8 + i) + i * 193) * 55;
          y = 70 + drop_bit 10 w;
          left = v01_pal ((i + 0) mod 5); right = v01_pal ((i + 3) mod 5)
      in v01_guard [t * (i mod 3 + 1), i * 29 + t * (i mod 3 + 1), t * (8 + i), t * (8 + i) + i * 193, w, y,
             i + t sdiv 3]
           (draw_all
             [v01_circle (x - 4) (y - 2) 3 left, v01_circle (x + 4) (y - 2) 3 right,
              v01_circle (x - 3) (y + 3) 2 left, v01_circle (x + 3) (y + 3) 2 right,
              v01_rect (x - 1) (y - 4) 2 9 (v01_pal 8),
              if (i + t sdiv 3) smod 4 = 0 then v01_star (x - 10) (y + 5) 2 (v01_pal 2) else Some]))"

definition v01_overlay_riot :: "sine_table \<Rightarrow> int \<Rightarrow> draw" where
  "v01_overlay_riot sines t = draw_all
     [for_int 0 24 (v01_butterfly sines t),
      for_int 0 12 (\<lambda>i. v01_guard [i * 41 + t]
        (v01_flower ((i * 41 + t) smod 340 - 10) (20 + (i * 23) mod 140) 2 (v01_pal ((i + 1) mod 5)) (v01_pal 2))),
      v01_text_center 143 ''BUTTERFLY RIOT'' 3 (v01_pal 2) (v01_pal 8)]"

definition v01_overlay_hyperdrive :: "sine_table \<Rightarrow> int \<Rightarrow> draw" where
  "v01_overlay_hyperdrive sines t =
     (let cx = 160 + drop_bit 10 (v01_si sines (t * 9) * 28);
          cy = 67 + drop_bit 10 (v01_si sines (t * 13) * 9);
          r = 39
      in v01_guard [t * 9, v01_si sines (t * 9) * 28, t * 13, v01_si sines (t * 13) * 9, cx, cy]
           (draw_all
             [for_int (- r) (r + 1) (\<lambda>y. for_int (- r) (r + 1) (\<lambda>x.
                if x * x + y * y \<le> r * r
                then let band = ((y + r) * 10) sdiv (2 * r + 1)
                     in v01_px (cx + x) (cy + y) (v01_pal (band mod 8))
                else Some)),
              v01_circle (cx - 13) (cy - 15) 7 0xffffffff,
              v01_star (cx - 17) (cy - 18) 6 0xffffffff,
              v01_text_center 11 ''SHE HER'' 6 (v01_pal 2) (v01_pal 8),
              v01_text_center 143 ''HYPERDRIVE'' 4 (v01_pal 0) (v01_pal 8)]))"

definition v01_overlay_sugar :: "int \<Rightarrow> draw" where
  "v01_overlay_sugar t = draw_all
     [for_int 0 35 (\<lambda>i. let r = v01_rng32 (of_int i * 7331);
          x = uint (r mod 320); y = uint (drop_bit 10 r mod 180); s = 1 + i mod 3
        in if i mod 3 = 0 then v01_heart x y s (v01_pal (i mod 5)) (v01_pal 8)
           else if i mod 3 = 1 then v01_flower x y (2 + s) (v01_pal (i mod 5)) (v01_pal 2)
           else v01_star x y (2 + s) (v01_pal 2)),
      v01_text_center 54 ''TOO MUCH'' 6 (v01_pal 2) (v01_pal 8),
      v01_text_center 104 ''IS ENOUGH'' 5 (v01_pal 9) (v01_pal 8)]"

definition v01_overlay :: "sine_table \<Rightarrow> int \<Rightarrow> int \<Rightarrow> draw" where
  "v01_overlay sines which t = draw_all
     [if which = 0 then v01_overlay_candy t
      else if which = 1 then v01_overlay_girl t
      else if which = 2 then v01_overlay_bubblegum t
      else if which = 3 then v01_overlay_riot sines t
      else if which = 4 then v01_overlay_hyperdrive sines t
      else v01_overlay_sugar t,
      for_int 0 SCENES (\<lambda>i. v01_circle (145 + i * 6) 171 (if i = which then 2 else 1)
        (if i = which then v01_pal 2 else v01_pal 8))]"

section \<open>The threads of a frame\<close>

record v01_job =
  job_y0 :: int
  job_y1 :: int
  job_t :: int
  job_which :: int

definition v01_worker :: "sine_table \<Rightarrow> v01_job \<Rightarrow> draw" where
  "v01_worker sines j =
     (if job_which j = 0 then v01_scene_candy sines (job_y0 j) (job_y1 j) (job_t j)
      else if job_which j = 1 then v01_scene_checker sines (job_y0 j) (job_y1 j) (job_t j)
      else if job_which j = 2 then v01_scene_bubbles sines (job_y0 j) (job_y1 j) (job_t j)
      else if job_which j = 3 then v01_scene_ribbons sines (job_y0 j) (job_y1 j) (job_t j)
      else if job_which j = 4 then v01_scene_chrome sines (job_y0 j) (job_y1 j) (job_t j)
      else v01_scene_sugar sines (job_y0 j) (job_y1 j) (job_t j))"

text \<open>
  The four workers share the array without a lock. A thread is the list of the pixels it has still
  to compute, in the order of its loops (\<open>v01_pixels\<close>); a step of the frame is one pixel of one
  thread, computed and stored. An undefined computation has no step, so a thread that would run
  into one never ends.
\<close>

definition v01_pixel :: "sine_table \<Rightarrow> int \<Rightarrow> int \<Rightarrow> int \<Rightarrow> int \<Rightarrow> u32 option" where
  "v01_pixel sines which t =
     (if which = 0 then v01_candy_pixel sines t else if which = 1 then v01_checker_pixel sines t
      else if which = 2 then v01_bubbles_pixel sines t else if which = 3 then v01_ribbons_pixel sines t
      else if which = 4 then v01_chrome_pixel sines t else v01_sugar_pixel sines t)"

definition v01_prologue :: "sine_table \<Rightarrow> int \<Rightarrow> int \<Rightarrow> bool" where
  "v01_prologue sines which t = (which = 2 \<longrightarrow> v01_centres_ok sines t)"

definition v01_pixels :: "int \<Rightarrow> int \<Rightarrow> (int \<times> int) list" where
  "v01_pixels y0 y1 = concat (map (\<lambda>y. map (\<lambda>x. (x, y)) [0..319]) [y0..y1 - 1])"

inductive v01_step ::
    "(int \<Rightarrow> int \<Rightarrow> u32 option) \<Rightarrow> (int \<times> int) list list \<times> heap \<Rightarrow> (int \<times> int) list list \<times> heap \<Rightarrow> bool"
  for pixel where
  "i < length threads \<Longrightarrow> threads ! i = (x, y) # rest \<Longrightarrow> v01_put pixel x y h = Some h' \<Longrightarrow>
   v01_step pixel (threads, h) (threads[i := rest], h')"

definition v01_jobs :: "int \<Rightarrow> int \<Rightarrow> v01_job list" where
  "v01_jobs which t =
     map (\<lambda>i. \<lparr>job_y0 = i * LH div 4, job_y1 = (i + 1) * LH div 4, job_t = t, job_which = which\<rparr>) [0..3]"

text \<open>
  \<^verbatim>\<open>render_frame\<close> of the first release: create the four threads, join them (all their pixels are
  stored), draw the overlay. That \<^verbatim>\<open>pthread_create\<close> succeeds is not tested by the code; a frame is
  a run in which it does.
\<close>

inductive v01_render_frame :: "sine_table \<Rightarrow> int \<Rightarrow> int \<Rightarrow> heap \<Rightarrow> heap \<Rightarrow> bool" for sines which t where
  "v01_prologue sines which t \<Longrightarrow>
   (v01_step (v01_pixel sines which t))\<^sup>*\<^sup>*
     (map (\<lambda>j. v01_pixels (job_y0 j) (job_y1 j)) (v01_jobs which t), h) (joined, h1) \<Longrightarrow>
   list_all (\<lambda>rest. rest = []) joined \<Longrightarrow> v01_overlay sines which t h1 = Some h' \<Longrightarrow>
   v01_render_frame sines which t h h'"

section \<open>The old primitives agree with the canvas\<close>

lemma v01_tables [simp]: "v01_PAL = PAL" "v01_FONT = FONT" "v01_shape = heart_shape"
  by (simp_all only: v01_PAL_def PAL_def v01_FONT_def FONT_def v01_shape_def heart_shape_def)

lemma v01_functions [simp]: "v01_si = si" "v01_font_index = font_index" "v01_rng32 = rng32"
  by (intro ext, simp add: v01_si_def si_def v01_font_index_def font_index_def v01_rng32_def rng32_def)+

lemma v01_rgba_eq: "v01_rgba r g b = cart_rgba r g b"
  by (simp add: v01_rgba_def cart_rgba_def clamp_channel_def Let_def)

text \<open>For the weights the scenes use, from 0 to 256, the unclamped mixing is the canvas's.\<close>

lemma v01_mix_eq:
  assumes "0 \<le> t" "t \<le> 256"
  shows "v01_mix a b t = Some (mix a b t)"
proof -
  have u: "uint (if t < 0 then 0 else of_int t :: u32) = t" using assms by (simp add: uint_word_of_int)
  have "in_i32 ((chan k b - chan k a) * t)" for k
  proof -
    have "\<bar>chan k b - chan k a\<bar> * \<bar>t\<bar> \<le> 255 * 256"
      using assms chan_le [of k a] chan_le [of k b] chan_ge_0 [of k a] chan_ge_0 [of k b]
      by (intro mult_mono) linarith+
    then have "\<bar>(chan k b - chan k a) * t\<bar> \<le> 65280" by (simp add: abs_mult)
    then show ?thesis unfolding in_i32_def by linarith
  qed
  from this [of 0] this [of 1] this [of 2] show ?thesis
    using assms unfolding v01_mix_def mix_def mix_unfold u
    by (simp add: Let_def chk_def v01_rgba_eq chan_def div256 min_def)
qed

lemma v01_store_poke:
  assumes "0 \<le> x" "x < 320" "0 \<le> y" "y < 180"
  shows "v01_store x y c h = poke low (pixel_index low_canvas y x) c h"
proof -
  have "cart_canvas_valid (Some low_canvas)" by (simp add: cart_canvas_valid_def low_canvas_def)
  from pixel_index_in(1) [OF this, of y x] assms
  have "pixel_index low_canvas y x = nat y * 320 + nat x" by (simp add: low_canvas_def)
  with assms show ?thesis by (simp add: v01_store_def in_i32_def nat_add_distrib nat_mult_distrib)
qed

lemma low_canvas_valid: "cart_canvas_valid (Some low_canvas)" "the (pixels low_canvas) = low"
  "uint (width low_canvas) = 320" "uint (height low_canvas) = 180"
  by (simp_all add: cart_canvas_valid_def low_canvas_def)

text \<open>
  A step of the old program does what a step of the current one does, on every store that holds the
  frame, and that step stays within the canvas.
\<close>

definition matches :: "draw \<Rightarrow> draw \<Rightarrow> bool" where
  "matches f g \<longleftrightarrow> draws low_canvas g \<and> (\<forall>h. backed low_canvas h \<longrightarrow> f h = g h)"

named_theorems match_intros \<open>old drawing steps that agree with the current ones\<close>

lemma matchesD: "matches f g \<Longrightarrow> backed low_canvas h \<Longrightarrow> f h = g h"
  by (simp add: matches_def)

lemma matches_skip [match_intros]: "matches Some Some"
  by (simp add: matches_def draws_skip)

lemma matches_guard [match_intros]: "list_all in_i32 es \<Longrightarrow> matches f g \<Longrightarrow> matches (v01_guard es f) g"
  by (simp add: matches_def v01_guard_def)

lemma matches_if [match_intros]:
  "(P \<Longrightarrow> matches f g) \<Longrightarrow> (\<not> P \<Longrightarrow> matches f' g') \<Longrightarrow> matches (if P then f else f') (if P then g else g')"
  by simp

lemma matches_bind:
  assumes f: "matches f g" and f': "matches f' g'"
  shows "matches (\<lambda>h. do { h \<leftarrow> f h; f' h }) (\<lambda>h. do { h \<leftarrow> g h; g' h })"
  unfolding matches_def
proof (intro conjI allI impI)
  show "draws low_canvas (\<lambda>h. do { h \<leftarrow> g h; g' h })"
    using f f' by (simp add: matches_def draws_bind)
  fix h assume b: "backed low_canvas h"
  have "f' h1 = g' h1" if "g h = Some h1" for h1
    using draws_backed [where f = g, OF _ b that] f f' by (auto simp: matches_def)
  with matchesD [OF f b] show "do { h \<leftarrow> f h; f' h } = do { h \<leftarrow> g h; g' h }"
    by (cases "g h") simp_all
qed

lemma matches_all [match_intros]: "list_all2 matches fs gs \<Longrightarrow> matches (draw_all fs) (draw_all gs)"
proof (induction rule: list_all2_induct)
  case Nil
  have "draw_all [] = Some" by (rule ext) simp
  then show ?case by (simp add: matches_skip)
next
  case (Cons f fs g gs)
  have "draw_all (a # as) = (\<lambda>h. do { h \<leftarrow> a h; draw_all as h })" for a as by (rule ext) simp
  with matches_bind [OF Cons(1) Cons.IH] show ?case by simp
qed

lemma matches_list [match_intros]:
  "list_all2 matches [] []" "matches f g \<Longrightarrow> list_all2 matches fs gs \<Longrightarrow> list_all2 matches (f # fs) (g # gs)"
  by simp_all

lemma for_int_agree:
  assumes "\<And>i. lo \<le> i \<Longrightarrow> i < hi \<Longrightarrow> matches (f i) (g i)"
  shows "backed low_canvas h \<Longrightarrow> for_int lo hi f h = for_int lo hi g h"
  using assms
proof (induction lo hi f h rule: for_int.induct)
  case (1 i hi f h)
  show ?case
  proof (cases "i < hi")
    case True
    with "1.prems" have m: "matches (f i) (g i)" by simp
    then have e: "f i h = g i h" using "1.prems"(1) by (rule matchesD)
    have "for_int (i + 1) hi f h1 = for_int (i + 1) hi g h1" if "f i h = Some h1" for h1
      using "1.IH" [OF True that] draws_backed [of low_canvas "g i" h h1] "1.prems" m that e
      by (simp add: matches_def)
    with True e show ?thesis by (simp add: for_int.simps [of i] split: option.split)
  qed simp
qed

lemma matches_for [match_intros]:
  "(\<And>i. lo \<le> i \<Longrightarrow> i < hi \<Longrightarrow> matches (f i) (g i)) \<Longrightarrow> matches (for_int lo hi f) (for_int lo hi g)"
  using for_int_agree [of lo hi f g] draws_for [of lo hi low_canvas g] by (simp add: matches_def)

lemma px_agrees:
  "in_i32 x \<Longrightarrow> in_i32 y \<Longrightarrow> v01_px x y c h = px low_canvas x y c h"
proof -
  assume i: "in_i32 x" "in_i32 y"
  have lt: "(of_int v :: u32) < of_int k \<longleftrightarrow> 0 \<le> v \<and> v < k" if "in_i32 v" "0 \<le> k" "k \<le> 320" for v k
  proof -
    have "uint (of_int v :: u32) = (if 0 \<le> v then v else v + 4294967296)"
      using that(1) mod_add_self2 [of v 4294967296]
      by (auto simp: uint_word_of_int in_i32_def simp del: mod_add_self2 intro: mod_pos_pos_trivial)
    then show ?thesis using that by (auto simp: word_less_def uint_word_of_int in_i32_def)
  qed
  note l = lt [OF i(1), of 320] lt [OF i(2), of 180]
  show ?thesis
    using i l v01_store_poke [of x y c h] low_canvas_valid
    by (auto simp: v01_px_def px_def cart_canvas_px_def not_le low_canvas_def)
qed

lemma matches_px: "in_i32 x \<Longrightarrow> in_i32 y \<Longrightarrow> matches (v01_px x y c) (px low_canvas x y c)"
  by (simp add: matches_def px_agrees draws_px low_canvas_valid)

lemma for_int_idle: "(\<And>i. lo \<le> i \<Longrightarrow> i < hi \<Longrightarrow> body i h = Some h) \<Longrightarrow> for_int lo hi body h = Some h"
  by (cases "lo \<le> hi") (auto intro: for_int_trace [where S = "\<lambda>_. h"])

lemma rect_agrees:
  assumes b: "backed low_canvas h" and i: "list_all in_i32 [x, y, w, ht, x + w, y + ht]"
  shows "v01_rect x y w ht c h = rect low_canvas x y w ht c h"
proof -
  let ?x0 = "max 0 x" and ?y0 = "max 0 y" and ?x1 = "min 320 (x + w)" and ?y1 = "min 180 (y + ht)"
  let ?P = "\<lambda>u r. ?y0 \<le> r \<and> r < ?y1 \<and> ?x0 \<le> u \<and> u < ?x1 \<and> True"
  have "v01_rect x y w ht c h = for_int ?y0 ?y1 (\<lambda>row. for_int ?x0 ?x1 (\<lambda>column. v01_store column row c)) h"
    using i by (simp add: v01_rect_def Let_def clip_eqs)
  also have "\<dots> = for_int ?y0 ?y1 (\<lambda>row. for_int ?x0 ?x1 (\<lambda>column h. if True
      then poke (the (pixels low_canvas)) (pixel_index low_canvas row column) c h else Some h)) h"
    by (intro for_int_cong) (auto simp: v01_store_poke low_canvas_valid)
  also have "\<dots> = Some (paint low_canvas ?P c h)"
  proof (cases "?y0 \<le> ?y1 \<and> ?x0 \<le> ?x1")
    case True
    then show ?thesis by (intro scan_rows b low_canvas_valid) (auto simp: low_canvas_valid)
  next
    case False
    then have "paint low_canvas ?P c h = h" by (intro paint_nothing) auto
    with False show ?thesis by (auto intro: for_int_idle)
  qed
  also have "paint low_canvas ?P c h = paint low_canvas (rect_shape x y w ht) c h"
    by (intro paint_cong) (auto simp: low_canvas_valid)
  finally show ?thesis using i rect_paints [OF low_canvas_valid(1) b, of x y w ht c] by (simp add: rect_def)
qed

lemma matches_rect:
  "list_all in_i32 [x, y, w, ht, x + w, y + ht] \<Longrightarrow> matches (v01_rect x y w ht c) (rect low_canvas x y w ht c)"
  by (simp add: matches_def rect_agrees draws_rect low_canvas_valid)

lemma paint_paint: "paint c Q v (paint c P v h) = paint c (\<lambda>x y. P x y \<or> Q x y) v h"
  by (intro ext nth_equalityI) (auto simp: paint_nth)

text \<open>The old circle visits the whole square around the centre and clips each pixel.\<close>

lemma circle_row:
  assumes b: "backed low_canvas h" and r: "0 \<le> r" "r \<le> 10000" and n: "near cx" "near cy" and y: "- r \<le> y" "y \<le> r"
  shows "for_int (- r) (r + 1) (\<lambda>x h. if \<not> list_all in_i32 [x * x, y * y, x * x + y * y] then None
             else if x * x + y * y \<le> r * r then v01_px (cx + x) (cy + y) c h else Some h) (paint low_canvas P c h)
    = Some (paint low_canvas (\<lambda>u v. P u v \<or> v = cy + y \<and> disc_shape cx cy r u v) c h)"
proof -
  let ?S = "\<lambda>x. paint low_canvas (\<lambda>u v. P u v \<or> v = cy + y \<and> cx - r \<le> u \<and> u < cx + x \<and> disc_shape cx cy r u v) c h"
  have fits: "list_all in_i32 [x * x, y * y, x * x + y * y]" if "- r \<le> x" "x < r + 1" for x
    unfolding list.pred_inject(2) in_i32_def
    by (intro conjI list.pred_inject(1);
        use square_bound [of 10000 x] square_bound [of 10000 y] that y r in linarith)
  have step: "(if \<not> list_all in_i32 [x * x, y * y, x * x + y * y] then None
      else if x * x + y * y \<le> r * r then v01_px (cx + x) (cy + y) c (?S x) else Some (?S x)) = Some (?S (x + 1))"
    if "- r \<le> x" "x < r + 1" for x
  proof (cases "x * x + y * y \<le> r * r")
    case True
    have i: "in_i32 (cx + x)" "in_i32 (cy + y)" using n that y r by (auto simp: in_i32_def)
    have "v01_px (cx + x) (cy + y) c (?S x) = Some (paint low_canvas (px_shape (cx + x) (cy + y)) c (?S x))"
      using i b px_paints [OF low_canvas_valid(1), of "?S x"] by (simp add: px_agrees px_def)
    moreover have "paint low_canvas (px_shape (cx + x) (cy + y)) c (?S x) = ?S (x + 1)"
      unfolding paint_paint using True that y by (intro paint_cong) auto
    ultimately show ?thesis using True fits [OF that] by simp
  next
    case False
    have "u < cx + (x + 1) \<and> disc_shape cx cy r u (cy + y) \<longleftrightarrow> u < cx + x \<and> disc_shape cx cy r u (cy + y)" for u
      using False by (cases "u = cx + x") auto
    then have "?S x = ?S (x + 1)" by (intro paint_cong) blast
    with False show ?thesis using fits [OF that] by simp
  qed
  have start: "paint low_canvas P c h = ?S (- r)" by (intro paint_cong) auto
  have "\<bar>u - cx\<bar> \<le> r" if "disc_shape cx cy r u v" for u v using disc_bound(1) [OF r(1) that] .
  then have stop: "?S (r + 1) = paint low_canvas (\<lambda>u v. P u v \<or> v = cy + y \<and> disc_shape cx cy r u v) c h"
    by (intro paint_cong) (force simp: abs_le_iff)
  show ?thesis unfolding start stop [symmetric] by (rule for_int_trace [where S = ?S]) (use r step in auto)
qed

lemma circle_agrees:
  assumes b: "backed low_canvas h" and r: "0 \<le> r" "r \<le> 10000" and n: "near cx" "near cy"
  shows "v01_circle cx cy r c h = circle low_canvas cx cy r c h"
proof -
  let ?S = "\<lambda>y. paint low_canvas (\<lambda>u v. cy - r \<le> v \<and> v < cy + y \<and> disc_shape cx cy r u v) c h"
  have i: "list_all in_i32 [cx, cy, r, r * r]"
    unfolding list.pred_inject(2) in_i32_def
    by (intro conjI list.pred_inject(1); use n r square_bound [of 10000 r] in linarith)
  have start: "h = ?S (- r)" by (rule sym) (intro paint_nothing, auto)
  have "\<bar>v - cy\<bar> \<le> r" if "disc_shape cx cy r u v" for u v using disc_bound(2) [OF r(1) that] .
  then have stop: "?S (r + 1) = paint low_canvas (disc_shape cx cy r) c h"
    by (intro paint_cong) (force simp: abs_le_iff)
  have row: "for_int (- r) (r + 1) (\<lambda>x h. if \<not> list_all in_i32 [x * x, y * y, x * x + y * y] then None
      else if x * x + y * y \<le> r * r then v01_px (cx + x) (cy + y) c h else Some h) (?S y) = Some (?S (y + 1))"
    if "- r \<le> y" "y < r + 1" for y
    using circle_row [OF b r n, of y c "\<lambda>u v. cy - r \<le> v \<and> v < cy + y \<and> disc_shape cx cy r u v"] that
    by (auto intro!: paint_cong)
  have "for_int (- r) (r + 1) (\<lambda>y. for_int (- r) (r + 1) (\<lambda>x h.
      if \<not> list_all in_i32 [x * x, y * y, x * x + y * y] then None
      else if x * x + y * y \<le> r * r then v01_px (cx + x) (cy + y) c h else Some h)) (?S (- r)) = Some (?S (r + 1))"
    by (rule for_int_trace [where S = ?S]) (use r row in auto)
  then have "v01_circle cx cy r c h = Some (paint low_canvas (disc_shape cx cy r) c h)"
    unfolding v01_circle_def start [symmetric] stop using i by simp
  then show ?thesis
    using i r circle_paints [OF low_canvas_valid(1) b, of cx cy r c] by (simp add: circle_def)
qed

lemma matches_circle:
  "near cx \<Longrightarrow> near cy \<Longrightarrow> small r \<Longrightarrow> matches (v01_circle cx cy r c) (circle low_canvas cx cy r c)"
  using circle_agrees [of _ r cx cy c] draws_circle [OF low_canvas_valid(1), of cx cy r c]
  by (simp add: matches_def in_i32_def)

section \<open>The old shapes agree\<close>

lemma matches_heart:
  assumes b: "near cx" "near cy" "small s"
  shows "matches (v01_heart cx cy s c edge) (heart low_canvas cx cy s c edge)"
proof -
  have cell: "list_all in_i32 [cx + (x - 4) * s, cy + (y - 3) * s, s, s, cx + (x - 4) * s + s, cy + (y - 3) * s + s]"
    if "0 \<le> x" "x < 8" "0 \<le> y" "y < 8" for x y
    unfolding list.pred_inject(2) in_i32_def
    by (intro conjI list.pred_inject(1);
        use b scaled_bound [of 8 "x - 4" s] scaled_bound [of 8 "y - 3" s] that in linarith)
  have "list_all in_i32 [cx - 2 * s, cy - 2 * s, s, s, cx - 2 * s + s, cy - 2 * s + s]"
    using b by (auto simp: in_i32_def)
  with cell show ?thesis
    unfolding v01_heart_def heart_def Let_def v01_tables heart_at_def by (intro match_intros matches_rect) assumption+
qed

lemma matches_star:
  assumes b: "near cx" "near cy" "small r"
  shows "matches (v01_star cx cy r c) (star low_canvas cx cy r c)"
proof -
  have "in_i32 (cx + i)" "in_i32 (cy + i)" "in_i32 (cy - i)" "in_i32 cx" "in_i32 cy"
    if "- r \<le> i" "i < r + 1" for i
    using b that by (auto simp: in_i32_def)
  then show ?thesis unfolding v01_star_def star_def by (intro match_intros matches_px) assumption+
qed

lemma matches_flower:
  assumes "- 50000 \<le> cx" "cx \<le> 50000" "- 50000 \<le> cy" "cy \<le> 50000" "small s"
  shows "matches (v01_flower cx cy s petal centre) (flower low_canvas cx cy s petal centre)"
  unfolding v01_flower_def flower_def using assms by (intro match_intros matches_circle) auto

lemma matches_glyph:
  assumes b: "- 200000 \<le> x" "x \<le> 200000" "near y" "small s"
  shows "matches (v01_glyph x y ch s c) (glyph low_canvas x y ch s c)"
proof -
  have "list_all in_i32 [x + xx * s, y + yy * s, s, s, x + xx * s + s, y + yy * s + s]"
    if "0 \<le> xx" "xx < 5" "0 \<le> yy" "yy < 7" for xx yy
    unfolding list.pred_inject(2) in_i32_def
    by (intro conjI list.pred_inject(1);
        use b scaled_bound [of 8 xx s] scaled_bound [of 8 yy s] that in linarith)
  then show ?thesis
    unfolding v01_glyph_def glyph_def v01_tables v01_functions by (intro match_intros matches_rect) assumption+
qed

lemma matches_text_run:
  assumes b: "near y" "small s"
  shows "- 100000 \<le> x \<Longrightarrow> x + 600 * int (length str) \<le> 200000 \<Longrightarrow>
    matches (v01_text_run x y str s c) (text_run low_canvas x y str s c)"
proof (induction str arbitrary: x)
  case Nil
  have "v01_text_run x y [] s c = Some" "text_run low_canvas x y [] s c = Some" by (rule ext, simp)+
  then show ?case by (simp add: matches_skip)
next
  case (Cons ch str)
  have g: "matches (if ch = CHR '' '' then Some else v01_glyph x y ch s c)
      (if ch = CHR '' '' then Some else glyph low_canvas x y ch s c)"
    using Cons.prems by (intro match_intros matches_glyph b) auto
  have "matches (v01_text_run (x + 6 * s) y str s c) (text_run low_canvas (x + 6 * s) y str s c)"
    using b Cons.prems by (intro Cons.IH) auto
  note m = matches_bind [OF g this]
  have "v01_text_run x y (ch # str) s c =
      (\<lambda>h. do { h \<leftarrow> (if ch = CHR '' '' then Some else v01_glyph x y ch s c) h; v01_text_run (x + 6 * s) y str s c h })"
    "text_run low_canvas x y (ch # str) s c =
      (\<lambda>h. do { h \<leftarrow> (if ch = CHR '' '' then Some else glyph low_canvas x y ch s c) h;
                text_run low_canvas (x + 6 * s) y str s c h })"
    by (rule ext, simp)+
  with m show ?case by simp
qed

lemma matches_text_center:
  assumes y: "- 50000 \<le> y" "y \<le> 50000" and s: "0 \<le> s" "s \<le> 10" and len: "length str \<le> 100"
  shows "matches (v01_text_center y str s c shadow) (text_center low_canvas y str s c shadow)"
proof -
  let ?w = "(int (length str) * 6 - 1) * s"
  have "\<bar>?w\<bar> \<le> 600 * 10" unfolding abs_mult using s len by (intro mult_mono) auto
  then have "\<bar>(320 - ?w) sdiv 2\<bar> \<le> 6320" using sdiv_abs_le [of 2 "320 - ?w"] by linarith
  then have "- 50000 \<le> (320 - ?w) sdiv 2" "(320 - ?w) sdiv 2 \<le> 50000" by linarith+
  with y s len show ?thesis
    unfolding v01_text_center_def text_center_def v01_text_def draw_text_def Let_def
    by (intro match_intros matches_text_run) auto
qed

lemmas match_rules = match_intros matches_px matches_rect matches_circle matches_star matches_heart
  matches_flower matches_text_center

section \<open>The old overlays agree\<close>

text \<open>C's remainder and quotient of a number that is not negative.\<close>

lemma c_quotients: "0 \<le> a \<Longrightarrow> 0 < b \<Longrightarrow> a sdiv b = a div b" "0 \<le> a \<Longrightarrow> 0 < b \<Longrightarrow> a smod b = a mod (b :: int)"
  by (cases "a = 0"; simp add: signed_divide_int_def signed_modulo_int_def sgn_if minus_div_mult_eq_mod)+

lemma frame_product: "0 \<le> t \<Longrightarrow> t < 65536 \<Longrightarrow> 0 \<le> k \<Longrightarrow> k \<le> 64 \<Longrightarrow> 0 \<le> t * k \<and> t * k \<le> 65536 * (64 :: int)"
  by (intro conjI mult_mono) auto

lemma mod_bounds [simp]: "0 \<le> i mod 3" "i mod 3 \<le> 2" "0 \<le> i mod 4" "i mod 4 \<le> (3 :: int)"
  using pos_mod_bound [of 3 i] pos_mod_bound [of 4 i] by simp_all

lemma matches_overlay_candy:
  assumes t: "0 \<le> t" "t < 65536"
  shows "matches (v01_overlay_candy t) (overlay_candy low_canvas t)"
proof -
  have "in_i32 (t * (1 + i mod 3))" for i
    using frame_product [OF t, of "1 + i mod 3"] mod_bounds [of i] unfolding in_i32_def by linarith
  then show ?thesis
    unfolding v01_overlay_candy_def overlay_candy_def Let_def v01_tables v01_functions
    by (intro match_rules) auto
qed

lemma matches_overlay_girl:
  assumes t: "0 \<le> t" "t < 65536"
  shows "matches (v01_overlay_girl t) (overlay_girl_mode low_canvas t)"
proof -
  have "in_i32 (t * (2 + i mod 4))" for i
    using frame_product [OF t, of "2 + i mod 4"] mod_bounds [of i] unfolding in_i32_def by linarith
  then show ?thesis
    unfolding v01_overlay_girl_def overlay_girl_mode_def Let_def v01_tables v01_functions
    by (intro match_rules) auto
qed

lemma matches_overlay_bubblegum: "matches (v01_overlay_bubblegum t) (overlay_bubblegum low_canvas t)"
  unfolding v01_overlay_bubblegum_def overlay_bubblegum_def Let_def v01_tables v01_functions
  by (intro match_rules) auto

lemma uint_mod_near [simp]:
  "- 50000 \<le> uint (w :: u32)" "uint (w mod (320 :: u32)) \<le> 50000" "uint (w mod (180 :: u32)) \<le> 50000"
  using uint_mod_range [of 320 w] uint_mod_range [of 180 w] order_trans [of "- 50000" 0 "uint w"] by simp_all

lemma matches_overlay_sugar: "matches (v01_overlay_sugar t) (overlay_too_much low_canvas t)"
  unfolding v01_overlay_sugar_def overlay_too_much_def Let_def v01_tables v01_functions
  by (intro match_rules) auto

lemma matches_butterfly:
  assumes s: "sine_bounded sines" and t: "0 \<le> t" "t < 65536" and i: "0 \<le> i" "i < 24"
  shows "matches (v01_butterfly sines t i) (butterfly sines low_canvas t i)"
proof -
  define w where "w = si sines (t * (8 + i) + i * 193) * 55"
  define y where "y = 70 + drop_bit 10 w"
  define u where "u = i * 29 + t * (i mod 3 + 1)"
  define x where "x = u mod 350 - 15"
  have w: "- (55 * 1024) \<le> w" "w \<le> 55 * 1024"
    using si_scaled [OF s, of 55 "t * (8 + i) + i * 193"] by (auto simp: w_def)
  have y: "0 \<le> y" "y \<le> 200" using shift10_bound [OF w] by (auto simp: y_def)
  have p: "0 \<le> t * (i mod 3 + 1) \<and> t * (i mod 3 + 1) \<le> 65536 * 64" "0 \<le> t * (8 + i) \<and> t * (8 + i) \<le> 65536 * 64"
    using mod_bounds [of i] i by (intro frame_product t; linarith)+
  have fits: "list_all in_i32 [t * (i mod 3 + 1), u, t * (8 + i), t * (8 + i) + i * 193, w, y]"
    using i w y p unfolding u_def list.pred_inject(2) in_i32_def by (intro conjI list.pred_inject(1); linarith)
  have "0 \<le> t div 3" "t div 3 \<le> t" using t by simp_all
  then have q: "(i + t div 3) smod 4 = (i + t div 3) mod 4" "in_i32 (i + t div 3)" "t sdiv 3 = t div 3"
    using i t by (simp_all add: c_quotients in_i32_def)
  have u: "u smod 350 = u mod 350" using i p by (intro c_quotients) (auto simp: u_def)
  have x: "- 15 \<le> x" "x < 335" using pos_mod_bound [of 350 u] pos_mod_sign [of 350 u] unfolding x_def by linarith+
  have "list_all in_i32 [t * (i mod 3 + 1), u, t * (8 + i), t * (8 + i) + i * 193, w, y, i + t div 3]"
    using fits q(2) by simp
  then show ?thesis
    unfolding v01_butterfly_def butterfly_def Let_def v01_tables v01_functions w_def [symmetric] y_def [symmetric]
      u_def [symmetric] q(1,3) u x_def [symmetric] if_P [OF fits]
    by (intro match_rules) (use x y in \<open>auto simp: in_i32_def\<close>)
qed

lemma matches_overlay_riot:
  assumes s: "sine_bounded sines" and t: "0 \<le> t" "t < 65536"
  shows "matches (v01_overlay_riot sines t) (overlay_butterfly_riot sines low_canvas t)"
proof -
  have flower: "matches (v01_guard [i * 41 + t] (v01_flower ((i * 41 + t) smod 340 - 10) (20 + i * 23 mod 140) 2 p c))
      (flower low_canvas ((i * 41 + t) mod 340 - 10) (20 + i * 23 mod 140) 2 p c)"
    if "0 \<le> i" "i < 12" for i p c
  proof -
    have "(i * 41 + t) smod 340 = (i * 41 + t) mod 340" using that t by (simp add: c_quotients)
    moreover have "in_i32 (i * 41 + t)" using that t by (simp add: in_i32_def)
    moreover have "- 50000 \<le> (i * 41 + t) mod 340 - 10" "(i * 41 + t) mod 340 - 10 \<le> 50000"
      "- 50000 \<le> 20 + i * 23 mod 140" "20 + i * 23 mod 140 \<le> 50000"
      using pos_mod_bound [of 340 "i * 41 + t"] pos_mod_sign [of 340 "i * 41 + t"]
        pos_mod_bound [of 140 "i * 23"] pos_mod_sign [of 140 "i * 23"] by linarith+
    ultimately show ?thesis by (auto intro!: match_rules)
  qed
  show ?thesis
    unfolding v01_overlay_riot_def overlay_butterfly_riot_def v01_tables
    by (intro match_intros matches_text_center matches_butterfly flower s t) auto
qed

lemma matches_overlay_hyperdrive:
  assumes s: "sine_bounded sines" and t: "0 \<le> t" "t < 65536"
  shows "matches (v01_overlay_hyperdrive sines t) (overlay_hyperdrive sines low_canvas t)"
proof -
  note p = si_scaled [OF s, of 28 "t * 9"] si_scaled [OF s, of 9 "t * 13"]
  define cx where "cx = 160 + drop_bit 10 (si sines (t * 9) * 28)"
  define cy where "cy = 67 + drop_bit 10 (si sines (t * 13) * 9)"
  have b: "0 \<le> cx" "cx \<le> 320" "0 \<le> cy" "cy \<le> 180"
    using shift10_bound [OF p(1,2)] shift10_bound [OF p(3,4)] unfolding cx_def cy_def by auto
  have fits: "list_all in_i32 [t * 9, si sines (t * 9) * 28, t * 13, si sines (t * 13) * 9, cx, cy]"
    using p t b by (simp add: in_i32_def)
  have "matches (v01_px (cx + x) (cy + y) (pal ((y + 39) * 10 sdiv (2 * 39 + 1) mod 8)))
      (px low_canvas (cx + x) (cy + y) (pal ((y + 39) * 10 div (2 * 39 + 1) mod 8)))"
    if "- 39 \<le> x" "x < 39 + 1" "- 39 \<le> y" "y < 39 + 1" for x y
    using that b matches_px [of "cx + x" "cy + y"] by (simp add: c_quotients in_i32_def)
  with fits show ?thesis
    unfolding v01_overlay_hyperdrive_def overlay_hyperdrive_def Let_def v01_tables v01_functions
      cx_def [symmetric] cy_def [symmetric] if_P [OF fits]
    by (intro match_intros matches_circle matches_star matches_text_center) (use b in auto)
qed

lemma matches_overlay:
  assumes "sine_bounded sines" "0 \<le> t" "t < 65536"
  shows "matches (v01_overlay sines which t) (overlay sines low_canvas which t)"
  unfolding v01_overlay_def overlay_def v01_tables
  by (intro match_intros matches_circle assms matches_overlay_candy matches_overlay_girl matches_overlay_bubblegum
      matches_overlay_riot matches_overlay_hyperdrive matches_overlay_sugar) auto

section \<open>The old row passes agree\<close>

text \<open>Every weight of the row passes is between 0 and 256, so the two mixings agree there.\<close>

lemma glow_mix:
  assumes "sine_bounded sines" "3 \<le> n"
  shows "v01_mix a b (drop_bit n (si sines v + 1024)) = Some (mix a b (drop_bit n (si sines v + 1024)))"
proof (rule v01_mix_eq)
  note s = si_bound [OF assms(1), of v]
  then show "0 \<le> drop_bit n (si sines v + 1024)" by simp
  have "drop_bit n (si sines v + 1024) \<le> (si sines v + 1024) div 2 ^ 3"
    unfolding drop_bit_eq_div using s assms(2) by (intro zdiv_mono2 power_increasing) auto
  also have "\<dots> \<le> 2048 div 2 ^ 3" using s by (intro zdiv_mono1) auto
  finally show "drop_bit n (si sines v + 1024) \<le> 256" by simp
qed

lemma byte_mix: "v01_mix a b (v AND 255) = Some (mix a b (v AND 255))"
proof (rule v01_mix_eq)
  have "v AND 255 = v mod 256" using take_bit_eq_mask [of 8 v] by (simp add: take_bit_eq_mod mask_eq_exp_minus_1)
  then show "0 \<le> v AND 255" "v AND 255 \<le> 256" using pos_mod_bound [of 256 v] by simp_all
qed

lemmas v01_weights = glow_mix byte_mix v01_mix_eq

lemma candy_agrees: "sine_bounded sines \<Longrightarrow> v01_candy_pixel sines t x y = candy_pixel sines t x y"
  by (simp add: v01_candy_pixel_def candy_pixel_def Let_def chk_def v01_weights)

lemma checker_agrees: "sine_bounded sines \<Longrightarrow> v01_checker_pixel sines t x y = checker_pixel sines t x y"
  by (simp add: v01_checker_pixel_def checker_pixel_def Let_def chk_def v01_weights)

lemma field_agrees: "v01_field sines t x y is field = bubble_field sines t x y is field"
  by (induction "is" arbitrary: field)
    (simp_all add: v01_bx_def v01_by_def bubble_x_def bubble_y_def Let_def)

lemma centres_agree: "v01_centres_ok sines t = list_all (\<lambda>i. list_all in_i32 (bubble_checks sines t i)) [0..6]"
  by (simp add: v01_centres_ok_def bubble_checks_def v01_bx_def v01_by_def bubble_x_def bubble_y_def)

lemma bubbles_agrees: "sine_bounded sines \<Longrightarrow> v01_bubbles_pixel sines t x y = bubbles_pixel sines t x y"
  by (cases "bubble_field sines t x y [0..6] 0")
    (simp_all add: v01_bubbles_pixel_def bubbles_pixel_def Let_def chk_def v01_weights field_agrees)

lemma ribbons_agrees:
  assumes "sine_bounded sines" "0 \<le> y" "y < 180"
  shows "v01_ribbons_pixel sines t x y = ribbons_pixel sines t x y"
  using assms by (simp add: v01_ribbons_pixel_def ribbons_pixel_def Let_def chk_def v01_weights c_quotients)

lemma chrome_agrees:
  assumes "sine_bounded sines" "0 \<le> y" "y < 180"
  shows "v01_chrome_pixel sines t x y = chrome_pixel sines t x y"
  using assms by (simp add: v01_chrome_pixel_def chrome_pixel_def Let_def chk_def v01_weights c_quotients)

lemma sugar_agrees: "sine_bounded sines \<Longrightarrow> v01_sugar_pixel sines t x y = sugar_pixel sines t x y"
  by (simp add: v01_sugar_pixel_def sugar_pixel_def Let_def chk_def v01_weights)

lemma pixel_agrees:
  assumes "sine_bounded sines" "0 \<le> y" "y < 180"
  shows "v01_pixel sines which t x y = scene_pixel sines which t x y"
  using assms by (simp add: v01_pixel_def scene_pixel_def candy_agrees checker_agrees bubbles_agrees ribbons_agrees
      chrome_agrees sugar_agrees)

section \<open>Every interleaving draws the same rows\<close>

text \<open>A worker that runs alone performs the steps of its thread one after the other.\<close>

fun run_pixels :: "(int \<Rightarrow> int \<Rightarrow> u32 option) \<Rightarrow> (int \<times> int) list \<Rightarrow> draw" where
  "run_pixels pixel [] h = Some h"
| "run_pixels pixel ((x, y) # ps) h = do { h \<leftarrow> v01_put pixel x y h; run_pixels pixel ps h }"

lemma run_pixels_append: "run_pixels pixel (ps @ qs) h = do { h \<leftarrow> run_pixels pixel ps h; run_pixels pixel qs h }"
  by (induction ps arbitrary: h) (auto split: bind_splits)

lemma for_int_run:
  assumes "\<And>i h. run_pixels pixel (f i) h = body i h"
  shows "for_int lo hi body h = run_pixels pixel (concat (map f [lo..hi - 1])) h"
  using assms
proof (induction lo hi body h rule: for_int.induct)
  case (1 i hi body h)
  show ?case
  proof (cases "i < hi")
    case True
    then have "[i..hi - 1] = i # [i + 1..hi - 1]" by (subst upto_rec1) simp_all
    with True 1 show ?thesis
      by (cases "body i h") (simp_all add: for_int.simps [of i] run_pixels_append)
  qed simp
qed

lemma rows_run: "v01_rows pixel y0 y1 h = run_pixels pixel (v01_pixels y0 y1) h"
proof -
  have one: "run_pixels pixel [(x, y)] h = v01_put pixel x y h" for x y h
    by (cases "v01_put pixel x y h") simp_all
  have "run_pixels pixel (map (\<lambda>x. (x, y)) [0..319]) h = for_int 0 320 (\<lambda>x. v01_put pixel x y) h" for y h
    using for_int_run [where f = "\<lambda>x. [(x, y)]" and body = "\<lambda>x. v01_put pixel x y", OF one, of 0 320 h]
    by (simp add: concat_map_singleton)
  then show ?thesis unfolding v01_rows_def v01_pixels_def by (rule for_int_run)
qed

lemma worker_run:
  "v01_worker sines j h = (if v01_prologue sines (job_which j) (job_t j)
     then run_pixels (v01_pixel sines (job_which j) (job_t j)) (v01_pixels (job_y0 j) (job_y1 j)) h else None)"
  unfolding rows_run [symmetric]
  by (simp add: v01_worker_def v01_prologue_def v01_pixel_def v01_scene_candy_def v01_scene_checker_def
      v01_scene_bubbles_def v01_scene_ribbons_def v01_scene_chrome_def v01_scene_sugar_def)

text \<open>
  The array while some pixels are still pending: every other pixel of the frame has its final value.
\<close>

definition drawn :: "(int \<Rightarrow> int \<Rightarrow> u32 option) \<Rightarrow> (int \<times> int) set \<Rightarrow> heap \<Rightarrow> heap" where
  "drawn pixel pending h =
     h(low := map (\<lambda>k. if k < 57600 \<and> (int (k mod 320), int (k div 320)) \<notin> pending then shade pixel k else h low ! k)
                [0..<length (h low)])"

abbreviation frame_pixels :: "(int \<times> int) set" where
  "frame_pixels \<equiv> {0..<320} \<times> {0..<180}"

lemma length_drawn [simp]: "length (drawn pixel pending h a) = length (h a)"
  by (simp add: drawn_def)

lemma drawn_other [simp]: "a \<noteq> low \<Longrightarrow> drawn pixel pending h a = h a"
  by (simp add: drawn_def)

lemma nth_drawn:
  "k < length (h low) \<Longrightarrow> drawn pixel pending h low ! k =
     (if k < 57600 \<and> (int (k mod 320), int (k div 320)) \<notin> pending then shade pixel k else h low ! k)"
  by (simp add: drawn_def)

lemma drawn_nothing: "drawn pixel frame_pixels h = h"
proof -
  have "(int (k mod 320), int (k div 320)) \<in> frame_pixels" if "k < 57600" for k :: nat using that by auto
  then show ?thesis by (intro heap_eqI [of low]) (auto simp: drawn_def)
qed

lemma drawn_all: "drawn pixel {} h = fill low 0 57600 (shade pixel) h"
  by (simp add: drawn_def fill_def)

lemma put_drawn:
  assumes "(x, y) \<in> frame_pixels" "pixel x y = Some v" "57600 \<le> length (h low)"
  shows "v01_put pixel x y (drawn pixel pending h) = Some (drawn pixel (pending - {(x, y)}) h)"
proof -
  let ?k = "nat (y * 320 + x)"
  have xy: "0 \<le> x" "x < 320" "0 \<le> y" "y < 180" using assms(1) by auto
  then have k: "?k = nat y * 320 + nat x" "?k < 57600" by (auto simp: nat_add_distrib nat_mult_distrib)
  then have dm: "int (?k mod 320) = x" "int (?k div 320) = y" using xy by auto
  have at: "(int (j mod 320), int (j div 320)) = (x, y) \<longleftrightarrow> j = ?k" for j
  proof
    assume "(int (j mod 320), int (j div 320)) = (x, y)"
    then have "j mod 320 = nat x" "j div 320 = nat y" by auto
    with k(1) show "j = ?k" using div_mult_mod_eq [of j 320] by simp
  qed (use dm in simp)
  have "shade pixel ?k = v" using assms(2) by (simp add: shade_def dm)
  moreover have "(drawn pixel pending h)(low := (drawn pixel pending h low)[?k := shade pixel ?k])
      = drawn pixel (pending - {(x, y)}) h" (is "?g = ?g'")
  proof (rule heap_eqI [of low])
    fix j assume "j < length (?g' low)"
    then have j: "j < length (h low)" by simp
    show "?g low ! j = ?g' low ! j"
    proof (cases "j = ?k")
      case True
      with at [of j] j k(2) show ?thesis by (simp add: nth_drawn del: prod.inject)
    next
      case False
      with at [of j] j have "?g low ! j = drawn pixel pending h low ! j"
        "(int (j mod 320), int (j div 320)) \<in> pending - {(x, y)} \<longleftrightarrow> (int (j mod 320), int (j div 320)) \<in> pending"
        by simp_all
      then show ?thesis unfolding nth_drawn [of j h, OF j] by simp
    qed
  qed simp_all
  ultimately show ?thesis
    using assms(2,3) xy k(2) by (simp add: v01_put_def v01_store_def poke_def in_i32_def)
qed

text \<open>A step takes one pixel from the pending ones of the threads.\<close>

lemma concat_advance:
  assumes "i < length ts" "ts ! i = p # rest"
  obtains as bs where "concat ts = as @ p # bs" "concat (ts[i := rest]) = as @ bs"
  using assms that [of "concat (take i ts)" "rest @ concat (drop (Suc i) ts)"]
    id_take_nth_drop [OF assms(1)] upd_conv_take_nth_drop [OF assms(1), of rest]
  by (metis append.assoc append_Cons concat.simps(2) concat_append)

definition frame_inv :: "(int \<Rightarrow> int \<Rightarrow> u32 option) \<Rightarrow> heap \<Rightarrow> (int \<times> int) list list \<times> heap \<Rightarrow> bool" where
  "frame_inv pixel h0 s \<longleftrightarrow> (case s of (ts, h) \<Rightarrow>
     distinct (concat ts) \<and> set (concat ts) \<subseteq> frame_pixels \<and> h = drawn pixel (set (concat ts)) h0)"

lemma step_from_inv:
  assumes tot: "shader_total pixel" and len: "frame_backed low h0" and i: "frame_inv pixel h0 (ts, h)"
    and p: "k < length ts" "ts ! k = (x, y) # rest"
  shows "\<exists>h'. v01_put pixel x y h = Some h' \<and> frame_inv pixel h0 (ts[k := rest], h') \<and>
    length (concat (ts[k := rest])) < length (concat ts)"
proof -
  from concat_advance [OF p] obtain as bs where
    ab: "concat ts = as @ (x, y) # bs" "concat (ts[k := rest]) = as @ bs" .
  from i have inv: "distinct (as @ (x, y) # bs)" "set (as @ (x, y) # bs) \<subseteq> frame_pixels"
    "h = drawn pixel (set (as @ (x, y) # bs)) h0" by (simp_all add: frame_inv_def ab(1) del: set_concat)
  have "set (as @ bs) = set (as @ (x, y) # bs) - {(x, y)}" using inv(1) by auto
  moreover have xy: "(x, y) \<in> frame_pixels" using inv(2) by auto
  moreover obtain v where "pixel x y = Some v"
    using tot [unfolded shader_total_def, rule_format, of x y] xy by auto
  ultimately have "v01_put pixel x y h = Some (drawn pixel (set (as @ bs)) h0)"
    unfolding inv(3) using put_drawn [where pixel = pixel and h = h0, OF xy] len by (simp add: frame_backed_def)
  with inv show ?thesis by (auto simp: frame_inv_def ab simp del: set_concat)
qed

lemma v01_step_inv:
  assumes "shader_total pixel" "frame_backed low h0" "v01_step pixel s s'" "frame_inv pixel h0 s"
  shows "frame_inv pixel h0 s' \<and> length (concat (fst s')) < length (concat (fst s))"
  using assms(3)
proof cases
  case (1 i threads x y rest h h')
  with step_from_inv [OF assms(1,2), of threads h i x y rest] assms(4) show ?thesis by auto
qed

lemma run_inv:
  assumes "shader_total pixel" "frame_backed low h0" "(v01_step pixel)\<^sup>*\<^sup>* s s'" "frame_inv pixel h0 s"
  shows "frame_inv pixel h0 s'"
  using assms(3,4) by (induction rule: rtranclp_induct) (simp_all add: v01_step_inv [OF assms(1,2)])

lemma run_completes:
  assumes tot: "shader_total pixel" and len: "frame_backed low h0"
  shows "frame_inv pixel h0 (ts, h) \<Longrightarrow>
    \<exists>ts' h'. (v01_step pixel)\<^sup>*\<^sup>* (ts, h) (ts', h') \<and> list_all (\<lambda>rest. rest = []) ts'"
proof (induction "length (concat ts)" arbitrary: ts h rule: less_induct)
  case less
  show ?case
  proof (cases "list_all (\<lambda>rest. rest = []) ts")
    case False
    then obtain k where k: "k < length ts" "ts ! k \<noteq> []" by (auto simp: list_all_length)
    then obtain x y rest where p: "ts ! k = (x, y) # rest" by (metis list.exhaust prod.exhaust)
    from step_from_inv [OF tot len less.prems k(1) p] obtain h' where
      h': "v01_put pixel x y h = Some h'" "frame_inv pixel h0 (ts[k := rest], h')"
      "length (concat (ts[k := rest])) < length (concat ts)" by blast
    from less.hyps [OF h'(3,2)] v01_step.intros [OF k(1) p h'(1)] show ?thesis
      by (meson converse_rtranclp_into_rtranclp)
  qed blast
qed

text \<open>The bands of the four threads are the frame, cut after every 45 rows.\<close>

lemma pixels_split: "y0 \<le> y1 \<Longrightarrow> y1 \<le> y2 \<Longrightarrow> v01_pixels y0 y1 @ v01_pixels y1 y2 = v01_pixels y0 y2"
  using upto_split2 [of y0 "y1 - 1" "y2 - 1"] by (cases "y0 = y1") (simp_all add: v01_pixels_def)

lemma job_pixels:
  "concat (map (\<lambda>j. v01_pixels (job_y0 j) (job_y1 j)) (v01_jobs which t)) = v01_pixels 0 180"
proof -
  have "[0..3] = [0, 1, 2, 3 :: int]" by (simp add: upto.simps)
  then show ?thesis by (simp add: v01_jobs_def pixels_split)
qed

lemma frame_start: "frame_inv pixel h (map (\<lambda>j. v01_pixels (job_y0 j) (job_y1 j)) (v01_jobs which t), h)"
proof -
  have p: "v01_pixels 0 180 = map prod.swap (List.product [0..179] [0..319])"
    by (simp add: v01_pixels_def product_concat_map map_concat comp_def)
  have "distinct (v01_pixels 0 180)" unfolding p by (simp add: distinct_map distinct_product)
  moreover have "set (v01_pixels 0 180) = frame_pixels" unfolding p by force
  ultimately show ?thesis by (simp add: frame_inv_def job_pixels drawn_nothing del: set_concat)
qed

lemma frame_rows:
  assumes s: "sine_bounded sines" and t: "0 \<le> t" "t < 65536"
  shows "shader_total (v01_pixel sines which t)"
    "fill low 0 57600 (shade (v01_pixel sines which t)) h = fill low 0 57600 (shade (scene_pixel sines which t)) h"
proof -
  have e: "v01_pixel sines which t x y = scene_pixel sines which t x y" if "0 \<le> y" "y < 180" for x y
    using pixel_agrees [OF s that] .
  show "shader_total (v01_pixel sines which t)"
    using candy_total [OF s t] checker_total [OF s t] bubbles_total [OF s t] ribbons_total [OF s t]
      chrome_total [OF s t] sugar_total [OF s t] e
    by (simp add: shader_total_def scene_pixel_def)
  have "shade (v01_pixel sines which t) k = shade (scene_pixel sines which t) k" if "k < 57600" for k
    using e [of "int (k div 320)"] that by (simp add: shade_def)
  then show "fill low 0 57600 (shade (v01_pixel sines which t)) h = fill low 0 57600 (shade (scene_pixel sines which t)) h"
    by (intro heap_eqI [of low]) auto
qed

lemma small_phase: "0 \<le> t \<Longrightarrow> t < 65536 \<Longrightarrow> legacy_frame_phase (of_int t) = t"
  by (simp add: legacy_frame_phase_def uint_mod uint_word_of_int)

text \<open>What the old renderer draws, in terms of the sequential rendering of the current one.\<close>

lemma v01_frame_overlay:
  assumes w: "sine_bounded sines" "0 \<le> which" "which < 6" and t: "0 \<le> t" "t < 65536" and h: "frame_backed low h"
  shows "v01_render_frame sines which t h h' \<longleftrightarrow>
    v01_overlay sines which t (fill low 0 57600 (shade (v01_pixel sines which t)) h) = Some h'"
proof -
  let ?p = "v01_pixel sines which t" and ?ts = "map (\<lambda>j. v01_pixels (job_y0 j) (job_y1 j)) (v01_jobs which t)"
  note rows = frame_rows [OF w(1) t, of which]
  have pro: "v01_prologue sines which t"
    using bubble_checks_ok [OF w(1) t] by (auto simp: v01_prologue_def centres_agree list_all_iff)
  have run: "h1 = fill low 0 57600 (shade ?p) h"
    if "(v01_step ?p)\<^sup>*\<^sup>* (?ts, h) (joined, h1)" "list_all (\<lambda>rest. rest = []) joined" for joined h1
  proof -
    have "concat joined = []" using that(2) by (simp add: list_all_iff)
    with run_inv [OF rows(1) h that(1) frame_start] have "h1 = drawn ?p {} h"
      by (simp add: frame_inv_def del: set_concat)
    then show ?thesis by (simp add: drawn_all)
  qed
  from run_completes [OF rows(1) h frame_start] obtain joined h1 where
    fin: "(v01_step ?p)\<^sup>*\<^sup>* (?ts, h) (joined, h1)" "list_all (\<lambda>rest. rest = []) joined" by blast
  show ?thesis
    using run v01_render_frame.intros [OF pro fin, of h'] run [OF fin] by (auto elim: v01_render_frame.cases)
qed

lemma v01_frame_inline:
  assumes w: "sine_bounded sines" "0 \<le> which" "which < 6" and t: "0 \<le> t" "t < 65536" and h: "frame_backed low h"
  shows "v01_render_frame sines which t h h' \<longleftrightarrow> render_inline sines low_canvas which (of_int t) h = Some h'"
proof -
  let ?h = "fill low 0 57600 (shade (v01_pixel sines which t)) h"
  have "v01_overlay sines which t ?h = overlay sines low_canvas which t ?h"
    by (rule matchesD [OF matches_overlay [OF w(1) t]]) (use h in \<open>simp add: backed_def low_canvas_def frame_backed_def\<close>)
  moreover have "render_legacy_scene sines (Some (rows_context low_canvas 0 180 (of_int t))) which h = Some ?h"
    using rows_render_fill [OF w, of low_canvas low h 0 180 "of_int t"] h small_phase [OF t]
      frame_rows(2) [OF w(1) t, of which h]
    by (simp add: low_canvas_def frame_backed_def)
  ultimately show ?thesis
    unfolding v01_frame_overlay [OF w t h] render_inline_def using w(2,3) small_phase [OF t]
    by (simp add: render_legacy_scene_def Let_def)
qed

text \<open>The four worker functions called one after the other, and then the overlay.\<close>

definition v01_sequential :: "sine_table \<Rightarrow> int \<Rightarrow> int \<Rightarrow> draw" where
  "v01_sequential sines which t = draw_all (map (v01_worker sines) (v01_jobs which t) @ [v01_overlay sines which t])"

lemma draw_all_workers:
  assumes "v01_prologue sines which t" "\<forall>j \<in> set js. job_which j = which \<and> job_t j = t"
  shows "draw_all (map (v01_worker sines) js @ [f]) h =
    do { h \<leftarrow> run_pixels (v01_pixel sines which t) (concat (map (\<lambda>j. v01_pixels (job_y0 j) (job_y1 j)) js)) h; f h }"
  using assms(2)
proof (induction js arbitrary: h)
  case Nil
  then show ?case by (cases "f h") simp_all
next
  case (Cons j js)
  with assms(1) show ?case
    by (cases "run_pixels (v01_pixel sines which t) (v01_pixels (job_y0 j) (job_y1 j)) h")
      (simp_all add: worker_run run_pixels_append)
qed

lemma v01_sequential_inline:
  assumes w: "sine_bounded sines" "0 \<le> which" "which < 6" and t: "0 \<le> t" "t < 65536" and h: "frame_backed low h"
  shows "v01_render_frame sines which t h h' \<longleftrightarrow> v01_sequential sines which t h = Some h'"
proof -
  let ?p = "v01_pixel sines which t"
  have pro: "v01_prologue sines which t"
    using bubble_checks_ok [OF w(1) t] by (auto simp: v01_prologue_def centres_agree list_all_iff)
  have "v01_put ?p x y = (\<lambda>h. do { v \<leftarrow> ?p x y; put_low low_canvas x y v h })" for x y
    by (intro ext) (simp add: v01_put_def v01_store_def put_low_def low_canvas_def)
  then have "v01_rows ?p 0 180 h = render_rows ?p low_canvas 0 180 h"
    by (simp add: v01_rows_def render_rows_def)
  also have "\<dots> = Some (fill low 0 57600 (shade ?p) h)"
    using render_rows_fill [of low_canvas low h ?p 0 180] frame_rows(1) [OF w(1) t] h
    by (simp add: low_canvas_def frame_backed_def)
  finally have "run_pixels ?p (v01_pixels 0 180) h = Some (fill low 0 57600 (shade ?p) h)" by (simp add: rows_run)
  then have "v01_sequential sines which t h = v01_overlay sines which t (fill low 0 57600 (shade ?p) h)"
    using draw_all_workers [OF pro, of "v01_jobs which t"] unfolding v01_sequential_def job_pixels
    by (simp add: v01_jobs_def)
  then show ?thesis using v01_frame_overlay [OF w t h] by simp
qed

lemma low_on: "low_canvas\<lparr>pixels := Some low\<rparr> = low_canvas"
  by (simp add: low_canvas_def)



text \<open>
  The frame number of the first release is not reduced: from frame 143165577 on (55
  days at 30 frames a second) the bubble scene computes a product that overflows an \<^verbatim>\<open>int\<close>, so the
  frame is undefined. The current renderer, which reduces the frame number modulo 65536 first,
  draws every such frame.
\<close>

theorem v01_overflows_after_weeks:
  assumes "sine_bounded sines" "frame_backed low h" "143165577 \<le> t"
  shows "(\<nexists>h'. v01_render_frame sines 2 t h h') \<and> render_inline sines low_canvas 2 (of_int t) h \<noteq> None"
proof
  have "\<not> in_i32 (t * (9 + 6))" using assms(3) by (simp add: in_i32_def)
  moreover have "(6 :: int) \<in> set [0..6]" by simp
  ultimately have "\<not> v01_centres_ok sines t" unfolding v01_centres_ok_def list_all_iff by fastforce
  then show "\<nexists>h'. v01_render_frame sines 2 t h h'" by (auto elim: v01_render_frame.cases simp: v01_prologue_def)
  show "render_inline sines low_canvas 2 (of_int t) h \<noteq> None"
    by (rule render_inline_defined [OF assms(1) _ _ assms(2), of 2 "of_int t"]) (simp_all add: low_on)
qed

theorem v01_overflows_after_weeks_witness:
  "(\<nexists>h'. v01_render_frame flat_sines 2 200000000 (\<lambda>_. replicate 57600 0) h') \<and>
   render_inline flat_sines low_canvas 2 200000000 (\<lambda>_. replicate 57600 0) \<noteq> None"
proof -
  have "sine_bounded flat_sines" by (rule flat_sines_bounded)
  from v01_overflows_after_weeks [OF this, of "\<lambda>_. replicate 57600 0" 200000000] show ?thesis
    by (simp add: frame_backed_def)
qed

end
