(* ===== verification/Runtime.thy ===== *)
theory Runtime
  imports Cart_Prelude
begin

text \<open>
  The scene clock (\<^verbatim>\<open>cart/src/runtime.c\<close>, \<^verbatim>\<open>cart/include/cart/runtime.h\<close>): frame
  deadlines, the attract loop over the scenes, manual holds, and the photosensitivity guard that
  keeps committed scene changes apart. Times are unsigned 64-bit nanoseconds, as in the code.
  Every operation takes the runtime behind its pointer (\<open>None\<close> for NULL) and returns the
  status and the runtime it leaves.
\<close>

section \<open>State and operations\<close>

record cart_runtime =
  scene_count :: size_t
  scene_index :: size_t
  manual_scene_index :: size_t
  origin_ns :: u64
  frame_period_ns :: u64
  scene_period_ns :: u64
  manual_hold_until_ns :: u64
  min_change_ns :: u64
  last_change_ns :: u64
  had_change :: bool
  next_deadline_ns :: u64
  frame :: u64
  dropped_deadlines :: u64
  sleep_ns :: u64
  manual_hold_active :: bool

definition add_saturating :: "u64 \<Rightarrow> u64 \<Rightarrow> u64" where
  "add_saturating left right = (if left > UINT64_MAX - right then UINT64_MAX else left + right)"

definition cart_runtime_init ::
    "bool \<Rightarrow> size_t \<Rightarrow> u64 \<Rightarrow> u64 \<Rightarrow> u64 \<Rightarrow> u64 \<Rightarrow> int \<times> cart_runtime option" where
  "cart_runtime_init runtime_is_null count origin frame_period scene_period min_change =
     (if runtime_is_null \<or> count = 0 \<or> frame_period = 0 \<or> scene_period = 0 \<or>
         origin \<ge> UINT64_MAX - frame_period
      then (- 1, None)
      else (0, Some \<lparr>scene_count = count, scene_index = 0, manual_scene_index = 0,
                     origin_ns = origin, frame_period_ns = frame_period,
                     scene_period_ns = scene_period, manual_hold_until_ns = 0,
                     min_change_ns = min_change, last_change_ns = 0, had_change = False,
                     next_deadline_ns = origin + frame_period, frame = 0,
                     dropped_deadlines = 0, sleep_ns = frame_period,
                     manual_hold_active = False\<rparr>))"

definition change_allowed :: "cart_runtime \<Rightarrow> u64 \<Rightarrow> bool" where
  "change_allowed r now =
     (if min_change_ns r = 0 then True
      else if \<not> had_change r then True
      else if now < last_change_ns r then False
      else now - last_change_ns r \<ge> min_change_ns r)"

definition record_change :: "cart_runtime \<Rightarrow> u64 \<Rightarrow> cart_runtime" where
  "record_change r now = r\<lparr>last_change_ns := now, had_change := True\<rparr>"

text \<open>The first half of a tick (clock, hold and scene choice), then the deadline bookkeeping.\<close>

definition tick_scene :: "cart_runtime \<Rightarrow> u64 \<Rightarrow> cart_runtime" where
  "tick_scene r now =
     (let elapsed = now - origin_ns r;
          r = r\<lparr>frame := elapsed div frame_period_ns r\<rparr>;
          r = (if manual_hold_active r \<and> now \<ge> manual_hold_until_ns r
               then r\<lparr>manual_hold_active := False\<rparr> else r)
      in if manual_hold_active r then r\<lparr>scene_index := manual_scene_index r\<rparr>
         else let automatic = ucast ((elapsed div scene_period_ns r) mod ucast (scene_count r)) in
           if automatic \<noteq> scene_index r
           then (if change_allowed r now then (record_change r now)\<lparr>scene_index := automatic\<rparr>
                 else r)
           else r)"

definition tick_deadline :: "cart_runtime \<Rightarrow> u64 \<Rightarrow> int \<times> cart_runtime" where
  "tick_deadline r now =
     (if now < next_deadline_ns r then (0, r\<lparr>sleep_ns := next_deadline_ns r - now\<rparr>)
      else if now > UINT64_MAX - frame_period_ns r then (- 1, r)
      else let late = now - next_deadline_ns r in
        if late < frame_period_ns r then
          if next_deadline_ns r > UINT64_MAX - frame_period_ns r then (- 1, r)
          else let r = r\<lparr>next_deadline_ns := next_deadline_ns r + frame_period_ns r\<rparr>
               in (0, r\<lparr>sleep_ns := next_deadline_ns r - now\<rparr>)
        else
          let r = r\<lparr>dropped_deadlines := dropped_deadlines r + late div frame_period_ns r,
                    next_deadline_ns := now + frame_period_ns r\<rparr>
          in (0, r\<lparr>sleep_ns := next_deadline_ns r - now\<rparr>))"

definition cart_runtime_tick :: "cart_runtime option \<Rightarrow> u64 \<Rightarrow> int \<times> cart_runtime option" where
  "cart_runtime_tick runtime now =
     (case runtime of
        None \<Rightarrow> (- 1, None)
      | Some r \<Rightarrow>
          if scene_count r = 0 \<or> frame_period_ns r = 0 \<or> scene_period_ns r = 0
          then (- 1, Some r)
          else let now = (if now < origin_ns r then origin_ns r else now);
                   (status, r) = tick_deadline (tick_scene r now) now
               in (status, Some r))"

text \<open>The common tail of the two requests: commit the chosen scene and arm the hold.\<close>

definition hold_scene :: "cart_runtime \<Rightarrow> size_t \<Rightarrow> u64 \<Rightarrow> u64 \<Rightarrow> cart_runtime" where
  "hold_scene r chosen now hold =
     (let r = r\<lparr>manual_scene_index := chosen\<rparr>;
          r = (if manual_scene_index r \<noteq> scene_index r then record_change r now else r);
          r = r\<lparr>scene_index := manual_scene_index r\<rparr>
      in if hold = 0 then r\<lparr>manual_hold_active := False\<rparr>
         else r\<lparr>manual_hold_until_ns := add_saturating now hold, manual_hold_active := True\<rparr>)"

definition cart_runtime_request_next ::
    "cart_runtime option \<Rightarrow> u64 \<Rightarrow> u64 \<Rightarrow> cart_runtime option" where
  "cart_runtime_request_next runtime now hold =
     (case runtime of
        None \<Rightarrow> None
      | Some r \<Rightarrow>
          if scene_count r = 0 then Some r
          else if \<not> change_allowed r now then Some r
          else Some (hold_scene r ((scene_index r + 1) mod scene_count r) now hold))"

definition cart_runtime_request_previous ::
    "cart_runtime option \<Rightarrow> u64 \<Rightarrow> u64 \<Rightarrow> cart_runtime option" where
  "cart_runtime_request_previous runtime now hold =
     (case runtime of
        None \<Rightarrow> None
      | Some r \<Rightarrow>
          if scene_count r = 0 then Some r
          else if \<not> change_allowed r now then Some r
          else Some (hold_scene r ((scene_index r + scene_count r - 1) mod scene_count r) now hold))"

section \<open>Operations as events\<close>

datatype rt_op = Tick u64 | Next u64 u64 | Previous u64 u64

fun rt_step :: "cart_runtime \<Rightarrow> rt_op \<Rightarrow> cart_runtime" where
  "rt_step r (Tick now) = the (snd (cart_runtime_tick (Some r) now))"
| "rt_step r (Next now hold) = the (cart_runtime_request_next (Some r) now hold)"
| "rt_step r (Previous now hold) = the (cart_runtime_request_previous (Some r) now hold)"

definition rt_run :: "cart_runtime \<Rightarrow> rt_op list \<Rightarrow> cart_runtime" where
  "rt_run r ops = foldl rt_step r ops"

section \<open>The invariant\<close>

definition rt_inv :: "cart_runtime \<Rightarrow> bool" where
  "rt_inv r \<longleftrightarrow> scene_count r \<noteq> 0 \<and> frame_period_ns r \<noteq> 0 \<and> scene_period_ns r \<noteq> 0 \<and>
     scene_index r < scene_count r \<and> manual_scene_index r < scene_count r \<and>
     (manual_hold_active r \<longrightarrow> scene_index r = manual_scene_index r)"

named_theorems rt_defs \<open>definitions of the scene clock\<close>

lemmas [rt_defs] = cart_runtime_tick_def tick_scene_def tick_deadline_def record_change_def
  cart_runtime_request_next_def cart_runtime_request_previous_def hold_scene_def

lemma automatic_less:
  assumes c: "c \<noteq> 0"
  shows "unat (ucast ((e :: u64) mod ucast c) :: size_t) = unat e mod unat c"
    and "(ucast ((e :: u64) mod ucast c) :: size_t) < c"
proof -
  have lt: "unat e mod unat c < unat c" using c by (simp add: unat_gt_0)
  then have "unat (e mod ucast c) < 2 ^ 32"
    using unsigned_less [of c, where ?'a = nat] by (simp add: unat_mod)
  then show eq: "unat (ucast (e mod ucast c) :: size_t) = unat e mod unat c"
    by (simp add: unat_ucast_fits unat_mod)
  with lt show "(ucast (e mod ucast c) :: size_t) < c" by (simp add: word_less_nat_alt)
qed

text \<open>What a tick does to the scene, in one equation, and that the deadline part leaves it alone.\<close>

definition automatic_scene :: "cart_runtime \<Rightarrow> u64 \<Rightarrow> size_t" where
  "automatic_scene r now =
     ucast ((now - origin_ns r) div scene_period_ns r mod ucast (scene_count r))"

definition clamp_now :: "cart_runtime \<Rightarrow> u64 \<Rightarrow> u64" where
  "clamp_now r now = (if now < origin_ns r then origin_ns r else now)"

lemma unat_clamp_now: "unat (clamp_now r now) = max (unat (origin_ns r)) (unat now)"
  by (simp add: clamp_now_def word_less_nat_alt max_def)

abbreviation held :: "cart_runtime \<Rightarrow> u64 \<Rightarrow> bool" where
  "held r now \<equiv> manual_hold_active r \<and> now < manual_hold_until_ns r"

lemma tick_deadline_frame:
  "scene_index (snd (tick_deadline r now)) = scene_index r"
  "scene_count (snd (tick_deadline r now)) = scene_count r"
  "manual_scene_index (snd (tick_deadline r now)) = manual_scene_index r"
  "manual_hold_active (snd (tick_deadline r now)) = manual_hold_active r"
  "frame_period_ns (snd (tick_deadline r now)) = frame_period_ns r"
  "scene_period_ns (snd (tick_deadline r now)) = scene_period_ns r"
  "min_change_ns (snd (tick_deadline r now)) = min_change_ns r"
  "last_change_ns (snd (tick_deadline r now)) = last_change_ns r"
  "had_change (snd (tick_deadline r now)) = had_change r"
  "origin_ns (snd (tick_deadline r now)) = origin_ns r"
  "frame (snd (tick_deadline r now)) = frame r"
  by (simp_all add: tick_deadline_def Let_def)

lemma change_allowed_frame [simp]:
  "change_allowed (r\<lparr>frame := f\<rparr>) now = change_allowed r now"
  "change_allowed (r\<lparr>frame := f, manual_hold_active := b\<rparr>) now = change_allowed r now"
  by (simp_all add: change_allowed_def)

lemma tick_scene_frame:
  "scene_count (tick_scene r now) = scene_count r"
  "manual_scene_index (tick_scene r now) = manual_scene_index r"
  "manual_hold_active (tick_scene r now) = held r now"
  "frame_period_ns (tick_scene r now) = frame_period_ns r"
  "scene_period_ns (tick_scene r now) = scene_period_ns r"
  "min_change_ns (tick_scene r now) = min_change_ns r"
  "origin_ns (tick_scene r now) = origin_ns r"
  "next_deadline_ns (tick_scene r now) = next_deadline_ns r"
  "frame (tick_scene r now) = (now - origin_ns r) div frame_period_ns r"
  by (simp_all add: tick_scene_def Let_def record_change_def flip: not_less)

abbreviation tick_changes :: "cart_runtime \<Rightarrow> u64 \<Rightarrow> bool" where
  "tick_changes r now \<equiv> \<not> held r now \<and> automatic_scene r now \<noteq> scene_index r \<and> change_allowed r now"

lemma tick_scene_index:
  "scene_index (tick_scene r now) =
     (if held r now then manual_scene_index r
      else if tick_changes r now then automatic_scene r now else scene_index r)"
  by (cases "manual_hold_active r"; cases "now < manual_hold_until_ns r")
     (simp_all add: tick_scene_def Let_def record_change_def automatic_scene_def flip: not_less)

lemma tick_scene_change:
  "had_change (tick_scene r now) = (had_change r \<or> tick_changes r now)"
  "last_change_ns (tick_scene r now) = (if tick_changes r now then now else last_change_ns r)"
  by (cases "manual_hold_active r"; cases "now < manual_hold_until_ns r";
      simp add: tick_scene_def Let_def record_change_def automatic_scene_def flip: not_less)+

lemma tick_unfold:
  "rt_inv r \<Longrightarrow> cart_runtime_tick (Some r) now =
     (let n = clamp_now r now; d = tick_deadline (tick_scene r n) n in (fst d, Some (snd d)))"
  by (auto simp: cart_runtime_tick_def rt_inv_def Let_def clamp_now_def split: prod.splits)

lemma automatic_scene_less: "scene_count r \<noteq> 0 \<Longrightarrow> automatic_scene r now < scene_count r"
  by (simp only: automatic_scene_def automatic_less(2) not_False_eq_True)

lemma rt_inv_tick: "rt_inv r \<Longrightarrow> rt_inv (rt_step r (Tick now))"
  using automatic_scene_less [of r]
  by (auto simp: tick_unfold Let_def rt_inv_def tick_deadline_frame tick_scene_frame
      tick_scene_index)

lemma rt_inv_hold: "rt_inv r \<Longrightarrow> chosen < scene_count r \<Longrightarrow> rt_inv (hold_scene r chosen now hold)"
  by (auto simp: rt_inv_def hold_scene_def record_change_def Let_def)

lemma rt_inv_step: "rt_inv r \<Longrightarrow> rt_inv (rt_step r op)"
proof (cases op)
  case (Tick now)
  then show "rt_inv r \<Longrightarrow> ?thesis" by (simp only: rt_inv_tick)
qed (auto simp: cart_runtime_request_next_def cart_runtime_request_previous_def rt_inv_def
       intro!: rt_inv_hold [unfolded rt_inv_def, rule_format] word_mod_less)

lemma rt_inv_init:
  "cart_runtime_init b n origin fp sp mc = (st, Some r) \<Longrightarrow> rt_inv r"
  by (auto simp: cart_runtime_init_def rt_inv_def word_gt_0 split: if_splits)

lemma rt_run_simps [simp]:
  "rt_run r [] = r" "rt_run r (op # ops) = rt_run (rt_step r op) ops"
  by (simp_all add: rt_run_def)

lemma rt_inv_run: "rt_inv r \<Longrightarrow> rt_inv (rt_run r ops)"
  by (induction ops arbitrary: r) (simp_all add: rt_inv_step)

section \<open>Rate limiting\<close>

text \<open>
  The contract of a rate-limited component: its visible value changes only when a gap has passed
  since the last recorded change, the change is recorded, and nothing else is. The client fact:
  along any run, consecutive changes are at least the gap apart.
\<close>

locale rate_limited =
  fixes step :: "'s \<Rightarrow> 'op \<Rightarrow> 's"
    and shown :: "'s \<Rightarrow> 'i"
    and last_change :: "'s \<Rightarrow> nat option"
    and gap :: "'s \<Rightarrow> nat"
    and invar :: "'s \<Rightarrow> bool"
  assumes invar_step: "invar s \<Longrightarrow> invar (step s op)"
    and gap_step: "invar s \<Longrightarrow> gap (step s op) = gap s"
    and quiet: "invar s \<Longrightarrow> shown (step s op) = shown s \<Longrightarrow> last_change (step s op) = last_change s"
    and change: "invar s \<Longrightarrow> shown (step s op) \<noteq> shown s \<Longrightarrow>
          \<exists>t. last_change (step s op) = Some t \<and>
              (\<forall>t0. last_change s = Some t0 \<longrightarrow> t0 + gap s \<le> t)"
begin

primrec changes :: "'s \<Rightarrow> 'op list \<Rightarrow> nat list" where
  "changes s [] = []"
| "changes s (op # ops) =
     (if shown (step s op) \<noteq> shown s then [the (last_change (step s op))] else []) @
     changes (step s op) ops"

lemma changes_spaced:
  "invar s \<Longrightarrow>
   successively (\<lambda>t u. t + gap s \<le> u) (changes s ops) \<and>
   (\<forall>t0 u us. last_change s = Some t0 \<longrightarrow> changes s ops = u # us \<longrightarrow> t0 + gap s \<le> u)"
proof (induction ops arbitrary: s)
  case Nil
  show ?case by simp
next
  case (Cons op ops)
  let ?s = "step s op"
  have inv: "invar ?s" and g: "gap ?s = gap s"
    using Cons.prems by (simp_all add: invar_step gap_step)
  note IH = Cons.IH [OF inv, unfolded g]
  show ?case
  proof (cases "shown ?s = shown s")
    case True
    with IH quiet [OF Cons.prems True] show ?thesis by simp
  next
    case False
    from change [OF Cons.prems False] obtain t where t: "last_change ?s = Some t"
      and t0: "\<forall>t0. last_change s = Some t0 \<longrightarrow> t0 + gap s \<le> t" by blast
    with False IH show ?thesis
      by (cases "changes ?s ops") (auto simp: successively_Cons)
  qed
qed

end

definition last_change_at :: "cart_runtime \<Rightarrow> nat option" where
  "last_change_at r = (if had_change r then Some (unat (last_change_ns r)) else None)"

definition guarded :: "cart_runtime \<Rightarrow> bool" where
  "guarded r \<longleftrightarrow> rt_inv r \<and> min_change_ns r \<noteq> 0"

lemma change_allowed_gap:
  assumes "change_allowed r now" "min_change_ns r \<noteq> 0" "last_change_at r = Some t0"
  shows "t0 + unat (min_change_ns r) \<le> unat now"
proof -
  have h: "had_change r" "t0 = unat (last_change_ns r)"
    using assms(3) by (simp_all add: last_change_at_def split: if_splits)
  with assms(1,2) have le: "last_change_ns r \<le> now" "min_change_ns r \<le> now - last_change_ns r"
    by (simp_all add: change_allowed_def split: if_splits)
  then show ?thesis using h by (simp add: word_le_nat_alt unat_diff)
qed

text \<open>Every operation either leaves scene and change record alone, or commits an allowed change.\<close>

fun op_time :: "cart_runtime \<Rightarrow> rt_op \<Rightarrow> u64" where
  "op_time r (Tick now) = clamp_now r now"
| "op_time r (Next now hold) = now"
| "op_time r (Previous now hold) = now"

definition commits :: "u64 \<Rightarrow> cart_runtime \<Rightarrow> cart_runtime \<Rightarrow> bool" where
  "commits now r r' \<longleftrightarrow> min_change_ns r' = min_change_ns r \<and>
     (scene_index r' = scene_index r \<and> last_change_at r' = last_change_at r \<or>
      scene_index r' \<noteq> scene_index r \<and> change_allowed r now \<and>
      last_change_at r' = Some (unat now))"

lemma commits_hold:
  "change_allowed r now \<Longrightarrow> commits now r (hold_scene r chosen now hold)"
  by (auto simp: commits_def hold_scene_def record_change_def Let_def last_change_at_def)

lemma commits_refl: "commits now r r"
  by (simp add: commits_def)

lemma commits_tick:
  assumes "rt_inv r"
  shows "commits (clamp_now r now) r (rt_step r (Tick now))"
proof -
  let ?n = "clamp_now r now"
  have "held r ?n \<Longrightarrow> manual_scene_index r = scene_index r"
    using assms by (simp add: rt_inv_def)
  then show ?thesis
    using assms
    by (auto simp: commits_def last_change_at_def tick_unfold Let_def tick_deadline_frame
        tick_scene_frame tick_scene_index tick_scene_change)
qed

lemma commits_step: "rt_inv r \<Longrightarrow> commits (op_time r op) r (rt_step r op)"
  using commits_tick [of r]
  by (cases op) (auto simp: commits_hold commits_refl cart_runtime_request_next_def
      cart_runtime_request_previous_def simp del: rt_step.simps(1))

interpretation rate: rate_limited rt_step scene_index last_change_at
  "\<lambda>r. unat (min_change_ns r)" guarded
proof
  fix r op assume g: "guarded r"
  then have c: "commits (op_time r op) r (rt_step r op)" and m: "min_change_ns r \<noteq> 0"
    by (simp_all add: guarded_def commits_step)
  then show "guarded (rt_step r op)"
    using g by (auto simp: guarded_def commits_def intro: rt_inv_step)
  show "unat (min_change_ns (rt_step r op)) = unat (min_change_ns r)"
    using c by (simp add: commits_def)
  show "last_change_at (rt_step r op) = last_change_at r"
    if "scene_index (rt_step r op) = scene_index r"
    using c that by (simp add: commits_def)
  show "\<exists>t. last_change_at (rt_step r op) = Some t \<and>
            (\<forall>t0. last_change_at r = Some t0 \<longrightarrow> t0 + unat (min_change_ns r) \<le> t)"
    if "scene_index (rt_step r op) \<noteq> scene_index r"
    using c that m change_allowed_gap by (fastforce simp: commits_def)
qed

text \<open>The times at which a run of operations changes the scene.\<close>

primrec scene_changes :: "cart_runtime \<Rightarrow> rt_op list \<Rightarrow> u64 list" where
  "scene_changes r [] = []"
| "scene_changes r (op # ops) =
     (if scene_index (rt_step r op) \<noteq> scene_index r then [op_time r op] else []) @
     scene_changes (rt_step r op) ops"

lemma scene_changes_eq: "rt_inv r \<Longrightarrow> map unat (scene_changes r ops) = rate.changes r ops"
proof (induction ops arbitrary: r)
  case (Cons op ops)
  with commits_step [OF Cons.prems, of op] show ?case
    by (auto simp: commits_def rt_inv_step simp del: rt_step.simps)
qed simp

section \<open>Deadlines\<close>

text \<open>
  A successful tick leaves a deadline in the future and the exact sleep up to it. While the clock
  does not run backwards the deadline is never more than a frame period away.
\<close>

definition deadline_near :: "cart_runtime \<Rightarrow> u64 \<Rightarrow> bool" where
  "deadline_near r now \<longleftrightarrow> unat (next_deadline_ns r) \<le> unat now + unat (frame_period_ns r)"

lemma word_diff_lt: "v < w \<Longrightarrow> unat (w - v) = unat w - unat v" for v w :: u64
  by (simp add: unat_diff)

lemma no_overflow_add:
  "\<not> now > UINT64_MAX - p \<Longrightarrow> unat (now + p) = unat now + unat (p :: u64)"
proof -
  assume "\<not> now > UINT64_MAX - p"
  moreover have p: "unat p < 2 ^ 64" using unsigned_less [of p, where ?'a = nat] by simp
  then have "p \<le> UINT64_MAX" by (simp add: word_le_nat_alt)
  ultimately have "unat now \<le> 18446744073709551615 - unat p"
    by (simp add: not_less word_le_nat_alt unat_diff)
  with p show ?thesis by (intro unat_sum) simp
qed

lemma tick_deadline_ok:
  assumes "tick_deadline r now = (0, r')" "frame_period_ns r \<noteq> 0"
  shows "now < next_deadline_ns r'"
    and "unat (sleep_ns r') = unat (next_deadline_ns r') - unat now"
    and "deadline_near r now \<Longrightarrow> deadline_near r' now"
    and "frame_period_ns r' = frame_period_ns r"
proof -
  let ?p = "frame_period_ns r" and ?d = "next_deadline_ns r"
  have p: "0 < unat ?p" using assms(2) by (simp add: unat_gt_0)
  consider (early) "now < ?d" "r' = r\<lparr>sleep_ns := ?d - now\<rparr>"
    | (late) "\<not> now < ?d" "now - ?d < ?p" "\<not> ?d > UINT64_MAX - ?p"
        "r' = r\<lparr>next_deadline_ns := ?d + ?p, sleep_ns := ?d + ?p - now\<rparr>"
    | (dropped) "\<not> now < ?d" "\<not> now - ?d < ?p" "\<not> now > UINT64_MAX - ?p"
        "r' = r\<lparr>dropped_deadlines := dropped_deadlines r + (now - ?d) div ?p,
                next_deadline_ns := now + ?p, sleep_ns := now + ?p - now\<rparr>"
    using assms(1) by (auto simp: tick_deadline_def Let_def split: if_splits)
  then have "now < next_deadline_ns r' \<and> sleep_ns r' = next_deadline_ns r' - now \<and>
      frame_period_ns r' = ?p \<and> (deadline_near r now \<longrightarrow> deadline_near r' now)"
  proof cases
    case early
    then show ?thesis by (simp add: deadline_near_def)
  next
    case late
    then have "unat now - unat ?d < unat ?p" "unat ?d \<le> unat now"
      by (simp_all add: word_less_nat_alt unat_diff word_le_nat_alt not_less)
    with late no_overflow_add [OF late(3)] show ?thesis
      by (auto simp: deadline_near_def word_less_nat_alt)
  next
    case dropped
    with no_overflow_add [OF dropped(3)] p show ?thesis
      by (simp add: deadline_near_def word_less_nat_alt)
  qed
  then show "now < next_deadline_ns r'" "unat (sleep_ns r') = unat (next_deadline_ns r') - unat now"
    "deadline_near r now \<Longrightarrow> deadline_near r' now" "frame_period_ns r' = frame_period_ns r"
    by (auto simp: word_diff_lt)
qed

text \<open>Runs in which every tick succeeds, and the clock readings they use.\<close>

fun rt_try :: "cart_runtime \<Rightarrow> rt_op \<Rightarrow> cart_runtime option" where
  "rt_try r (Tick now) =
     (case cart_runtime_tick (Some r) now of (status, r') \<Rightarrow> if status = 0 then r' else None)"
| "rt_try r op = Some (rt_step r op)"

primrec rt_try_all :: "cart_runtime \<Rightarrow> rt_op list \<Rightarrow> cart_runtime option" where
  "rt_try_all r [] = Some r"
| "rt_try_all r (op # ops) = Option.bind (rt_try r op) (\<lambda>r'. rt_try_all r' ops)"

fun tick_times :: "rt_op list \<Rightarrow> u64 list" where
  "tick_times [] = []"
| "tick_times (Tick now # ops) = now # tick_times ops"
| "tick_times (_ # ops) = tick_times ops"

lemma rt_try_step: "rt_inv r \<Longrightarrow> rt_try r op = Some r' \<Longrightarrow> r' = rt_step r op"
  by (cases op) (auto split: prod.splits if_splits)

lemma request_keeps_deadline:
  "\<forall>now. op \<noteq> Tick now \<Longrightarrow> next_deadline_ns (rt_step r op) = next_deadline_ns r \<and>
     frame_period_ns (rt_step r op) = frame_period_ns r \<and> origin_ns (rt_step r op) = origin_ns r"
  by (cases op) (auto simp: cart_runtime_request_next_def cart_runtime_request_previous_def
      hold_scene_def record_change_def Let_def)

lemma tick_ok:
  assumes "rt_inv r" "rt_try r (Tick now) = Some r'"
  shows "clamp_now r now < next_deadline_ns r'"
    "unat (sleep_ns r') = unat (next_deadline_ns r') - unat (clamp_now r now)"
    "deadline_near r (clamp_now r now) \<Longrightarrow> deadline_near r' (clamp_now r now)"
    "frame_period_ns r' = frame_period_ns r" "origin_ns r' = origin_ns r"
proof -
  let ?n = "clamp_now r now" and ?s = "tick_scene r (clamp_now r now)"
  have t: "tick_deadline ?s ?n = (0, r')"
    using assms tick_unfold [OF assms(1), of now]
    by (cases "tick_deadline ?s ?n") (auto simp: Let_def split: if_splits)
  have p: "frame_period_ns ?s = frame_period_ns r" "next_deadline_ns ?s = next_deadline_ns r"
    "frame_period_ns ?s \<noteq> 0"
    using assms(1) by (simp_all add: tick_scene_frame rt_inv_def)
  note ok = tick_deadline_ok [OF t p(3)]
  from ok p show "?n < next_deadline_ns r'"
    "unat (sleep_ns r') = unat (next_deadline_ns r') - unat ?n"
    "deadline_near r ?n \<Longrightarrow> deadline_near r' ?n" "frame_period_ns r' = frame_period_ns r"
    by (simp_all add: deadline_near_def)
  show "origin_ns r' = origin_ns r"
    using tick_deadline_frame(10) [of ?s ?n] t by (simp add: tick_scene_frame)
qed

lemma clamp_now_mono: "a \<le> b \<Longrightarrow> clamp_now r a \<le> clamp_now r b"
  by (simp add: word_le_nat_alt unat_clamp_now)

lemma clamp_now_origin: "origin_ns q = origin_ns r \<Longrightarrow> clamp_now q = clamp_now r"
  by (simp add: clamp_now_def fun_eq_iff)

lemma near_later: "deadline_near r a \<Longrightarrow> a \<le> b \<Longrightarrow> deadline_near r b"
  by (auto simp: deadline_near_def word_le_nat_alt)

lemma deadline_run:
  assumes "rt_inv r" "deadline_near r (clamp_now r t0)" "sorted (t0 # tick_times ops)"
    "rt_try_all r ops = Some r'"
  shows "rt_inv r' \<and> frame_period_ns r' = frame_period_ns r \<and> origin_ns r' = origin_ns r \<and>
         deadline_near r' (clamp_now r' (last (t0 # tick_times ops)))"
  using assms
proof (induction ops arbitrary: r t0)
  case Nil
  then show ?case by auto
next
  case (Cons op ops)
  from Cons.prems(4) obtain q where q: "rt_try r op = Some q" "rt_try_all q ops = Some r'"
    by (auto simp: bind_eq_Some_conv)
  have inv: "rt_inv q" using rt_try_step [OF Cons.prems(1) q(1)] Cons.prems(1)
    by (simp add: rt_inv_step)
  show ?case
  proof (cases "\<exists>now. op = Tick now")
    case True
    then obtain now where op: "op = Tick now" by blast
    note ok = tick_ok [OF Cons.prems(1) q(1) [unfolded op]]
    have "deadline_near r (clamp_now r now)"
      using Cons.prems(3) op by (intro near_later [OF Cons.prems(2) clamp_now_mono]) simp
    then have "deadline_near q (clamp_now q now)"
      using ok(3) by (simp add: clamp_now_origin [OF ok(5)])
    from Cons.IH [OF inv this _ q(2)] Cons.prems(3) ok op show ?thesis by simp
  next
    case False
    then have q': "q = rt_step r op" "tick_times (op # ops) = tick_times ops"
      using rt_try_step [OF Cons.prems(1) q(1)] by (cases op; simp)+
    with request_keeps_deadline [of op r] False
    have same: "frame_period_ns q = frame_period_ns r" "origin_ns q = origin_ns r"
      "next_deadline_ns q = next_deadline_ns r" by simp_all
    with Cons.prems(2) have near: "deadline_near q (clamp_now q t0)"
      by (simp add: deadline_near_def clamp_now_origin [OF same(2)])
    from Cons.IH [OF inv near _ q(2)] Cons.prems(3) same q'(2) show ?thesis by simp
  qed
qed

lemma init_fields:
  assumes "cart_runtime_init b n origin fp sp mc = (st, Some r)"
  shows "scene_count r = n" "origin_ns r = origin" "frame_period_ns r = fp" "min_change_ns r = mc"
    "deadline_near r (clamp_now r 0)" "had_change r = False"
proof -
  have "\<not> UINT64_MAX - fp \<le> origin" using assms by (auto simp: cart_runtime_init_def split: if_splits)
  then have "unat (origin + fp) = unat origin + unat fp"
    by (intro no_overflow_add) auto
  then show "scene_count r = n" "origin_ns r = origin" "frame_period_ns r = fp" "min_change_ns r = mc"
    "deadline_near r (clamp_now r 0)" "had_change r = False"
    using assms by (auto simp: cart_runtime_init_def deadline_near_def word_gt_0 clamp_now_def split: if_splits)
qed

section \<open>Properties\<close>

text \<open>
  Claim C1. Photosensitivity guard: from initialisation on, whatever sequence of ticks and
  next/previous requests arrives and whatever clock readings they carry (the clock may even jump
  back), two consecutive scene changes are at least \<open>min_change_ns\<close> apart.
\<close>

theorem scene_changes_rate_limited:
  assumes "cart_runtime_init False n origin fp sp mc = (0, Some r)" "mc \<noteq> 0"
  shows "successively (\<lambda>t u. unat t + unat mc \<le> unat u) (scene_changes r ops)"
proof -
  have g: "guarded r" "min_change_ns r = mc"
    using rt_inv_init [OF assms(1)] init_fields [OF assms(1)] assms(2) by (simp_all add: guarded_def)
  then have "successively (\<lambda>t u. t + unat mc \<le> u) (map unat (scene_changes r ops))"
    using rate.changes_spaced [OF g(1), of ops] scene_changes_eq [of r ops]
    by (simp add: guarded_def)
  then show ?thesis by (simp add: successively_map)
qed

definition demo_runtime :: cart_runtime where
  "demo_runtime = the (snd (cart_runtime_init False 6 100 33333333 8000000000 500000000))"

lemma demo_runtime_init:
  "cart_runtime_init False 6 100 33333333 8000000000 500000000 = (0, Some demo_runtime)"
  by (simp add: demo_runtime_def cart_runtime_init_def)

lemmas demo_runtime_eval = demo_runtime_def cart_runtime_init_def cart_runtime_request_next_def
  cart_runtime_tick_def tick_scene_def tick_deadline_def change_allowed_def hold_scene_def
  record_change_def add_saturating_def Let_def

theorem scene_changes_rate_limited_witness:
  "scene_changes demo_runtime [Next 1000 5000, Next 2000 5000, Next 500001000 0] = [1000, 500001000] \<and>
   successively (\<lambda>t u. unat t + unat (500000000 :: u64) \<le> unat u)
     (scene_changes demo_runtime [Next 1000 5000, Next 2000 5000, Next 500001000 0])"
  using scene_changes_rate_limited [OF demo_runtime_init,
      of "[Next 1000 5000, Next 2000 5000, Next 500001000 0]"]
  by (simp add: demo_runtime_eval)

text \<open>
  The scene selected after any sequence of operations is one of the
  \<open>scene_count\<close> scenes, and while a manual hold is active it is the manually chosen one, so
  a tick under a hold never changes what is shown.
\<close>

theorem scene_always_in_range:
  assumes "cart_runtime_init False n origin fp sp mc = (0, Some r)"
  shows "scene_index (rt_run r ops) < n \<and>
         (manual_hold_active (rt_run r ops) \<longrightarrow>
          scene_index (rt_run r ops) = manual_scene_index (rt_run r ops))"
proof -
  have "scene_count (rt_step q op) = scene_count q" if "rt_inv q" for q op
    using that
    by (cases op) (auto simp: tick_unfold Let_def tick_deadline_frame tick_scene_frame
        cart_runtime_request_next_def cart_runtime_request_previous_def hold_scene_def
        record_change_def)
  then have count: "rt_inv q \<Longrightarrow> scene_count (rt_run q ops) = scene_count q" for q
    by (induction ops arbitrary: q) (simp_all add: rt_inv_step del: rt_step.simps)
  have inv: "rt_inv r" using assms by (rule rt_inv_init)
  then show ?thesis
    using rt_inv_run [OF inv, of ops] count [OF inv] init_fields(1) [OF assms]
    by (simp add: rt_inv_def)
qed

theorem scene_always_in_range_witness:
  "scene_index (rt_run demo_runtime [Previous 1000 0, Tick 9000000000]) < 6"
  using scene_always_in_range [OF demo_runtime_init] by blast

text \<open>
  Claim C32. Pacing: along any run whose ticks succeed and whose clock readings do not decrease,
  the sleep computed by a tick is positive and at most one frame period, and ends exactly at the
  next deadline.
\<close>

theorem tick_sleep_bounded:
  assumes "cart_runtime_init False n origin fp sp mc = (0, Some r)"
    and "sorted (tick_times ops @ [now])" "rt_try_all r ops = Some q" "rt_try q (Tick now) = Some r'"
  shows "0 < unat (sleep_ns r') \<and> unat (sleep_ns r') \<le> unat fp \<and>
         unat (next_deadline_ns r') = max (unat origin) (unat now) + unat (sleep_ns r')"
proof -
  note init = init_fields [OF assms(1)]
  have sorted: "sorted (0 # tick_times ops)" "last (0 # tick_times ops) \<le> now"
    using assms(2) by (auto simp: sorted_append)
  have q: "rt_inv q" "frame_period_ns q = fp" "origin_ns q = origin"
    "deadline_near q (clamp_now q (last (0 # tick_times ops)))"
    using deadline_run [OF rt_inv_init [OF assms(1)] init(5) sorted(1) assms(3)] init by auto
  note ok = tick_ok [OF q(1) assms(4)]
  have "deadline_near r' (clamp_now q now)"
    using ok(3) near_later [OF q(4) clamp_now_mono [OF sorted(2)]] by blast
  moreover have "unat (clamp_now q now) = max (unat origin) (unat now)"
    using q(3) by (simp add: unat_clamp_now)
  ultimately show ?thesis
    using ok q by (simp add: deadline_near_def word_less_nat_alt)
qed

theorem tick_sleep_bounded_witness:
  "\<exists>q r'. rt_try_all demo_runtime [Tick 50, Next 60 1000, Tick 70] = Some q \<and>
          rt_try q (Tick 99000000) = Some r' \<and> unat (sleep_ns r') \<le> 33333333"
proof -
  have "\<exists>q r'. rt_try_all demo_runtime [Tick 50, Next 60 1000, Tick 70] = Some q \<and>
          rt_try q (Tick 99000000) = Some r'"
    by (simp add: demo_runtime_eval)
  then obtain q r' where q: "rt_try_all demo_runtime [Tick 50, Next 60 1000, Tick 70] = Some q"
    "rt_try q (Tick 99000000) = Some r'" by blast
  with tick_sleep_bounded [OF demo_runtime_init _ q] show ?thesis by auto
qed

text \<open>
  What a tick shows: the frame number is the elapsed time in frame periods; under an
  unexpired hold the scene stays; otherwise it is the scheduled one
  (\<open>elapsed div scene_period mod scene_count\<close>), unless the last change is younger than
  \<open>min_change_ns\<close>, when the current scene is kept.
\<close>

theorem tick_shows_scheduled_scene:
  assumes "rt_inv r"
  shows "\<exists>status r'. cart_runtime_tick (Some r) now = (status, Some r') \<and>
    (let n = max (unat (origin_ns r)) (unat now);
         elapsed = n - unat (origin_ns r);
         due = elapsed div unat (scene_period_ns r) mod unat (scene_count r);
         hold = (manual_hold_active r \<and> n < unat (manual_hold_until_ns r));
         cooling = (min_change_ns r \<noteq> 0 \<and> had_change r \<and>
                    n < unat (last_change_ns r) + unat (min_change_ns r))
     in unat (frame r') = elapsed div unat (frame_period_ns r) \<and>
        unat (scene_index r') = (if hold \<or> cooling then unat (scene_index r) else due))"
proof -
  let ?n = "clamp_now r now"
  let ?r = "snd (tick_deadline (tick_scene r ?n) ?n)"
  have n: "unat ?n = max (unat (origin_ns r)) (unat now)"
    by (rule unat_clamp_now)
  have e: "unat (?n - origin_ns r) = unat ?n - unat (origin_ns r)"
    by (intro unat_diff) (simp add: word_le_nat_alt n)
  have cool: "change_allowed r ?n = (\<not> (min_change_ns r \<noteq> 0 \<and> had_change r \<and>
      unat ?n < unat (last_change_ns r) + unat (min_change_ns r)))"
    by (cases "?n < last_change_ns r")
       (auto simp: change_allowed_def word_less_nat_alt word_le_nat_alt unat_diff not_less)
  have due: "unat (automatic_scene r ?n) =
      (unat ?n - unat (origin_ns r)) div unat (scene_period_ns r) mod unat (scene_count r)"
    using assms e by (simp only: automatic_scene_def automatic_less(1) rt_inv_def unat_div not_False_eq_True)
  have hold: "held r ?n = (manual_hold_active r \<and> unat ?n < unat (manual_hold_until_ns r))"
    by (simp add: word_less_nat_alt)
  have "unat (scene_index ?r) = (if held r ?n \<or> \<not> change_allowed r ?n then unat (scene_index r)
      else unat (automatic_scene r ?n))"
    using assms unfolding tick_deadline_frame tick_scene_index rt_inv_def by auto
  moreover have "unat (frame ?r) = (unat ?n - unat (origin_ns r)) div unat (frame_period_ns r)"
    by (simp only: tick_deadline_frame tick_scene_frame unat_div e)
  ultimately show ?thesis
    unfolding tick_unfold [OF assms] Let_def due cool hold n
    by (intro exI [of _ "fst (tick_deadline (tick_scene r ?n) ?n)"] exI [of _ ?r]) simp
qed

theorem tick_shows_scheduled_scene_witness:
  "\<exists>status r'. cart_runtime_tick (Some demo_runtime) 17000000100 = (status, Some r') \<and>
     unat (frame r') = 510 \<and> unat (scene_index r') = 2"
  using tick_shows_scheduled_scene [OF rt_inv_init [OF demo_runtime_init], of 17000000100]
  by (simp add: demo_runtime_def cart_runtime_init_def Let_def)

text \<open>
  An accepted next (previous) request moves one scene forward (backward) around the
  carousel of up to \<open>2 ^ 31\<close> scenes and holds it until \<open>now + hold\<close>, saturating at the
  end of time (a zero hold holds nothing); a request during the cooldown changes nothing at all.
\<close>

theorem requests_step_carousel:
  assumes "rt_inv r" "unat (scene_count r) \<le> 2 ^ 31"
  shows "(let r' = rt_step r (Next now hold) in
      if \<not> change_allowed r now then r' = r
      else unat (scene_index r') = (unat (scene_index r) + 1) mod unat (scene_count r) \<and>
           manual_hold_active r' = (hold \<noteq> 0) \<and>
           (hold = 0 \<or> unat (manual_hold_until_ns r') = min (2 ^ 64 - 1) (unat now + unat hold))) \<and>
    (let r' = rt_step r (Previous now hold) in
      if \<not> change_allowed r now then r' = r
      else (unat (scene_index r') + 1) mod unat (scene_count r) = unat (scene_index r) \<and>
           manual_hold_active r' = (hold \<noteq> 0) \<and>
           (hold = 0 \<or> unat (manual_hold_until_ns r') = min (2 ^ 64 - 1) (unat now + unat hold)))"
proof -
  let ?i = "unat (scene_index r)" and ?c = "unat (scene_count r)"
  have c0: "scene_count r \<noteq> 0" and ic: "?i < ?c"
    using assms(1) by (simp_all add: rt_inv_def word_less_nat_alt)
  have fields: "scene_index (hold_scene r k now hold) = k"
    "manual_hold_active (hold_scene r k now hold) = (hold \<noteq> 0)"
    "hold \<noteq> 0 \<Longrightarrow> manual_hold_until_ns (hold_scene r k now hold) = add_saturating now hold" for k
    by (simp_all add: hold_scene_def record_change_def Let_def)
  have sat: "unat (add_saturating now hold) = min (2 ^ 64 - 1) (unat now + unat hold)"
  proof (cases "now > UINT64_MAX - hold")
    case True
    have "unat hold < 2 ^ 64" using unsigned_less [of hold, where ?'a = nat] by simp
    then have "hold \<le> UINT64_MAX" by (simp add: word_le_nat_alt)
    with True have "18446744073709551615 - unat hold < unat now"
      by (simp add: word_less_nat_alt unat_diff)
    with True show ?thesis by (simp add: add_saturating_def)
  next
    case False
    from no_overflow_add [OF False] have "unat (now + hold) = unat now + unat hold" .
    with False show ?thesis
      using unsigned_less [of "now + hold", where ?'a = nat] by (simp add: add_saturating_def)
  qed
  have up: "unat ((scene_index r + 1) mod scene_count r) = (?i + 1) mod ?c"
    using ic assms(2) by (simp add: unat_mod unat_sum)
  have "unat (scene_index r + scene_count r - 1) = ?i + ?c - 1"
    using ic assms(2) by (subst unat_diff) (auto simp: unat_sum word_le_nat_alt)
  then have down: "(unat ((scene_index r + scene_count r - 1) mod scene_count r) + 1) mod ?c = ?i"
    using ic by (simp add: unat_mod mod_Suc_eq)
  show ?thesis
    using c0 up down sat fields(1,2)
    by (cases "hold = 0") (auto simp: Let_def fields(3) cart_runtime_request_next_def cart_runtime_request_previous_def)
qed

theorem requests_step_carousel_witness:
  "unat (scene_index (rt_step demo_runtime (Next 1000 5))) = 1 \<and>
   (unat (scene_index (rt_step demo_runtime (Previous 1000 5))) + 1) mod 6 = 0"
  using requests_step_carousel [OF rt_inv_init [OF demo_runtime_init], of 1000 5]
  by (simp add: demo_runtime_def cart_runtime_init_def change_allowed_def Let_def del: rt_step.simps)

end
