(* ===== verification/Transition.thy ===== *)
theory Transition
  imports Canvas
begin

text \<open>
  The crossfade (\<^verbatim>\<open>cart/src/transition.c\<close>, \<^verbatim>\<open>cart/include/cart/transition.h\<close>): the
  transition state machine, the smoothstep weight in 64-bit fixed point, and the blending of two
  frame buffers. The theorems bound the visual step between two consecutive frames of a fade.
\<close>

section \<open>State and operations\<close>

abbreviation CART_TRANSITION_FRAMES :: u64 where "CART_TRANSITION_FRAMES \<equiv> 15"
abbreviation CART_TRANSITION_WEIGHT_MAX :: u32 where "CART_TRANSITION_WEIGHT_MAX \<equiv> 256"
abbreviation FIXED_ONE :: u64 where "FIXED_ONE \<equiv> 1024"

record cart_transition =
  from_scene :: size_t
  to_scene :: size_t
  elapsed_frames :: u64
  active :: bool
  sources_ready :: bool

definition cart_transition_begin ::
    "cart_transition option \<Rightarrow> size_t \<Rightarrow> size_t \<Rightarrow> cart_transition option" where
  "cart_transition_begin transition from to =
     (case transition of
        None \<Rightarrow> None
      | Some t \<Rightarrow> Some (t\<lparr>from_scene := from, to_scene := to, elapsed_frames := 0,
                        active := (from \<noteq> to), sources_ready := False\<rparr>))"

definition cart_transition_active :: "cart_transition option \<Rightarrow> bool" where
  "cart_transition_active transition = (case transition of None \<Rightarrow> False | Some t \<Rightarrow> active t)"

definition cart_transition_advance :: "cart_transition option \<Rightarrow> cart_transition option" where
  "cart_transition_advance transition =
     (case transition of
        None \<Rightarrow> None
      | Some t \<Rightarrow>
          if \<not> active t then Some t
          else let t = t\<lparr>elapsed_frames := elapsed_frames t + 1\<rparr> in
            if elapsed_frames t \<ge> CART_TRANSITION_FRAMES then Some (t\<lparr>active := False\<rparr>)
            else Some t)"

definition cart_transition_sources_need_render :: "cart_transition option \<Rightarrow> bool" where
  "cart_transition_sources_need_render transition =
     (case transition of None \<Rightarrow> False | Some t \<Rightarrow> active t \<and> \<not> sources_ready t)"

definition cart_transition_mark_sources_rendered ::
    "cart_transition option \<Rightarrow> cart_transition option" where
  "cart_transition_mark_sources_rendered transition =
     (case transition of
        None \<Rightarrow> None
      | Some t \<Rightarrow> if active t then Some (t\<lparr>sources_ready := True\<rparr>) else Some t)"

definition cart_transition_weight :: "u64 \<Rightarrow> u32" where
  "cart_transition_weight step =
     (if step = 0 then 0
      else if step \<ge> CART_TRANSITION_FRAMES then CART_TRANSITION_WEIGHT_MAX
      else let
        t = step * FIXED_ONE div CART_TRANSITION_FRAMES;
        eased = (3 * t * t * FIXED_ONE - 2 * t * t * t) div (FIXED_ONE * FIXED_ONE);
        eased = (eased * 256 + FIXED_ONE div 2) div FIXED_ONE;
        eased = (if eased > 256 then 256 else eased)
      in ucast eased)"

text \<open>
  The buffers are addresses, NULL as \<open>None\<close>. The two \<^verbatim>\<open>memcpy\<close> calls and the loop read and
  write \<open>count\<close> pixels; an access outside a buffer is undefined behaviour. (\<^verbatim>\<open>count *
  sizeof\<close> would wrap for counts above \<open>2 ^ 30\<close>, which no buffer of the target reaches.)
\<close>

definition cart_transition_blend ::
    "addr option \<Rightarrow> addr option \<Rightarrow> addr option \<Rightarrow> size_t \<Rightarrow> u64 \<Rightarrow> heap \<Rightarrow> heap option" where
  "cart_transition_blend destination from to count step h =
     (if destination = None \<or> from = None \<or> to = None then Some h
      else let amount = cart_transition_weight step in
        if amount = 0 then blit (the destination) 0 (the from) (unat count) h
        else if amount \<ge> CART_TRANSITION_WEIGHT_MAX
        then blit (the destination) 0 (the to) (unat count) h
        else for_int 0 (uint count) (\<lambda>index h. do {
               f \<leftarrow> peek (the from) (nat index) h;
               t \<leftarrow> peek (the to) (nat index) h;
               poke (the destination) (nat index) (cart_mix f t amount) h
             }) h)"

section \<open>The weight curve\<close>

text \<open>All sixteen values of the curve; from step 15 on it stays at 256.\<close>

definition weight_table :: "u32 list" where
  "weight_table = [0, 3, 12, 26, 45, 66, 90, 115, 141, 166, 189, 211, 229, 243, 253, 256]"

lemma weight_late: "15 \<le> step \<Longrightarrow> cart_transition_weight step = 256"
  by (auto simp: cart_transition_weight_def)

lemma step_cases:
  assumes "unat (step :: u64) < 15"
  shows "step \<in> {0, 1, 2, 3, 4, 5, 6, 7, 8, 9, 10, 11, 12, 13, 14}"
proof -
  have "unat step \<in> {0, 1, 2, 3, 4, 5, 6, 7, 8, 9, 10, 11, 12, 13, 14}"
    using assms by (simp; presburger)
  then have "(of_nat (unat step) :: u64) \<in> of_nat ` {0, 1, 2, 3, 4, 5, 6, 7, 8, 9, 10, 11, 12, 13, 14}"
    by (rule imageI)
  then show ?thesis by simp
qed

lemma weight_eq: "cart_transition_weight step = weight_table ! min 15 (unat step)"
proof (cases "unat step < 15")
  case True
  then show ?thesis
    using step_cases [OF True]
    by (elim insertE; simp add: cart_transition_weight_def weight_table_def Let_def word_le_nat_alt)
next
  case False
  then show ?thesis
    by (simp add: weight_late weight_table_def word_le_nat_alt)
qed

lemma all_less_16: "(\<forall>n < 16. P (n :: nat)) \<longleftrightarrow> list_all P [0..<16]"
  by (auto simp: list_all_iff)

lemma weight_table_steps:
  "n < 15 \<Longrightarrow> weight_table ! n \<le> weight_table ! Suc n \<and>
     uint (weight_table ! Suc n) \<le> uint (weight_table ! n) + 26"
proof -
  have "\<forall>n < 16. n < 15 \<longrightarrow> weight_table ! n \<le> weight_table ! Suc n \<and>
     uint (weight_table ! Suc n) \<le> uint (weight_table ! n) + 26"
    unfolding all_less_16 by (simp add: upt_rec weight_table_def)
  then show "n < 15 \<Longrightarrow> ?thesis" by simp
qed

lemma weight_mono_step: "cart_transition_weight step \<le> cart_transition_weight (step + 1) \<or> step = - 1"
  and weight_small_step:
    "step \<noteq> - 1 \<Longrightarrow>
     uint (cart_transition_weight (step + 1)) \<le> uint (cart_transition_weight step) + 26"
proof -
  have suc: "step \<noteq> - 1 \<Longrightarrow> unat (step + 1) = unat step + 1"
    by (simp add: unat_inc)
  show "cart_transition_weight step \<le> cart_transition_weight (step + 1) \<or> step = - 1"
    using weight_table_steps [of "unat step"] suc
    by (cases "unat step < 15"; cases "step = - 1") (auto simp: weight_eq)
  show "step \<noteq> - 1 \<Longrightarrow>
     uint (cart_transition_weight (step + 1)) \<le> uint (cart_transition_weight step) + 26"
    using weight_table_steps [of "unat step"] suc
    by (cases "unat step < 15") (auto simp: weight_eq)
qed

lemma weight_le: "cart_transition_weight step \<le> 256"
proof -
  have "\<forall>n < 16. weight_table ! n \<le> 256"
    unfolding all_less_16 by (simp add: upt_rec weight_table_def)
  moreover have "min 15 (unat step) < 16" by simp
  ultimately show ?thesis unfolding weight_eq by blast
qed

section \<open>The fade as a timer\<close>

text \<open>
  What the main loop relies on: a fade towards another scene is active for a fixed number of
  advances, keeps its endpoints, and is inert afterwards; a fade to the same scene never starts.
\<close>

locale fade_timer =
  fixes start :: "'i \<Rightarrow> 'i \<Rightarrow> 'f"
    and advance :: "'f \<Rightarrow> 'f"
    and is_active :: "'f \<Rightarrow> bool"
    and steps :: "'f \<Rightarrow> nat"
    and ends :: "'f \<Rightarrow> 'i \<times> 'i"
    and total :: nat
  assumes start_active: "is_active (start a b) \<longleftrightarrow> a \<noteq> b"
    and start_steps: "steps (start a b) = 0"
    and start_ends: "ends (start a b) = (a, b)"
    and advance_active: "is_active f \<Longrightarrow> steps f < total \<Longrightarrow>
          steps (advance f) = Suc (steps f) \<and> (is_active (advance f) \<longleftrightarrow> Suc (steps f) < total)"
    and advance_inert: "\<not> is_active f \<Longrightarrow> advance f = f"
    and advance_ends: "ends (advance f) = ends f"
    and total_pos: "0 < total"
begin

lemma run_ends: "ends ((advance ^^ n) (start a b)) = (a, b)"
  by (induction n) (simp_all add: advance_ends start_ends)

lemma run_same: "(advance ^^ n) (start a a) = start a a"
  by (induction n) (simp_all add: advance_inert start_active)

lemma run_steps:
  assumes "a \<noteq> b"
  shows "steps ((advance ^^ n) (start a b)) = min n total \<and>
         (is_active ((advance ^^ n) (start a b)) \<longleftrightarrow> n < total)"
proof (induction n)
  case 0
  show ?case using assms total_pos by (simp add: start_steps start_active)
next
  case (Suc n)
  show ?case
  proof (cases "n < total")
    case True
    with Suc advance_active [of "(advance ^^ n) (start a b)"] show ?thesis by auto
  next
    case False
    with Suc show ?thesis by (simp add: advance_inert)
  qed
qed

end

definition begin_fade :: "size_t \<Rightarrow> size_t \<Rightarrow> cart_transition" where
  "begin_fade a b = the (cart_transition_begin
     (Some \<lparr>from_scene = 0, to_scene = 0, elapsed_frames = 0, active = False,
            sources_ready = False\<rparr>) a b)"

definition advance_fade :: "cart_transition \<Rightarrow> cart_transition" where
  "advance_fade t = the (cart_transition_advance (Some t))"

lemma advance_fade_unfold:
  "advance_fade t =
     (if \<not> active t then t
      else t\<lparr>elapsed_frames := elapsed_frames t + 1,
             active := \<not> CART_TRANSITION_FRAMES \<le> elapsed_frames t + 1\<rparr>)"
  by (cases t) (simp add: advance_fade_def cart_transition_advance_def Let_def)

interpretation fade: fade_timer begin_fade advance_fade active
  "\<lambda>t. unat (elapsed_frames t)" "\<lambda>t. (from_scene t, to_scene t)" 15
proof
  fix t :: cart_transition
  assume a: "active t" and lt: "unat (elapsed_frames t) < 15"
  from lt have "elapsed_frames t < 15" by (simp add: word_less_nat_alt)
  then have "unat (elapsed_frames t + 1) = Suc (unat (elapsed_frames t))"
    by (intro unat_inc) auto
  with a lt show "unat (elapsed_frames (advance_fade t)) = Suc (unat (elapsed_frames t)) \<and>
      active (advance_fade t) = (Suc (unat (elapsed_frames t)) < 15)"
    by (simp add: advance_fade_unfold word_le_nat_alt not_le)
qed (simp_all add: begin_fade_def cart_transition_begin_def advance_fade_unfold)

section \<open>The blended frame\<close>

text \<open>The pixel a fade shows at a step, and the whole frame it writes.\<close>

definition fade_pixel :: "u64 \<Rightarrow> u32 \<Rightarrow> u32 \<Rightarrow> u32" where
  "fade_pixel step f t =
     (let w = cart_transition_weight step
      in if w = 0 then f else if w \<ge> 256 then t else cart_mix f t w)"

lemma chan_fade_pixel:
  assumes "k < 3"
  shows "chan k (fade_pixel step f t) = chan k (cart_mix f t (cart_transition_weight step))"
proof -
  have "cart_transition_weight step = 256" if "256 \<le> cart_transition_weight step"
    using that weight_le [of step] by simp
  then show ?thesis
    using mix.blend_start [OF assms, of f t] mix.blend_finish [OF assms, of f t]
    by (auto simp: fade_pixel_def Let_def)
qed

lemma fade_pixel_step:
  assumes "k < 3" "step \<noteq> - 1"
  shows "\<bar>chan k (fade_pixel (step + 1) f t) - chan k (fade_pixel step f t)\<bar> \<le> 26"
proof -
  have "\<bar>chan k (fade_pixel (step + 1) f t) - chan k (fade_pixel step f t)\<bar> \<le>
        uint (cart_transition_weight (step + 1)) - uint (cart_transition_weight step)"
    unfolding chan_fade_pixel [OF assms(1)]
    using weight_mono_step [of step] weight_le assms by (intro mix.blend_step) auto
  with weight_small_step [OF assms(2)] show ?thesis by linarith
qed

lemma blend_writes_frame:
  assumes len: "unat count \<le> length (h dst)" "unat count \<le> length (h f)" "unat count \<le> length (h t)"
    and ne: "dst \<noteq> f" "dst \<noteq> t"
  shows "cart_transition_blend (Some dst) (Some f) (Some t) count step h =
    Some (h(dst := map2 (fade_pixel step) (take (unat count) (h f)) (take (unat count) (h t)) @
                   drop (unat count) (h dst)))"
proof -
  let ?w = "cart_transition_weight step" and ?n = "unat count"
  let ?P = "map2 (fade_pixel step) (take ?n (h f)) (take ?n (h t))"
  have lens: "length (take ?n (h f)) = ?n" "length (take ?n (h t)) = ?n" using len by simp_all
  consider "?w = 0" | "?w \<noteq> 0" "?w \<ge> 256" | "?w \<noteq> 0" "\<not> ?w \<ge> 256" by blast
  then show ?thesis
  proof cases
    case 1
    then have "?P = take ?n (h f)"
      using lens by (intro nth_equalityI) (auto simp: fade_pixel_def)
    with 1 len show ?thesis by (simp add: cart_transition_blend_def blit_def)
  next
    case 2
    then have "?P = take ?n (h t)"
      using lens by (intro nth_equalityI) (auto simp: fade_pixel_def)
    with 2 len show ?thesis by (simp add: cart_transition_blend_def blit_def)
  next
    case 3
    let ?S = "\<lambda>i. h(dst := take (nat i) ?P @ drop (nat i) (h dst))"
    have Pl: "length ?P = ?n" using lens by simp
    have "for_int 0 (uint count) (\<lambda>index h. do {
               f' \<leftarrow> peek f (nat index) h;
               t' \<leftarrow> peek t (nat index) h;
               poke dst (nat index) (cart_mix f' t' ?w) h
             }) (?S 0) = Some (?S (uint count))"
    proof (intro for_int_trace)
      fix i assume i: "0 \<le> i" "i < uint count"
      then have n: "nat i < ?n" using nat_less_unat by fastforce
      have px: "?P ! nat i = cart_mix (h f ! nat i) (h t ! nat i) ?w"
        using n lens 3 by (simp add: fade_pixel_def)
      have "(take (nat i) ?P @ drop (nat i) (h dst))[nat i := ?P ! nat i] =
            take (nat (i + 1)) ?P @ drop (nat (i + 1)) (h dst)"
        using n Pl len(1) i
        by (simp add: list_update_append nat_add_distrib take_Suc_conv_app_nth Cons_nth_drop_Suc [symmetric])
      then show "do {
               f' \<leftarrow> peek f (nat i) (?S i);
               t' \<leftarrow> peek t (nat i) (?S i);
               poke dst (nat i) (cart_mix f' t' ?w) (?S i)
             } = Some (?S (i + 1))"
        using n len ne Pl by (simp add: peek_def poke_def px [symmetric])
    qed simp
    with 3 show ?thesis
      using Pl by (simp add: cart_transition_blend_def Let_def)
  qed
qed

section \<open>Properties\<close>

text \<open>
  The blend weight is 0 at step 0 and 256 from step 15 on, never above 256, never
  decreases from one step to the next, and is the smoothstep curve
  \<open>256 * (3 * (s/15)\<^sup>2 - 2 * (s/15)\<^sup>3)\<close> to within one unit: the 64-bit fixed-point
  evaluation neither underflows nor loses a step.
\<close>

theorem weight_is_smoothstep:
  "cart_transition_weight 0 = 0 \<and>
   (\<forall>step. (cart_transition_weight step = 256) = (15 \<le> unat step)) \<and>
   (\<forall>step. cart_transition_weight step \<le> 256) \<and>
   (\<forall>step. step = - 1 \<or> cart_transition_weight step \<le> cart_transition_weight (step + 1)) \<and>
   list_all (\<lambda>s. \<bar>3375 * uint (cart_transition_weight (of_nat s)) -
                   256 * (45 * (int s)\<^sup>2 - 2 * (int s) ^ 3)\<bar> \<le> 3375) [0..<16]"
proof (intro conjI allI)
  show "cart_transition_weight 0 = 0" by (simp add: weight_eq weight_table_def)
  show "cart_transition_weight step \<le> 256" for step by (rule weight_le)
  show "step = - 1 \<or> cart_transition_weight step \<le> cart_transition_weight (step + 1)" for step
    using weight_mono_step [of step] by blast
  have "\<forall>n < 16. n < 15 \<longrightarrow> weight_table ! n \<noteq> 256"
    unfolding all_less_16 by (simp add: upt_rec weight_table_def)
  then show "(cart_transition_weight step = 256) = (15 \<le> unat step)" for step
    by (cases "unat step < 15") (auto simp: weight_eq weight_table_def)
  show "list_all (\<lambda>s. \<bar>3375 * uint (cart_transition_weight (of_nat s)) -
                   256 * (45 * (int s)\<^sup>2 - 2 * (int s) ^ 3)\<bar> \<le> 3375) [0..<16]"
    by (simp add: upt_rec weight_eq weight_table_def)
qed

text \<open>
  A fade to a different scene is active for exactly 15 calls of
  \<^verbatim>\<open>cart_transition_advance\<close>, counts them, and keeps both endpoints; further calls change
  nothing. A fade to the same scene never becomes active.
\<close>

theorem fade_lasts_15_frames:
  fixes a b :: size_t
  shows "let t = (advance_fade ^^ n) (begin_fade a b) in
     from_scene t = a \<and> to_scene t = b \<and>
     (active t \<longleftrightarrow> a \<noteq> b \<and> n < 15) \<and>
     unat (elapsed_frames t) = (if a = b then 0 else min n 15)"
  using fade.run_ends [of n a b] fade.run_steps [of a b n] fade.run_same [of n a]
    fade.start_active [of a a] fade.start_steps [of a a]
  by (cases "a = b") (auto simp: Let_def)

text \<open>
  Blending two frames into a third buffer reads and writes only the first
  \<open>count\<close> pixels, writes the faded pixel of each pair, and leaves the two sources and the
  rest of the destination unchanged; there is no undefined behaviour.
\<close>

theorem blend_is_pixelwise:
  assumes "unat count \<le> length (h dst)" "unat count \<le> length (h f)" "unat count \<le> length (h t)"
    and "dst \<noteq> f" "dst \<noteq> t"
  shows "\<exists>h'. cart_transition_blend (Some dst) (Some f) (Some t) count step h = Some h' \<and>
           (\<forall>i. (h' dst) ! i =
             (if i < unat count then fade_pixel step (h f ! i) (h t ! i) else h dst ! i)) \<and>
           length (h' dst) = length (h dst) \<and> (\<forall>a. a = dst \<or> h' a = h a)"
  using assms by (subst blend_writes_frame) (auto simp: nth_append)

theorem blend_is_pixelwise_witness:
  "\<exists>h'. cart_transition_blend (Some 0) (Some 1) (Some 2) 2 7
           (\<lambda>a. [of_nat a, of_nat a + 7]) = Some h' \<and> h' 1 = [1, 8] \<and>
         (h' 0) ! 1 = fade_pixel 7 8 9"
proof -
  let ?h = "\<lambda>a::addr. [of_nat a :: u32, of_nat a + 7]"
  obtain h' where h': "cart_transition_blend (Some 0) (Some 1) (Some 2) 2 7 ?h = Some h'"
    and px: "\<forall>i. (h' 0) ! i = (if i < unat (2::size_t)
        then fade_pixel 7 (?h 1 ! i) (?h 2 ! i) else ?h 0 ! i)"
    and other: "\<forall>a. a = 0 \<or> h' a = ?h a"
    using blend_is_pixelwise [of 2 ?h 0 1 2 7] by auto
  have "h' 1 = ?h 1" using other by (metis one_neq_zero)
  with h' px show ?thesis by auto
qed

text \<open>
  Photosensitivity: between two consecutive frames of a fade no colour channel of any
  pixel moves by more than 26 of 255, whatever the two scenes show; the first frame shown is the
  outgoing frame itself and the frame after the fade the incoming one.
\<close>

theorem fade_never_flashes:
  assumes "k < 3" "step \<noteq> - 1"
  shows "\<bar>chan k (fade_pixel (step + 1) f t) - chan k (fade_pixel step f t)\<bar> \<le> 26 \<and>
         fade_pixel 0 f t = f \<and> fade_pixel 15 f t = t"
  using fade_pixel_step [OF assms] by (simp add: fade_pixel_def weight_eq weight_table_def)

theorem fade_never_flashes_witness:
  "\<bar>chan 0 (fade_pixel (7 + 1) 0xff000000 0xffffffff) - chan 0 (fade_pixel 7 0xff000000 0xffffffff)\<bar> \<le> 26"
  using fade_never_flashes [of 0 7 "0xff000000" "0xffffffff"] by simp

end
