(* ===== verification/Presentation.thy ===== *)
theory Presentation
  imports Cart_Prelude
begin

text \<open>
  Presentation (\<^verbatim>\<open>cart/src/presentation.c\<close>): the logical 320 by 180 frame is expanded
  four times in both directions into the linear 1280 by 720 framebuffer, one scratch row at a
  time.
\<close>

abbreviation CART_PRESENTATION_LOGICAL_WIDTH :: nat where "CART_PRESENTATION_LOGICAL_WIDTH \<equiv> 320"
abbreviation CART_PRESENTATION_LOGICAL_HEIGHT :: nat where "CART_PRESENTATION_LOGICAL_HEIGHT \<equiv> 180"
abbreviation CART_PRESENTATION_SCALE :: nat where "CART_PRESENTATION_SCALE \<equiv> 4"
abbreviation CART_PRESENTATION_FRAMEBUFFER_WIDTH :: nat where
  "CART_PRESENTATION_FRAMEBUFFER_WIDTH \<equiv> 1280"

text \<open>The two loops of a logical row: fill the scratch row, then copy it to four output rows.\<close>

definition expand_row :: "addr \<Rightarrow> addr \<Rightarrow> int \<Rightarrow> heap \<Rightarrow> heap option" where
  "expand_row logical row y =
     for_int 0 (int CART_PRESENTATION_LOGICAL_WIDTH) (\<lambda>x.
       for_int 0 (int CART_PRESENTATION_SCALE) (\<lambda>k h. do {
         c \<leftarrow> peek logical (nat (y * int CART_PRESENTATION_LOGICAL_WIDTH + x)) h;
         poke row (nat (x * int CART_PRESENTATION_SCALE + k)) c h
       }))"

definition copy_row :: "addr \<Rightarrow> addr \<Rightarrow> int \<Rightarrow> heap \<Rightarrow> heap option" where
  "copy_row framebuffer row y =
     for_int 0 (int CART_PRESENTATION_SCALE) (\<lambda>k.
       blit framebuffer
         (nat ((y * int CART_PRESENTATION_SCALE + k) * int CART_PRESENTATION_FRAMEBUFFER_WIDTH))
         row CART_PRESENTATION_FRAMEBUFFER_WIDTH)"

definition cart_presentation_upscale ::
    "addr option \<Rightarrow> addr option \<Rightarrow> addr option \<Rightarrow> heap \<Rightarrow> heap option" where
  "cart_presentation_upscale framebuffer logical row h =
     (if framebuffer = None \<or> logical = None \<or> row = None then Some h
      else for_int 0 (int CART_PRESENTATION_LOGICAL_HEIGHT) (\<lambda>y h. do {
             h \<leftarrow> expand_row (the logical) (the row) y h;
             copy_row (the framebuffer) (the row) y h
           }) h)"

section \<open>Correctness\<close>

lemma expand_row_ok:
  assumes "57600 \<le> length (h lg)" "1280 \<le> length (h rw)" "lg \<noteq> rw" "0 \<le> y" "y < 180"
  obtains h' where "expand_row lg rw y h = Some h'" "\<And>a. a \<noteq> rw \<Longrightarrow> h' a = h a"
    "length (h' rw) = length (h rw)"
    "\<And>j. j < 1280 \<Longrightarrow> h' rw ! j = h lg ! (nat y * 320 + j div 4)"
proof -
  let ?I = "\<lambda>n s. (\<forall>a. a \<noteq> rw \<longrightarrow> s a = h a) \<and> length (s rw) = length (h rw) \<and>
      (\<forall>j < nat n. s rw ! j = h lg ! (nat y * 320 + j div 4))"
  have cell: "\<exists>s'. do { c \<leftarrow> peek lg (nat (y * 320 + x)) s; poke rw (nat (x * 4 + k)) c s } = Some s' \<and>
      ?I (x * 4 + (k + 1)) s'"
    if "0 \<le> x" "x < 320" "0 \<le> k" "k < 4" "?I (x * 4 + k) s" for x k s
  proof -
    have d: "nat (x * 4 + k) div 4 = nat x" "nat (y * 320 + x) = nat y * 320 + nat x"
      "nat (x * 4 + (k + 1)) = Suc (nat (x * 4 + k))"
      using that assms by (auto simp: nat_add_distrib nat_mult_distrib div_nat_eqI)
    have "nat (y * 320 + x) < length (s lg)" "nat (x * 4 + k) < length (s rw)" "s lg = h lg"
      using that assms by auto
    with that(5) d show ?thesis by (auto simp: peek_def poke_def nth_list_update less_Suc_eq)
  qed
  have px: "\<exists>s'. for_int 0 4 (\<lambda>k s. do { c \<leftarrow> peek lg (nat (y * 320 + x)) s;
        poke rw (nat (x * 4 + k)) c s }) s = Some s' \<and> ?I ((x + 1) * 4) s'"
    if "0 \<le> x" "x < 320" "?I (x * 4) s" for x s
  proof -
    have "\<exists>s'. for_int 0 4 (\<lambda>k s. do { c \<leftarrow> peek lg (nat (y * 320 + x)) s;
        poke rw (nat (x * 4 + k)) c s }) s = Some s' \<and> ?I (x * 4 + 4) s'"
      using that cell by (intro for_int_rule [where I = "\<lambda>k. ?I (x * 4 + k)"]) auto
    then show ?thesis by (simp add: algebra_simps)
  qed
  have "\<exists>s'. expand_row lg rw y h = Some s' \<and> ?I (320 * 4) s'"
    unfolding expand_row_def
    using px by (simp, intro for_int_rule [where I = "\<lambda>x. ?I (x * 4)", of 0 320, simplified]) auto
  then show thesis using that by auto
qed

lemma copy_row_ok:
  assumes "921600 \<le> length (h fb)" "1280 \<le> length (h rw)" "fb \<noteq> rw" "0 \<le> y" "y < 180"
  obtains h' where "copy_row fb rw y h = Some h'" "\<And>a. a \<noteq> fb \<Longrightarrow> h' a = h a"
    "length (h' fb) = length (h fb)"
    "\<And>j. h' fb ! j = (if nat y * 5120 \<le> j \<and> j < nat y * 5120 + 5120
                     then h rw ! (j mod 1280) else h fb ! j)"
proof -
  let ?I = "\<lambda>k s. (\<forall>a. a \<noteq> fb \<longrightarrow> s a = h a) \<and> length (s fb) = length (h fb) \<and>
      (\<forall>j. s fb ! j = (if nat y * 5120 \<le> j \<and> j < nat y * 5120 + nat k * 1280
                     then h rw ! (j mod 1280) else h fb ! j))"
  have step: "\<exists>s'. blit fb (nat ((y * 4 + k) * 1280)) rw 1280 s = Some s' \<and> ?I (k + 1) s'"
    if "0 \<le> k" "k < 4" "?I k s" for k s
  proof -
    let ?o = "nat ((y * 4 + k) * 1280)"
    have o: "?o = nat y * 5120 + nat k * 1280" "nat (k + 1) = Suc (nat k)"
      using that assms by (simp_all add: nat_add_distrib nat_mult_distrib algebra_simps)
    have "nat y < 180" "nat k < 4" using that assms by auto
    then have "?o + 1280 \<le> length (s fb)" "1280 \<le> length (s rw)" using that o(1) assms by auto
    then obtain s' where s': "blit fb ?o rw 1280 s = Some s'" "\<And>a. a \<noteq> fb \<Longrightarrow> s' a = s a"
      "length (s' fb) = length (s fb)"
      "\<And>i. s' fb ! i = (if ?o \<le> i \<and> i < ?o + 1280 then s rw ! (i - ?o) else s fb ! i)"
      by (rule blit_Some) blast
    have m: "j - ?o = j mod 1280" if "?o \<le> j" "j < ?o + 1280" for j
    proof -
      from that(1) obtain r where r: "j = ?o + r" using le_Suc_ex by blast
      have "\<exists>q. ?o = 1280 * q" using o by (intro exI [of _ "nat y * 4 + nat k"]) simp
      then obtain q where "?o = 1280 * q" by blast
      with r have "j = 1280 * q + r" by simp
      then have "j mod 1280 = r" using that(2) r by simp
      with r show ?thesis by simp
    qed
    show ?thesis
      using s' that(3) assms(3) m o by (intro exI [of _ s']) (auto simp: not_less)
  qed
  have "\<exists>s'. copy_row fb rw y h = Some s' \<and> ?I 4 s'"
  proof -
    have "\<exists>s'. for_int 0 4 (\<lambda>k. blit fb (nat ((y * 4 + k) * 1280)) rw 1280) h = Some s' \<and> ?I 4 s'"
      by (rule for_int_rule [where I = ?I]) (use step in auto)
    then show ?thesis by (simp add: copy_row_def)
  qed
  then show thesis using that by auto
qed

lemma upscale_ok:
  assumes len: "921600 \<le> length (h fb)" "57600 \<le> length (h lg)" "1280 \<le> length (h rw)"
    and ne: "fb \<noteq> lg" "fb \<noteq> rw" "lg \<noteq> rw"
  obtains h' where "cart_presentation_upscale (Some fb) (Some lg) (Some rw) h = Some h'"
    "\<And>a. a \<noteq> fb \<Longrightarrow> a \<noteq> rw \<Longrightarrow> h' a = h a" "length (h' fb) = length (h fb)"
    "\<And>j. j < 921600 \<Longrightarrow> h' fb ! j = h lg ! (j div 5120 * 320 + j mod 1280 div 4)"
    "\<And>j. 921600 \<le> j \<Longrightarrow> h' fb ! j = h fb ! j" "length (h' rw) = length (h rw)"
proof -
  let ?I = "\<lambda>y s. (\<forall>a. a \<noteq> fb \<longrightarrow> a \<noteq> rw \<longrightarrow> s a = h a) \<and> length (s fb) = length (h fb) \<and>
      length (s rw) = length (h rw) \<and>
      (\<forall>j. s fb ! j = (if j < nat y * 5120 then h lg ! (j div 5120 * 320 + j mod 1280 div 4)
                      else h fb ! j))"
  have step: "\<exists>s'. do { s \<leftarrow> expand_row lg rw y s; copy_row fb rw y s } = Some s' \<and> ?I (y + 1) s'"
    if y: "0 \<le> y" "y < 180" and I: "?I y s" for y s
  proof -
    have l: "57600 \<le> length (s lg)" "1280 \<le> length (s rw)" using I len ne by auto
    obtain s1 where s1: "expand_row lg rw y s = Some s1" "\<And>a. a \<noteq> rw \<Longrightarrow> s1 a = s a"
      "length (s1 rw) = length (s rw)" "\<And>j. j < 1280 \<Longrightarrow> s1 rw ! j = s lg ! (nat y * 320 + j div 4)"
      by (rule expand_row_ok [OF l ne(3) y]) blast
    have l1: "921600 \<le> length (s1 fb)" "1280 \<le> length (s1 rw)" using s1 I len ne by auto
    obtain s2 where s2: "copy_row fb rw y s1 = Some s2" "\<And>a. a \<noteq> fb \<Longrightarrow> s2 a = s1 a"
      "length (s2 fb) = length (s1 fb)"
      "\<And>j. s2 fb ! j = (if nat y * 5120 \<le> j \<and> j < nat y * 5120 + 5120
                     then s1 rw ! (j mod 1280) else s1 fb ! j)"
      by (rule copy_row_ok [OF l1 ne(2) y]) blast
    have q: "j div 5120 = nat y" if "nat y * 5120 \<le> j" "j < nat y * 5120 + 5120" for j
      using that by (intro div_nat_eqI) auto
    have "nat (y + 1) = Suc (nat y)" using y by simp
    then show ?thesis
      using s1 s2 I ne q by (intro exI [of _ s2]) (auto simp: not_less)
  qed
  have "\<exists>s'. cart_presentation_upscale (Some fb) (Some lg) (Some rw) h = Some s' \<and> ?I 180 s'"
  proof -
    have "\<exists>s'. for_int 0 180 (\<lambda>y s. do { s \<leftarrow> expand_row lg rw y s; copy_row fb rw y s }) h = Some s' \<and>
        ?I 180 s'"
      by (rule for_int_rule [where I = ?I]) (use step in auto)
    then show ?thesis by (simp add: cart_presentation_upscale_def)
  qed
  then show thesis using that by auto
qed

text \<open>
  Presenting a frame never reads or writes outside the three buffers, shows at output
  pixel \<open>(X, Y)\<close> of the 1280 by 720 framebuffer the logical pixel
  \<open>(X div 4, Y div 4)\<close> of the 320 by 180 frame, and leaves the logical frame unchanged.
\<close>

theorem upscale_replicates_pixels:
  assumes "length (h fb) = 1280 * 720" "length (h lg) = 320 * 180" "length (h rw) = 1280"
    and "fb \<noteq> lg" "fb \<noteq> rw" "lg \<noteq> rw"
  shows "\<exists>h'. cart_presentation_upscale (Some fb) (Some lg) (Some rw) h = Some h' \<and>
     h' lg = h lg \<and> length (h' fb) = 1280 * 720 \<and>
     (\<forall>X Y. X < 1280 \<and> Y < 720 \<longrightarrow>
        h' fb ! (Y * 1280 + X) = h lg ! (Y div 4 * 320 + X div 4))"
proof -
  have l: "921600 \<le> length (h fb)" "57600 \<le> length (h lg)" "1280 \<le> length (h rw)"
    using assms by simp_all
  obtain h' where h': "cart_presentation_upscale (Some fb) (Some lg) (Some rw) h = Some h'"
    "\<And>a. a \<noteq> fb \<Longrightarrow> a \<noteq> rw \<Longrightarrow> h' a = h a" "length (h' fb) = length (h fb)"
    "\<And>j. j < 921600 \<Longrightarrow> h' fb ! j = h lg ! (j div 5120 * 320 + j mod 1280 div 4)"
    by (rule upscale_ok [OF l assms(4-6)]) blast
  have "(Y * 1280 + X) div 5120 = Y div 4" "(Y * 1280 + X) mod 1280 = X" "Y * 1280 + X < 921600"
    if "X < 1280" "Y < 720" for X Y :: nat
  proof -
    have "(Y * 1280 + X) div 5120 = (Y * 1280 + X) div 1280 div 4" by (simp add: div_mult2_eq [symmetric])
    with that show "(Y * 1280 + X) div 5120 = Y div 4" by simp
    show "(Y * 1280 + X) mod 1280 = X" "Y * 1280 + X < 921600" using that by simp_all
  qed
  with h' assms show ?thesis by (intro exI [of _ h']) auto
qed

theorem upscale_replicates_pixels_witness:
  "\<exists>h'. cart_presentation_upscale (Some 0) (Some 1) (Some 2)
      (\<lambda>a. if a = 0 then replicate 921600 0 else if a = 1 then replicate 57600 9
           else replicate 1280 0) = Some h' \<and> h' 0 ! (7 * 1280 + 13) = 9"
proof -
  let ?h = "\<lambda>a. if a = 0 then replicate 921600 0 else if a = 1 then replicate 57600 9
           else replicate 1280 (0::u32)"
  obtain h' where h': "cart_presentation_upscale (Some 0) (Some 1) (Some 2) ?h = Some h'"
    "\<forall>X Y. X < 1280 \<and> Y < 720 \<longrightarrow> h' 0 ! (Y * 1280 + X) = ?h (1::addr) ! (Y div 4 * 320 + X div 4)"
    using upscale_replicates_pixels [of ?h 0 1 2] by auto
  with h'(2) [rule_format, of 13 7] show ?thesis by auto
qed

end
