(* ===== verification/Input_Actions.thy ===== *)
theory Input_Actions
  imports Cart_Prelude
begin

text \<open>
  The action decoder (\<^verbatim>\<open>cart/src/input_actions.c\<close>): the shared action vocabulary with its ABI
  values and the table that maps evdev key codes to actions.
\<close>

section \<open>The action vocabulary\<close>

datatype cart_input_action =
    CART_INPUT_NONE | CART_INPUT_NEXT | CART_INPUT_PREVIOUS | CART_INPUT_SELECT
  | CART_INPUT_BACK | CART_INPUT_MENU | CART_INPUT_QUIT

fun action_value :: "cart_input_action \<Rightarrow> nat" where
  "action_value CART_INPUT_NONE = 0"
| "action_value CART_INPUT_NEXT = 1"
| "action_value CART_INPUT_PREVIOUS = 2"
| "action_value CART_INPUT_SELECT = 3"
| "action_value CART_INPUT_BACK = 4"
| "action_value CART_INPUT_MENU = 5"
| "action_value CART_INPUT_QUIT = 6"

lemma action_value_inj [simp]: "action_value a = action_value b \<longleftrightarrow> a = b"
  by (cases a; cases b) simp_all

text \<open>The enumeration is compared by its values.\<close>

instantiation cart_input_action :: linorder
begin

definition less_eq_cart_input_action :: "cart_input_action \<Rightarrow> cart_input_action \<Rightarrow> bool" where
  "a \<le> b \<longleftrightarrow> action_value a \<le> action_value b"

definition less_cart_input_action :: "cart_input_action \<Rightarrow> cart_input_action \<Rightarrow> bool" where
  "a < b \<longleftrightarrow> action_value a < action_value b"

instance
  by standard (auto simp: less_eq_cart_input_action_def less_cart_input_action_def)

end

lemma action_le_QUIT [simp]: "a \<le> CART_INPUT_QUIT"
  by (cases a) (simp_all add: less_eq_cart_input_action_def)

lemma action_le_NONE [simp]: "a \<le> CART_INPUT_NONE \<longleftrightarrow> a = CART_INPUT_NONE"
  by (cases a) (simp_all add: less_eq_cart_input_action_def)

section \<open>The key table\<close>

definition KEY_ACTION_TABLE :: "(u16 \<times> cart_input_action) list" where
  "KEY_ACTION_TABLE =
     [(1, CART_INPUT_QUIT), (16, CART_INPUT_QUIT),
      (304, CART_INPUT_SELECT), (305, CART_INPUT_BACK),
      (307, CART_INPUT_NEXT), (308, CART_INPUT_PREVIOUS),
      (310, CART_INPUT_PREVIOUS), (311, CART_INPUT_NEXT),
      (314, CART_INPUT_MENU), (315, CART_INPUT_MENU),
      (316, CART_INPUT_QUIT),
      (546, CART_INPUT_PREVIOUS), (547, CART_INPUT_NEXT)]"

fun key_scan :: "(u16 \<times> cart_input_action) list \<Rightarrow> u16 \<Rightarrow> cart_input_action" where
  "key_scan [] code = CART_INPUT_NONE"
| "key_scan ((c, a) # rows) code = (if c = code then a else key_scan rows code)"

definition cart_input_map_key :: "u16 \<Rightarrow> cart_input_action" where
  "cart_input_map_key code = key_scan KEY_ACTION_TABLE code"

definition cart_input_key_emits_action :: "u16 \<Rightarrow> bool" where
  "cart_input_key_emits_action value \<longleftrightarrow> value = 1"

text \<open>The first matching row decides, so on a table of distinct codes the rows are the graph.\<close>

lemma key_scan_map_of:
  "key_scan rows code = (case map_of rows code of None \<Rightarrow> CART_INPUT_NONE | Some a \<Rightarrow> a)"
  by (induction rows) auto

lemma map_key_graph:
  assumes "a \<noteq> CART_INPUT_NONE"
  shows "cart_input_map_key code = a \<longleftrightarrow> (code, a) \<in> set KEY_ACTION_TABLE"
proof -
  have "distinct (map fst KEY_ACTION_TABLE)" by (simp add: KEY_ACTION_TABLE_def)
  then have "map_of KEY_ACTION_TABLE code = Some a \<longleftrightarrow> (code, a) \<in> set KEY_ACTION_TABLE"
    by (rule map_of_eq_Some_iff)
  with assms show ?thesis
    by (auto simp: cart_input_map_key_def key_scan_map_of split: option.splits)
qed

text \<open>
  The action of every 16-bit key code: exactly Escape, Q and the PS button quit; L1,
  Square and d-pad left step back; R1, Triangle and d-pad right step forward; Cross selects,
  Circle goes back, Share and Options open the menu; every other code maps to no action.
\<close>

theorem map_key_fibres:
  "{k. cart_input_map_key k = CART_INPUT_QUIT} = {1, 16, 316}
   \<and> {k. cart_input_map_key k = CART_INPUT_NEXT} = {307, 311, 547}
   \<and> {k. cart_input_map_key k = CART_INPUT_PREVIOUS} = {308, 310, 546}
   \<and> {k. cart_input_map_key k = CART_INPUT_SELECT} = {304}
   \<and> {k. cart_input_map_key k = CART_INPUT_BACK} = {305}
   \<and> {k. cart_input_map_key k = CART_INPUT_MENU} = {314, 315}
   \<and> {k. cart_input_map_key k \<noteq> CART_INPUT_NONE} = set (map fst KEY_ACTION_TABLE)"
proof -
  have "{k. cart_input_map_key k \<noteq> CART_INPUT_NONE} = set (map fst KEY_ACTION_TABLE)"
    by (auto simp: cart_input_map_key_def KEY_ACTION_TABLE_def split: if_splits)
  then show ?thesis
    by (auto simp: map_key_graph set_eq_iff) (simp_all add: KEY_ACTION_TABLE_def)
qed

end
