(* ===== verification/Input_Normalize.thy ===== *)
theory Input_Normalize
  imports Cart_Prelude
begin

text \<open>
  Axis normalisation (\<^verbatim>\<open>cart/src/input_normalize.c\<close>): a raw axis reading is mapped to a
  percentage with a dead band around the centre. The arithmetic is the C code's: 32-bit span,
  64-bit intermediates, division truncating toward zero; an overflow is undefined behaviour.
\<close>

abbreviation CART_INPUT_AXIS_INVALID :: int where "CART_INPUT_AXIS_INVALID \<equiv> - 2147483648"

record cart_input_axis_range =
  ar_min :: int
  ar_max :: int
  deadzone_pct :: int

definition cart_input_axis_normalize :: "int \<Rightarrow> cart_input_axis_range option \<Rightarrow> int option" where
  "cart_input_axis_normalize raw axis =
     (case axis of
        None \<Rightarrow> Some CART_INPUT_AXIS_INVALID
      | Some r \<Rightarrow>
          if ar_max r \<le> ar_min r \<or> deadzone_pct r < 0 \<or> deadzone_pct r > 50
          then Some CART_INPUT_AXIS_INVALID
          else
            let clamped = raw;
                clamped = (if clamped < ar_min r then ar_min r else clamped);
                clamped = (if clamped > ar_max r then ar_max r else clamped)
            in do {
              span \<leftarrow> i32 (ar_max r - ar_min r);
              scaled \<leftarrow> i64 (span * deadzone_pct r);
              let half = scaled sdiv 200;
              centre \<leftarrow> i64 (ar_min r + span sdiv 2);
              low \<leftarrow> i64 (centre - half);
              twice \<leftarrow> i64 (2 * half);
              high \<leftarrow> i64 (low + twice);
              if clamped \<ge> low \<and> clamped \<le> high then Some 0
              else if clamped < low
              then do {
                num \<leftarrow> i64 ((clamped - low) * 100);
                Some (num sdiv (low - ar_min r))
              }
              else do {
                num \<leftarrow> i64 ((clamped - high) * 100);
                Some (num sdiv (ar_max r - high))
              }
            })"

section \<open>The dead band\<close>

definition axis_range_ok :: "cart_input_axis_range \<Rightarrow> bool" where
  "axis_range_ok r \<longleftrightarrow> in_i32 (ar_min r) \<and> in_i32 (ar_max r) \<and> ar_min r < ar_max r \<and>
     0 \<le> deadzone_pct r \<and> deadzone_pct r \<le> 50"

definition band_half :: "cart_input_axis_range \<Rightarrow> int" where
  "band_half r = (ar_max r - ar_min r) * deadzone_pct r div 200"

definition band_low :: "cart_input_axis_range \<Rightarrow> int" where
  "band_low r = ar_min r + (ar_max r - ar_min r) div 2 - band_half r"

definition band_high :: "cart_input_axis_range \<Rightarrow> int" where
  "band_high r = ar_min r + (ar_max r - ar_min r) div 2 + band_half r"

text \<open>
  The reading the code means: outside the dead band the distance to the rim, as a truncated
  percentage of the travel between the rim and the end of the range.
\<close>

definition axis_percent :: "cart_input_axis_range \<Rightarrow> int \<Rightarrow> int" where
  "axis_percent r raw =
     (let c = max (ar_min r) (min (ar_max r) raw)
      in if c < band_low r then - ((band_low r - c) * 100 div (band_low r - ar_min r))
         else if band_high r < c then (c - band_high r) * 100 div (ar_max r - band_high r)
         else 0)"

lemma sdiv_nonneg: "0 \<le> a \<Longrightarrow> 0 < b \<Longrightarrow> a sdiv b = a div (b :: int)"
  by (cases "a = 0") (simp_all add: signed_divide_int_def sgn_if)

lemma sdiv_neg: "a \<le> 0 \<Longrightarrow> 0 < b \<Longrightarrow> a sdiv b = - (- a div (b :: int))"
  by (cases "a = 0") (simp_all add: signed_divide_int_def sgn_if)

lemma sdiv_neg_prod:
  "c < l \<Longrightarrow> 0 < b \<Longrightarrow> ((c - l) * 100) sdiv b = - ((l - c) * 100 div (b :: int))"
  using sdiv_neg [of "(c - l) * 100" b] by (simp add: algebra_simps)

lemma percent_le: "x \<le> d \<Longrightarrow> 0 < d \<Longrightarrow> x * 100 div d \<le> (100 :: int)"
  using zdiv_mono1 [of "x * 100" "d * 100" d] by simp

lemma percent_full: "0 < d \<Longrightarrow> d * 100 div d = (100 :: int)"
  by simp

lemma band_order:
  assumes "axis_range_ok r"
  shows "0 \<le> band_half r" "4 * band_half r \<le> ar_max r - ar_min r"
    "ar_min r \<le> band_low r" "band_low r \<le> band_high r" "band_high r < ar_max r"
proof -
  let ?s = "ar_max r - ar_min r"
  have s: "1 \<le> ?s" and d: "0 \<le> deadzone_pct r" "deadzone_pct r \<le> 50"
    using assms by (auto simp: axis_range_ok_def)
  show h0: "0 \<le> band_half r" using s d by (simp add: band_half_def pos_imp_zdiv_nonneg_iff)
  have "?s * deadzone_pct r \<le> ?s * 50" using s d by (intro mult_left_mono) auto
  then have "?s * deadzone_pct r div 200 \<le> ?s * 50 div 200" by (rule zdiv_mono1) simp
  moreover have "?s * 50 div 200 \<le> ?s div 4" by simp
  ultimately have "band_half r \<le> ?s div 4" by (simp add: band_half_def)
  then show h: "4 * band_half r \<le> ?s" by linarith
  show "ar_min r \<le> band_low r" "band_low r \<le> band_high r" "band_high r < ar_max r"
    using h0 h s unfolding band_low_def band_high_def by linarith+
qed

lemma clamp_eq: "lo \<le> hi \<Longrightarrow>
  (if hi < (if raw < lo then lo else raw) then hi else (if raw < lo then lo else raw))
   = max lo (min hi (raw :: int))"
  by (auto simp: max_def min_def)

text \<open>On a valid range the code computes that reading, unless the 32-bit span overflows.\<close>

lemma normalize_eq:
  assumes ok: "axis_range_ok r"
  shows "cart_input_axis_normalize raw (Some r) =
    (if ar_max r - ar_min r \<le> INT_MAX then Some (axis_percent r raw) else None)"
proof (cases "ar_max r - ar_min r \<le> INT_MAX")
  case False
  then show ?thesis using ok
    by (simp add: cart_input_axis_normalize_def axis_range_ok_def i32_def in_i32_def Let_def)
next
  case True
  let ?s = "ar_max r - ar_min r"
  define c where "c = max (ar_min r) (min (ar_max r) raw)"
  note b = band_order [OF ok]
  have rng: "- 2147483648 \<le> ar_min r" "ar_max r \<le> 2147483647" "1 \<le> ?s" "0 \<le> deadzone_pct r" "deadzone_pct r \<le> 50"
    using ok by (auto simp: axis_range_ok_def in_i32_def)
  have c: "ar_min r \<le> c" "c \<le> ar_max r" using rng by (auto simp: c_def)
  have p0: "0 \<le> ?s * deadzone_pct r" using rng by simp
  have "?s * deadzone_pct r \<le> ?s * 50" using rng by (intro mult_left_mono) auto
  then have p1: "in_i64 (?s * deadzone_pct r)" using p0 True by (simp add: in_i64_def)
  have half: "(?s * deadzone_pct r) sdiv 200 = band_half r"
    using p0 by (simp add: sdiv_nonneg band_half_def)
  have ctr: "?s sdiv 2 = ?s div 2" using rng by (simp add: sdiv_nonneg)
  have fits: "in_i32 ?s" "in_i64 (ar_min r + ?s div 2)"
    "in_i64 (band_low r)" "in_i64 (2 * band_half r)"
    "in_i64 (band_high r)"
    using True b rng c unfolding in_i32_def in_i64_def band_low_def band_high_def by linarith+
  have dist: "in_i64 ((c - band_low r) * 100)" "in_i64 ((c - band_high r) * 100)"
    using b rng c by (auto simp: in_i64_def)
  have hi: "band_low r + 2 * band_half r = band_high r" by (simp add: band_low_def band_high_def)
  have guard: "\<not> (ar_max r \<le> ar_min r \<or> deadzone_pct r < 0 \<or> deadzone_pct r > 50)"
    using rng by simp
  have cl: "(if (if raw < ar_min r then ar_min r else raw) > ar_max r then ar_max r
      else if raw < ar_min r then ar_min r else raw) = c"
    using rng by (simp add: c_def max_def min_def)
  note lo = band_low_def [symmetric]
  have "cart_input_axis_normalize raw (Some r) =
      (if c \<ge> band_low r \<and> c \<le> band_high r then Some 0
       else if c < band_low r then Some (((c - band_low r) * 100) sdiv (band_low r - ar_min r))
       else Some (((c - band_high r) * 100) sdiv (ar_max r - band_high r)))"
    unfolding cart_input_axis_normalize_def option.case if_not_P [OF guard] Let_def cl
      i32_Some [OF fits(1)] bind.bind_lunit i64_Some [OF p1] half ctr i64_Some [OF fits(2)]
      lo i64_Some [OF fits(3)] i64_Some [OF fits(4)] hi i64_Some [OF fits(5)]
      i64_Some [OF dist(1)] i64_Some [OF dist(2)] ..
  then show ?thesis
    using True b c by (auto simp: axis_percent_def Let_def c_def [symmetric] sdiv_neg_prod sdiv_nonneg
        simp del: left_diff_distrib_numeral)
qed

section \<open>The reading\<close>

lemma percent_bounds:
  assumes ok: "axis_range_ok r"
  shows "- 100 \<le> axis_percent r raw" "axis_percent r raw \<le> 100"
proof -
  define c where "c = max (ar_min r) (min (ar_max r) raw)"
  note b = band_order [OF ok]
  have c: "ar_min r \<le> c" "c \<le> ar_max r" using ok by (auto simp: c_def axis_range_ok_def)
  have q: "(band_low r - c) * 100 div (band_low r - ar_min r) \<le> 100" if "c < band_low r"
    using that c by (intro percent_le) auto
  have q': "(c - band_high r) * 100 div (ar_max r - band_high r) \<le> 100"
    using b c by (intro percent_le) auto
  have nn: "0 \<le> (band_low r - c) * 100 div (band_low r - ar_min r)" if "c < band_low r"
    using that c by (simp add: pos_imp_zdiv_nonneg_iff)
  have nn': "0 \<le> (c - band_high r) * 100 div (ar_max r - band_high r)" if "band_high r < c"
    using that b by (simp add: pos_imp_zdiv_nonneg_iff)
  show "- 100 \<le> axis_percent r raw" "axis_percent r raw \<le> 100"
    unfolding axis_percent_def Let_def c_def [symmetric]
    using q q' nn nn' by (force split: if_splits)+
qed

lemma percent_sign:
  assumes ok: "axis_range_ok r"
  shows "raw \<le> band_high r \<Longrightarrow> axis_percent r raw \<le> 0" "band_low r \<le> raw \<Longrightarrow> 0 \<le> axis_percent r raw"
  using band_order [OF ok]
  by (auto simp: axis_percent_def Let_def pos_imp_zdiv_nonneg_iff max_def min_def)

lemma percent_mono:
  assumes ok: "axis_range_ok r" and le: "raw \<le> raw'"
  shows "axis_percent r raw \<le> axis_percent r raw'"
proof -
  define c where "c = max (ar_min r) (min (ar_max r) raw)"
  define c' where "c' = max (ar_min r) (min (ar_max r) raw')"
  note b = band_order [OF ok]
  have c: "c \<le> c'" "ar_min r \<le> c" using le by (auto simp: c_def c'_def)
  show ?thesis
  proof (cases "c' < band_low r")
    case True
    then have "(band_low r - c') * 100 div (band_low r - ar_min r)
        \<le> (band_low r - c) * 100 div (band_low r - ar_min r)"
      using c by (intro zdiv_mono1) auto
    with True c show ?thesis by (simp add: axis_percent_def Let_def c_def [symmetric] c'_def [symmetric])
  next
    case False
    show ?thesis
    proof (cases "band_high r < c")
      case True
      then have "(c - band_high r) * 100 div (ar_max r - band_high r)
          \<le> (c' - band_high r) * 100 div (ar_max r - band_high r)"
        using c b by (intro zdiv_mono1) auto
      with True False c b show ?thesis
        by (simp add: axis_percent_def Let_def c_def [symmetric] c'_def [symmetric])
    next
      case H: False
      have "axis_percent r raw \<le> 0"
        using H b c by (simp add: axis_percent_def Let_def c_def [symmetric] pos_imp_zdiv_nonneg_iff)
      moreover have "0 \<le> axis_percent r raw'"
        using False b by (simp add: axis_percent_def Let_def c'_def [symmetric] pos_imp_zdiv_nonneg_iff)
      ultimately show ?thesis by simp
    qed
  qed
qed

text \<open>
  Claim C33. On every valid range of 32-bit limits the normalised reading is defined exactly when
  the span of the range fits 32 bits, and then it is a percentage between -100 and 100. A span
  beyond \<open>INT_MAX\<close> (for instance the limits INT32_MIN and INT32_MAX) is a signed overflow.
\<close>

theorem normalize_bounded:
  assumes "axis_range_ok r"
  shows "(cart_input_axis_normalize raw (Some r) = None \<longleftrightarrow> INT_MAX < ar_max r - ar_min r)
    \<and> (\<forall>v. cart_input_axis_normalize raw (Some r) = Some v \<longrightarrow> - 100 \<le> v \<and> v \<le> 100)"
  using percent_bounds [OF assms, of raw] by (auto simp: normalize_eq [OF assms])

theorem normalize_bounded_witness:
  "cart_input_axis_normalize 5 (Some \<lparr>ar_min = - 2147483648, ar_max = 2147483647, deadzone_pct = 15\<rparr>) = None
   \<and> cart_input_axis_normalize 160 (Some \<lparr>ar_min = 0, ar_max = 255, deadzone_pct = 15\<rparr>) = Some 12"
proof -
  have ok: "axis_range_ok \<lparr>ar_min = - 2147483648, ar_max = 2147483647, deadzone_pct = 15\<rparr>"
    "axis_range_ok \<lparr>ar_min = 0, ar_max = 255, deadzone_pct = 15\<rparr>"
    by (simp_all add: axis_range_ok_def in_i32_def)
  have "cart_input_axis_normalize 160 (Some \<lparr>ar_min = 0, ar_max = 255, deadzone_pct = 15\<rparr>) = Some 12"
    by code_simp
  then show ?thesis using normalize_bounded [OF ok(1), of 5] by simp
qed

text \<open>
  Claim C34. Where the span fits, the reading is monotone in the raw value, zero throughout the
  dead band, exactly 100 at and beyond the upper limit, and exactly -100 at and below the lower
  limit provided the range has at least three values; on a range of two values the lower limit
  reads 0.
\<close>

theorem normalize_shape:
  assumes ok: "axis_range_ok r" and span: "ar_max r - ar_min r \<le> INT_MAX"
  shows "\<exists>f. (\<forall>raw. cart_input_axis_normalize raw (Some r) = Some (f raw)) \<and> mono f
    \<and> (\<forall>raw. band_low r \<le> raw \<and> raw \<le> band_high r \<longrightarrow> f raw = 0)
    \<and> (\<forall>raw. ar_max r \<le> raw \<longrightarrow> f raw = 100)
    \<and> (\<forall>raw. raw \<le> ar_min r \<longrightarrow> f raw = (if ar_max r - ar_min r = 1 then 0 else - 100))"
proof (intro exI [of _ "axis_percent r"] conjI allI impI)
  note b = band_order [OF ok]
  have lt: "ar_min r < ar_max r" using ok by (simp add: axis_range_ok_def)
  show "cart_input_axis_normalize raw (Some r) = Some (axis_percent r raw)" for raw
    using span by (simp add: normalize_eq [OF ok])
  show "mono (axis_percent r)" using percent_mono [OF ok] by (intro monoI)
  show "axis_percent r raw = 0" if "band_low r \<le> raw \<and> raw \<le> band_high r" for raw
    using that percent_sign [OF ok, of raw] by simp
  show "axis_percent r raw = 100" if "ar_max r \<le> raw" for raw
    using that b lt percent_full [of "ar_max r - band_high r"]
    by (simp add: axis_percent_def Let_def max_def min_def)
  have "band_low r = ar_min r" if "ar_max r - ar_min r = 1"
    using that b(1,2) by (simp add: band_low_def)
  moreover have "ar_min r < band_low r" if "ar_max r - ar_min r \<noteq> 1"
  proof -
    have "2 \<le> ar_max r - ar_min r" using that lt by linarith
    then have "band_half r < (ar_max r - ar_min r) div 2" using b(2) by presburger
    then show ?thesis by (simp add: band_low_def)
  qed
  ultimately show "axis_percent r raw = (if ar_max r - ar_min r = 1 then 0 else - 100)"
    if "raw \<le> ar_min r" for raw
    using that b lt percent_full [of "band_low r - ar_min r"]
    by (auto simp: axis_percent_def Let_def max_def min_def)
qed

theorem normalize_shape_witness:
  "\<exists>f. (\<forall>raw. cart_input_axis_normalize raw (Some \<lparr>ar_min = 0, ar_max = 1, deadzone_pct = 15\<rparr>)
          = Some (f raw)) \<and> mono f \<and> f 0 = 0 \<and> f 7 = 100"
proof -
  let ?r = "\<lparr>ar_min = 0, ar_max = 1, deadzone_pct = 15\<rparr>"
  have "axis_range_ok ?r" "ar_max ?r - ar_min ?r \<le> INT_MAX"
    by (simp_all add: axis_range_ok_def in_i32_def)
  from normalize_shape [OF this] show ?thesis
    by (elim exE conjE) (intro exI conjI, assumption+, auto)
qed

end
