(* ===== verification/Input_Evdev.thy ===== *)
theory Input_Evdev
  imports C_Text Input_Actions Input_Normalize "HOL-Library.Product_Lexorder"
    "HOL-Library.Multiset"
begin

text \<open>
  Input devices, first part (\<^verbatim>\<open>cart/src/input_evdev.c\<close>, lines 1 to 512): the source table, the
  probes on an open device, the ranking of candidates, discovery, and the lifecycle operations.

  The operations of \<^verbatim>\<open>struct cart_input_ops\<close> are a parameter: functions on a state \<open>'w\<close> of the
  devices and the descriptor table. Opening, closing and reading change that state; the ioctl
  queries only read it. The sysfs tree is a parameter too, a directory listing and the contents
  of its files.
\<close>

section \<open>Data\<close>

abbreviation (input) CART_INPUT_MAX_SOURCES :: nat where "CART_INPUT_MAX_SOURCES \<equiv> 4"
abbreviation (input) CART_INPUT_NODE_MAX :: nat where "CART_INPUT_NODE_MAX \<equiv> 32"
abbreviation (input) CART_INPUT_NAME_MAX :: nat where "CART_INPUT_NAME_MAX \<equiv> 128"
abbreviation (input) CART_INPUT_AXIS_COUNT :: nat where "CART_INPUT_AXIS_COUNT \<equiv> 8"
abbreviation (input) CART_INPUT_DEFAULT_DEADZONE_PCT :: int where "CART_INPUT_DEFAULT_DEADZONE_PCT \<equiv> 15"
abbreviation (input) CANDIDATE_CAP :: nat where "CANDIDATE_CAP \<equiv> 16"
abbreviation (input) BIT_BYTES_KEY :: nat where "BIT_BYTES_KEY \<equiv> 96"
abbreviation (input) BIT_BYTES_ABS :: nat where "BIT_BYTES_ABS \<equiv> 8"
abbreviation (input) STATE_BYTES_KEY :: nat where "STATE_BYTES_KEY \<equiv> 96"

definition VITA_BUTTONS_NAME :: string where
  "VITA_BUTTONS_NAME = ''PlayStation Vita Buttons (Syscon)''"

definition VITA_BUTTONS_PHYS :: string where
  "VITA_BUTTONS_PHYS = ''vita_syscon_buttons''"

datatype cart_input_state = CART_INPUT_ABSENT | CART_INPUT_CONNECTED | CART_INPUT_DESYNC

record cart_input_source =
  fd :: int
  src_rank :: int
  src_state :: cart_input_state
  src_generation :: u32
  src_node :: string
  src_name :: string
  held_keys :: u64
  src_axis :: "cart_input_axis_range list"
  axis_valid :: "bool list"
  last_raw :: "int list"

record cart_input_candidate =
  cand_fd :: int
  cand_rank :: int
  number :: nat
  cand_node :: string
  prepared :: cart_input_source

text \<open>The pending actions: a count and an array of eight bytes. A partial read: 256 bytes and a length.\<close>

record action_queue =
  pend_count :: u8
  pend_item :: "u8 list"

record partial_read =
  part_buf :: "u8 list"
  part_len :: nat

record cart_input =
  source :: "cart_input_source list"
  pending :: action_queue
  partial :: "partial_read list"

datatype read_result = Got "u8 list" | Eof | Fail int

record absinfo =
  abs_value :: int
  minimum :: int
  maximum :: int
  fuzz :: int
  flat :: int
  resolution :: int

record 'w cart_input_ops =
  op_open :: "string \<Rightarrow> 'w \<Rightarrow> int \<times> 'w"
  op_close :: "int \<Rightarrow> 'w \<Rightarrow> 'w"
  op_read :: "int \<Rightarrow> nat \<Rightarrow> 'w \<Rightarrow> read_result \<times> 'w"
  ioctl_name :: "int \<Rightarrow> nat \<Rightarrow> 'w \<Rightarrow> int \<times> string"
  ioctl_key_state :: "int \<Rightarrow> nat \<Rightarrow> 'w \<Rightarrow> u8 list option"
  ioctl_bit :: "int \<Rightarrow> nat \<Rightarrow> nat \<Rightarrow> 'w \<Rightarrow> u8 list option"
  ioctl_abs :: "int \<Rightarrow> nat \<Rightarrow> 'w \<Rightarrow> absinfo option"

section \<open>Helpers\<close>

text \<open>A bit past the end of the buffer is not tested by the code; the model reads it as 0.\<close>

definition bit_test :: "u8 list \<Rightarrow> nat \<Rightarrow> bool" where
  "bit_test buffer b = (b div 8 < length buffer \<and> bit (buffer ! (b div 8)) (b mod 8))"

text \<open>\<^verbatim>\<open>snprintf(out, out_size, "%s/%s", base, leaf)\<close>.\<close>

definition path_of :: "nat \<Rightarrow> string \<Rightarrow> string \<Rightarrow> string" where
  "path_of out_size base leaf = take (out_size - 1) (base @ ''/'' @ leaf)"

definition is_eol :: "char \<Rightarrow> bool" where
  "is_eol c \<longleftrightarrow> c = CHR 0x0A \<or> c = CHR 0x0D"

text \<open>The part of a buffer that string functions see.\<close>

definition cstr :: "string \<Rightarrow> string" where
  "cstr s = takeWhile (\<lambda>c. c \<noteq> CHR 0x00) s"

definition read_trimmed_line :: "(string \<Rightarrow> string option) \<Rightarrow> string \<Rightarrow> nat \<Rightarrow> string option" where
  "read_trimmed_line file path out_size =
     (case file path of
        None \<Rightarrow> None
      | Some content \<Rightarrow>
          if out_size = 0 then None
          else Some (rev (dropWhile is_eol (rev (take (out_size - 1) content)))))"

definition event_node_number :: "string \<Rightarrow> nat option" where
  "event_node_number d_name =
     (let digits = drop 5 d_name
      in if take 5 d_name \<noteq> ''event'' \<or> digits = [] then None
         else if \<not> list_all is_digit digits then None
         else case strtou 32 digits of
           (v, erange, rest) \<Rightarrow> if erange \<or> rest \<noteq> [] \<or> int v > INT_MAX then None else Some v)"

definition AXIS_CODES :: "nat list" where
  "AXIS_CODES = [0, 1, 3, 4, 2, 5, 16, 17]"

fun slot_scan :: "nat list \<Rightarrow> nat \<Rightarrow> nat \<Rightarrow> nat option" where
  "slot_scan [] code slot = None"
| "slot_scan (c # cs) code slot = (if c = code then Some slot else slot_scan cs code (Suc slot))"

definition axis_slot :: "nat \<Rightarrow> nat option" where
  "axis_slot code = slot_scan AXIS_CODES code 0"

section \<open>Probing an open device\<close>

definition gamepad_buttons :: "nat list" where
  "gamepad_buttons = [304, 305, 306, 307, 308, 310, 311, 314, 315, 316]"

definition stick_codes :: "nat list" where
  "stick_codes = [0, 1, 3, 4]"

definition count_bits :: "u8 list \<Rightarrow> nat list \<Rightarrow> nat" where
  "count_bits bits codes = foldl (\<lambda>n c. n + (if bit_test bits c then 1 else 0)) 0 codes"

definition probe_is_gamepad :: "'w cart_input_ops \<Rightarrow> int \<Rightarrow> 'w \<Rightarrow> bool" where
  "probe_is_gamepad ops f w =
     (case ioctl_bit ops f 1 BIT_BYTES_KEY w of
        None \<Rightarrow> False
      | Some key_bits \<Rightarrow>
          (case ioctl_bit ops f 3 BIT_BYTES_ABS w of
             None \<Rightarrow> False
           | Some abs_bits \<Rightarrow>
               count_bits key_bits gamepad_buttons \<ge> 4 \<and> count_bits abs_bits stick_codes \<ge> 2))"

definition probe_is_action_keyboard :: "'w cart_input_ops \<Rightarrow> int \<Rightarrow> 'w \<Rightarrow> bool" where
  "probe_is_action_keyboard ops f w =
     (case ioctl_bit ops f 1 BIT_BYTES_KEY w of
        None \<Rightarrow> False
      | Some key_bits \<Rightarrow> bit_test key_bits 1 \<or> bit_test key_bits 16)"

text \<open>
  The dead zone of an axis: the default, or the one the device suggests. \<^verbatim>\<open>maximum - minimum\<close> and
  \<^verbatim>\<open>flat * 200\<close> are 32-bit products of device-supplied values, undefined when they overflow.
\<close>

definition axis_deadzone :: "absinfo \<Rightarrow> int option" where
  "axis_deadzone info = do {
     span \<leftarrow> i32 (maximum info - minimum info);
     if span > 0 \<and> flat info > 0
     then do {
       scaled \<leftarrow> i32 (flat info * 200);
       let suggested = scaled sdiv span;
       Some (if suggested > CART_INPUT_DEFAULT_DEADZONE_PCT \<and> suggested \<le> 50 then suggested
             else CART_INPUT_DEFAULT_DEADZONE_PCT)
     }
     else Some CART_INPUT_DEFAULT_DEADZONE_PCT
   }"

definition snapshot_axis ::
    "'w cart_input_ops \<Rightarrow> int \<Rightarrow> 'w \<Rightarrow> u8 list \<Rightarrow> nat \<Rightarrow> cart_input_source \<Rightarrow> cart_input_source option" where
  "snapshot_axis ops f w abs_bits slot s =
     (if \<not> bit_test abs_bits (AXIS_CODES ! slot) then Some (s\<lparr>axis_valid := (axis_valid s)[slot := False]\<rparr>)
      else case ioctl_abs ops f (AXIS_CODES ! slot) w of
        None \<Rightarrow> Some (s\<lparr>axis_valid := (axis_valid s)[slot := False]\<rparr>)
      | Some info \<Rightarrow> do {
          pct \<leftarrow> axis_deadzone info;
          Some (s\<lparr>src_axis := (src_axis s)[slot := \<lparr>ar_min = minimum info, ar_max = maximum info,
                                          deadzone_pct = pct\<rparr>],
                  axis_valid := (axis_valid s)[slot := True],
                  last_raw := (last_raw s)[slot := abs_value info]\<rparr>)
        })"

fun snapshot_slots ::
    "'w cart_input_ops \<Rightarrow> int \<Rightarrow> 'w \<Rightarrow> u8 list \<Rightarrow> nat list \<Rightarrow> cart_input_source \<Rightarrow> cart_input_source option" where
  "snapshot_slots ops f w abs_bits [] s = Some s"
| "snapshot_slots ops f w abs_bits (slot # slots) s = do {
     s \<leftarrow> snapshot_axis ops f w abs_bits slot s;
     snapshot_slots ops f w abs_bits slots s
   }"

definition probe_snapshot_axes ::
    "cart_input_source \<Rightarrow> 'w cart_input_ops \<Rightarrow> int \<Rightarrow> 'w \<Rightarrow> cart_input_source option" where
  "probe_snapshot_axes s ops f w =
     (let s = s\<lparr>held_keys := 0, last_raw := replicate CART_INPUT_AXIS_COUNT 0\<rparr>
      in case ioctl_bit ops f 3 BIT_BYTES_ABS w of
           None \<Rightarrow> Some (s\<lparr>axis_valid := replicate CART_INPUT_AXIS_COUNT False\<rparr>)
         | Some abs_bits \<Rightarrow> snapshot_slots ops f w abs_bits [0..<CART_INPUT_AXIS_COUNT] s)"

text \<open>The verdict (0: not admitted) and the scratch source, undefined on an arithmetic overflow.\<close>

definition classify_source ::
    "cart_input_source \<Rightarrow> 'w cart_input_ops \<Rightarrow> int \<Rightarrow> int \<Rightarrow> 'w \<Rightarrow> (int \<times> cart_input_source) option" where
  "classify_source scratch ops f sysfs_rank w =
     (case ioctl_name ops f CART_INPUT_NAME_MAX w of
        (got, nm) \<Rightarrow>
          if got \<le> 0 then Some (0, scratch)
          else let scratch = scratch\<lparr>src_name := take (CART_INPUT_NAME_MAX - 1) (cstr nm)\<rparr>;
                   probed = (if probe_is_gamepad ops f w then 2
                             else if probe_is_action_keyboard ops f w then 1 else 0)
               in if probed = 0 then Some (0, scratch)
                  else do {
                    scratch \<leftarrow> probe_snapshot_axes scratch ops f w;
                    Some (if sysfs_rank > probed then sysfs_rank else probed, scratch)
                  })"

section \<open>Ranking\<close>

text \<open>
  The insertion sort, on the array: the inner loop moves larger entries up while it looks for the
  place of the key.
\<close>

definition goes_before :: "cart_input_candidate \<Rightarrow> cart_input_candidate \<Rightarrow> bool" where
  "goes_before key c \<longleftrightarrow> cand_rank c < cand_rank key \<or> (cand_rank c = cand_rank key \<and> number c > number key)"

fun sift :: "cart_input_candidate list \<Rightarrow> cart_input_candidate \<Rightarrow> nat \<Rightarrow> cart_input_candidate list" where
  "sift xs key 0 = xs[0 := key]"
| "sift xs key (Suc j) =
     (if goes_before key (xs ! j) then sift (xs[Suc j := xs ! j]) key j else xs[Suc j := key])"

fun plan_from :: "cart_input_candidate list \<Rightarrow> nat \<Rightarrow> nat \<Rightarrow> cart_input_candidate list" where
  "plan_from xs i 0 = xs"
| "plan_from xs i (Suc k) = plan_from (sift xs (xs ! i) i) (Suc i) k"

definition cart_input_plan :: "cart_input_candidate list \<Rightarrow> int \<times> cart_input_candidate list" where
  "cart_input_plan xs = (int (if length xs > CANDIDATE_CAP then CANDIDATE_CAP else length xs),
     plan_from xs 1 (length xs - 1))"

section \<open>Discovery\<close>

definition zero_range :: cart_input_axis_range where
  "zero_range = \<lparr>ar_min = 0, ar_max = 0, deadzone_pct = 0\<rparr>"

definition reset_source :: cart_input_source where
  "reset_source = \<lparr>fd = - 1, src_rank = 0, src_state = CART_INPUT_ABSENT, src_generation = 0,
     src_node = [], src_name = [], held_keys = 0,
     src_axis = replicate CART_INPUT_AXIS_COUNT zero_range,
     axis_valid = replicate CART_INPUT_AXIS_COUNT False,
     last_raw = replicate CART_INPUT_AXIS_COUNT 0\<rparr>"

definition slot_empty :: "cart_input \<Rightarrow> nat \<Rightarrow> bool" where
  "slot_empty inp i \<longleftrightarrow> fd (source inp ! i) < 0"

fun free_scan :: "cart_input \<Rightarrow> nat list \<Rightarrow> nat option" where
  "free_scan inp [] = None"
| "free_scan inp (i # is) = (if slot_empty inp i then Some i else free_scan inp is)"

definition first_free_slot :: "cart_input \<Rightarrow> nat option" where
  "first_free_slot inp = free_scan inp [0..<CART_INPUT_MAX_SOURCES]"

text \<open>
  The rank sysfs suggests. The name buffer is not initialised: when the name file cannot be read
  its contents are whatever the stack holds, the parameter \<open>uninit\<close>.
\<close>

definition sysfs_rank_of :: "(string \<Rightarrow> string option) \<Rightarrow> string \<Rightarrow> string \<Rightarrow> string \<Rightarrow> int" where
  "sysfs_rank_of file uninit sys_class_input d_name =
     (let sys_dir = path_of 512 sys_class_input d_name;
          phys_line = (case read_trimmed_line file (path_of 768 sys_dir ''device/phys'') 128 of
                         None \<Rightarrow> [] | Some l \<Rightarrow> l);
          r = (if cstr phys_line = VITA_BUTTONS_PHYS then 4 else 0);
          name_line = (case read_trimmed_line file (path_of 768 sys_dir ''device/name'') CART_INPUT_NAME_MAX of
                         None \<Rightarrow> uninit | Some l \<Rightarrow> l)
      in if r = 0 \<and> cstr name_line = VITA_BUTTONS_NAME then 3 else r)"

text \<open>One directory entry: the candidate it gives, if any. An open that is not kept is closed.\<close>

definition examine_entry ::
    "'w cart_input_ops \<Rightarrow> (string \<Rightarrow> string option) \<Rightarrow> string \<Rightarrow> string \<Rightarrow> string \<Rightarrow> string \<Rightarrow> 'w
     \<Rightarrow> (cart_input_candidate option \<times> 'w) option" where
  "examine_entry ops file uninit sys_class_input dev_input d_name w =
     (case event_node_number d_name of
        None \<Rightarrow> Some (None, w)
      | Some n \<Rightarrow>
          if length d_name \<ge> CART_INPUT_NODE_MAX then Some (None, w)
          else let sysfs_rank = sysfs_rank_of file uninit sys_class_input d_name
          in case op_open ops (path_of 640 dev_input d_name) w of
            (pre_opened, w) \<Rightarrow>
              if pre_opened < 0 then Some (None, w)
              else do {
                (classified, scratch) \<leftarrow>
                  classify_source (reset_source\<lparr>src_node := d_name\<rparr>) ops pre_opened sysfs_rank w;
                if classified = 0 then Some (None, op_close ops pre_opened w)
                else Some (Some \<lparr>cand_fd = pre_opened,
                                 cand_rank = (if sysfs_rank > classified then sysfs_rank else classified),
                                 number = n, cand_node = d_name, prepared = scratch\<rparr>, w)
              })"

fun scan_entries ::
    "'w cart_input_ops \<Rightarrow> (string \<Rightarrow> string option) \<Rightarrow> string \<Rightarrow> string \<Rightarrow> string \<Rightarrow> string list
     \<Rightarrow> cart_input_candidate list \<Rightarrow> 'w \<Rightarrow> (cart_input_candidate list \<times> 'w) option" where
  "scan_entries ops file uninit sys dev [] cands w = Some (cands, w)"
| "scan_entries ops file uninit sys dev (e # es) cands w =
     (if length cands \<ge> CANDIDATE_CAP then Some (cands, w)
      else do {
        (c, w) \<leftarrow> examine_entry ops file uninit sys dev e w;
        scan_entries ops file uninit sys dev es
          (case c of None \<Rightarrow> cands | Some x \<Rightarrow> cands @ [x]) w
      })"

definition claim_slot :: "cart_input_candidate \<Rightarrow> nat \<Rightarrow> cart_input \<Rightarrow> cart_input" where
  "claim_slot c slot inp =
     inp\<lparr>source := (source inp)[slot := (prepared c)\<lparr>fd := cand_fd c, src_state := CART_INPUT_CONNECTED,
                                      src_generation := src_generation (prepared c) + 1\<rparr>]\<rparr>"

fun claim_all ::
    "'w cart_input_ops \<Rightarrow> cart_input_candidate list \<Rightarrow> cart_input \<Rightarrow> 'w
     \<Rightarrow> int \<times> cart_input_candidate list \<times> cart_input \<times> 'w" where
  "claim_all ops [] inp w = (0, [], inp, w)"
| "claim_all ops (c # cs) inp w =
     (case first_free_slot inp of
        None \<Rightarrow>
          (case claim_all ops cs inp (op_close ops (cand_fd c) w) of
             (n, cs, inp, w) \<Rightarrow> (n, c\<lparr>cand_fd := - 1\<rparr> # cs, inp, w))
      | Some slot \<Rightarrow>
          (case claim_all ops cs (claim_slot c slot inp) w of
             (n, cs, inp, w) \<Rightarrow> (n + 1, c\<lparr>cand_fd := - 1\<rparr> # cs, inp, w)))"

text \<open>The last loop closes candidates that still hold a descriptor no slot uses.\<close>

fun close_leftovers :: "'w cart_input_ops \<Rightarrow> cart_input_candidate list \<Rightarrow> cart_input \<Rightarrow> 'w \<Rightarrow> 'w" where
  "close_leftovers ops [] inp w = w"
| "close_leftovers ops (c # cs) inp w =
     close_leftovers ops cs inp
       (if cand_fd c < 0 then w
        else if list_ex (\<lambda>s. fd s = cand_fd c) (source inp) then w
        else op_close ops (cand_fd c) w)"

definition ENOENT :: int where
  "ENOENT = 2"

definition discover_pass ::
    "'w cart_input_ops \<Rightarrow> (string \<Rightarrow> int + string list) \<Rightarrow> (string \<Rightarrow> string option) \<Rightarrow> string
     \<Rightarrow> string \<Rightarrow> string \<Rightarrow> cart_input \<Rightarrow> 'w \<Rightarrow> (int \<times> cart_input \<times> 'w) option" where
  "discover_pass ops dir file uninit sys_class_input dev_input inp w =
     (case dir sys_class_input of
        Inl errno \<Rightarrow> Some (if errno = ENOENT then 0 else - 1, inp, w)
      | Inr entries \<Rightarrow> do {
          (cands, w) \<leftarrow> scan_entries ops file uninit sys_class_input dev_input entries [] w;
          (case claim_all ops (snd (cart_input_plan cands)) inp w of
             (claimed, cands, inp, w) \<Rightarrow>
               Some (claimed, inp, close_leftovers ops cands inp w))
        })"

section \<open>Lifecycle\<close>

definition zero_input :: cart_input where
  "zero_input = \<lparr>source = replicate CART_INPUT_MAX_SOURCES reset_source,
     pending = \<lparr>pend_count = 0, pend_item = replicate 8 0\<rparr>,
     partial = replicate CART_INPUT_MAX_SOURCES \<lparr>part_buf = replicate 256 0, part_len = 0\<rparr>\<rparr>"

definition cart_input_init_ex ::
    "bool \<Rightarrow> 'w cart_input_ops option \<Rightarrow> (string \<Rightarrow> int + string list) \<Rightarrow> (string \<Rightarrow> string option)
     \<Rightarrow> string \<Rightarrow> string option \<Rightarrow> string option \<Rightarrow> cart_input \<Rightarrow> 'w
     \<Rightarrow> (int \<times> cart_input \<times> 'w) option" where
  "cart_input_init_ex input_is_null ops dir file uninit sys_class_input dev_input inp w =
     (if input_is_null \<or> ops = None \<or> sys_class_input = None \<or> dev_input = None
      then Some (- 1, inp, w)
      else discover_pass (the ops) dir file uninit (the sys_class_input) (the dev_input) zero_input w)"

definition cart_input_rescan ::
    "bool \<Rightarrow> 'w cart_input_ops \<Rightarrow> (string \<Rightarrow> int + string list) \<Rightarrow> (string \<Rightarrow> string option)
     \<Rightarrow> string \<Rightarrow> string option \<Rightarrow> string option \<Rightarrow> cart_input \<Rightarrow> 'w
     \<Rightarrow> (int \<times> cart_input \<times> 'w) option" where
  "cart_input_rescan input_is_null ops dir file uninit sys_class_input dev_input inp w =
     (if input_is_null \<or> sys_class_input = None \<or> dev_input = None then Some (- 1, inp, w)
      else discover_pass ops dir file uninit (the sys_class_input) (the dev_input) inp w)"

fun close_sources :: "'w cart_input_ops \<Rightarrow> cart_input_source list \<Rightarrow> 'w \<Rightarrow> 'w" where
  "close_sources ops [] w = w"
| "close_sources ops (s # ss) w = close_sources ops ss (if fd s \<ge> 0 then op_close ops (fd s) w else w)"

definition cart_input_shutdown :: "'w cart_input_ops \<Rightarrow> cart_input option \<Rightarrow> 'w \<Rightarrow> cart_input option \<times> 'w" where
  "cart_input_shutdown ops input w =
     (case input of
        None \<Rightarrow> (None, w)
      | Some inp \<Rightarrow>
          (Some (inp\<lparr>source := map (\<lambda>_. reset_source) (source inp),
                     pending := (pending inp)\<lparr>pend_count := 0\<rparr>,
                     partial := map (\<lambda>p. p\<lparr>part_len := 0\<rparr>) (partial inp)\<rparr>),
           close_sources ops (source inp) w))"

section \<open>The plan is a stable sort\<close>

definition plan_key :: "cart_input_candidate \<Rightarrow> int \<times> nat" where
  "plan_key c = (- cand_rank c, number c)"

lemma goes_before_key: "goes_before k c \<longleftrightarrow> plan_key k < plan_key c"
  by (auto simp: goes_before_def plan_key_def)

definition below :: "cart_input_candidate \<Rightarrow> cart_input_candidate list \<Rightarrow> cart_input_candidate list" where
  "below k P = rev (dropWhile (goes_before k) (rev P))"

definition above :: "cart_input_candidate \<Rightarrow> cart_input_candidate list \<Rightarrow> cart_input_candidate list" where
  "above k P = rev (takeWhile (goes_before k) (rev P))"

lemma below_above: "below k P @ above k P = P"
  unfolding below_def above_def by (metis rev_append rev_rev_ident takeWhile_dropWhile_id)

text \<open>The array loop inserts the key between the two parts of the prefix.\<close>

lemma sift_eq:
  "i < length xs \<Longrightarrow> sift xs k i = below k (take i xs) @ k # above k (take i xs) @ drop (Suc i) xs"
proof (induction i arbitrary: xs)
  case 0
  then show ?case by (cases xs) (auto simp: below_def above_def)
next
  case (Suc j)
  have t: "take (Suc j) xs = take j xs @ [xs ! j]" using Suc.prems by (simp add: take_Suc_conv_app_nth)
  show ?case
  proof (cases "goes_before k (xs ! j)")
    case True
    let ?ys = "xs[Suc j := xs ! j]"
    have "drop (Suc j) ?ys = xs ! j # drop (Suc (Suc j)) xs"
      using Suc.prems by (simp add: drop_update_swap Cons_nth_drop_Suc [symmetric])
    with Suc.IH [of ?ys] Suc.prems True t show ?thesis by (simp add: below_def above_def)
  next
    case False
    then show ?thesis using Suc.prems t upd_conv_take_nth_drop [of "Suc j" xs k]
      by (simp add: below_def above_def)
  qed
qed

lemma above_greater: "c \<in> set (above k P) \<Longrightarrow> plan_key k < plan_key c"
  unfolding above_def using goes_before_key set_takeWhileD by fastforce

lemma below_smaller:
  assumes "sorted (map plan_key P)" "c \<in> set (below k P)"
  shows "plan_key c \<le> plan_key k"
proof -
  have ne: "dropWhile (goes_before k) (rev P) \<noteq> []"
    using assms(2) unfolding below_def by (metis empty_iff list.set(1) set_rev)
  let ?l = "hd (dropWhile (goes_before k) (rev P))"
  have "\<not> goes_before k ?l" using hd_dropWhile [OF ne] .
  then have le: "plan_key ?l \<le> plan_key k" by (simp add: goes_before_key)
  have eq: "below k P = rev (tl (dropWhile (goes_before k) (rev P))) @ [?l]"
    unfolding below_def using ne by (metis list.collapse rev.simps(2))
  have "sorted (map plan_key (below k P))"
    using assms(1) below_above [of k P] by (metis map_append sorted_append)
  then have "plan_key c \<le> plan_key ?l"
    using assms(2) unfolding eq by (auto simp: sorted_append)
  with le show ?thesis by simp
qed

lemma insert_sorts:
  assumes s: "P = sort_key plan_key P'"
  shows "sort_key plan_key (P' @ [k]) = below k P @ k # above k P"
proof (rule properties_for_sort_key)
  have p: "mset P = mset P'" "sorted (map plan_key P)" using s by simp_all
  have "mset (below k P) + mset (above k P) = mset P" by (metis below_above mset_append)
  with p show "mset (below k P @ k # above k P) = mset (P' @ [k])" by simp
  have st: "filter (\<lambda>x. v = plan_key x) P = filter (\<lambda>x. v = plan_key x) P'" for v
    using sort_key_stable [of plan_key v P'] s by (simp add: eq_commute)
  have ab: "filter (\<lambda>x. v = plan_key x) (below k P) @ filter (\<lambda>x. v = plan_key x) (above k P) =
      filter (\<lambda>x. v = plan_key x) P" for v
    by (metis below_above filter_append)
  have none: "filter (\<lambda>x. plan_key k = plan_key x) (above k P) = []"
    by (auto simp: filter_empty_conv dest: above_greater)
  show "filter (\<lambda>x. plan_key c = plan_key x) (below k P @ k # above k P) =
      filter (\<lambda>x. plan_key c = plan_key x) (P' @ [k])" for c
  proof (cases "plan_key c = plan_key k")
    case True
    then show ?thesis using none ab [of "plan_key k"] st [of "plan_key k"] by simp
  next
    case False
    then show ?thesis using ab [of "plan_key c"] st [of "plan_key c"] by simp
  qed
  have "sorted (map plan_key (below k P))" "sorted (map plan_key (above k P))"
    using p(2) below_above [of k P] by (metis map_append sorted_append)+
  moreover have "plan_key x \<le> plan_key y" if "x \<in> set (below k P)" "y \<in> set (above k P)" for x y
    using below_smaller [OF p(2) that(1)] above_greater [OF that(2)] by simp
  ultimately show "sorted (map plan_key (below k P @ k # above k P))"
    using below_smaller [OF p(2)] above_greater by (auto simp: sorted_append less_imp_le)
qed

lemma plan_from_sorts:
  "i + k = length xs \<Longrightarrow> take i xs = sort_key plan_key (take i zs) \<Longrightarrow> drop i xs = drop i zs \<Longrightarrow>
   length xs = length zs \<Longrightarrow> plan_from xs i k = sort_key plan_key zs"
proof (induction k arbitrary: xs i)
  case 0
  then show ?case by simp
next
  case (Suc k)
  then have i: "i < length xs" by simp
  have key: "xs ! i = zs ! i" using Suc.prems by (metis i hd_drop_conv_nth)
  have z: "take (Suc i) zs = take i zs @ [zs ! i]" using i Suc.prems by (simp add: take_Suc_conv_app_nth)
  let ?ys = "sift xs (xs ! i) i"
  have front: "below (xs ! i) (take i xs) @ xs ! i # above (xs ! i) (take i xs) =
      sort_key plan_key (take (Suc i) zs)"
    using insert_sorts [OF Suc.prems(2), of "xs ! i"] by (simp add: z key)
  have ys: "?ys = sort_key plan_key (take (Suc i) zs) @ drop (Suc i) xs"
    using sift_eq [OF i, of "xs ! i"] front by simp
  have l: "length (sort_key plan_key (take (Suc i) zs)) = Suc i" using i Suc.prems by simp
  have "drop (Suc i) xs = drop (Suc i) zs" using Suc.prems(3) by (metis drop_Suc tl_drop)
  then have "plan_from ?ys (Suc i) k = sort_key plan_key zs"
    using ys l Suc.prems by (intro Suc.IH) simp_all
  then show ?case by simp
qed

lemma plan_sorts: "snd (cart_input_plan xs) = sort_key plan_key xs"
proof (cases xs)
  case (Cons x ys)
  have "take 1 xs = sort_key plan_key (take 1 xs)" by (simp add: Cons)
  then show ?thesis unfolding cart_input_plan_def snd_conv
    by (intro plan_from_sorts) (auto simp: Cons)
qed (simp add: cart_input_plan_def)

section \<open>Descriptors\<close>

text \<open>
  What the code relies on from the operations: \<open>opened w\<close> is the set of open descriptors, an open
  that succeeds returns a new one, a close removes one, and reading changes none.
\<close>

definition fd_ops :: "'w cart_input_ops \<Rightarrow> ('w \<Rightarrow> int set) \<Rightarrow> bool" where
  "fd_ops ops opened \<longleftrightarrow>
     (\<forall>p w f w'. op_open ops p w = (f, w') \<longrightarrow>
        (if 0 \<le> f then f \<notin> opened w \<and> opened w' = insert f (opened w) else opened w' = opened w)) \<and>
     (\<forall>f w. opened (op_close ops f w) = opened w - {f}) \<and>
     (\<forall>f n w r w'. op_read ops f n w = (r, w') \<longrightarrow> opened w' = opened w)"

definition slot_fds :: "cart_input \<Rightarrow> int list" where
  "slot_fds inp = filter (\<lambda>f. 0 \<le> f) (map fd (source inp))"

text \<open>The open descriptors are those of the rest of the program and, once each, the listed ones.\<close>

definition owned :: "('w \<Rightarrow> int set) \<Rightarrow> int set \<Rightarrow> int list \<Rightarrow> 'w \<Rightarrow> bool" where
  "owned opened B fs w \<longleftrightarrow> distinct fs \<and> (\<forall>f\<in>set fs. 0 \<le> f) \<and> opened w = B \<union> set fs \<and> B \<inter> set fs = {}"

lemma owned_permI: "owned opened B fs w \<Longrightarrow> mset fs = mset gs \<Longrightarrow> owned opened B gs w"
  unfolding owned_def using mset_eq_imp_distinct_iff mset_eq_setD by metis

lemma owned_open:
  assumes "fd_ops ops opened" "owned opened B fs w" "op_open ops p w = (f, w')"
  shows "if 0 \<le> f then owned opened B (fs @ [f]) w' else owned opened B fs w'"
proof -
  have "if 0 \<le> f then f \<notin> opened w \<and> opened w' = insert f (opened w) else opened w' = opened w"
    using assms(1,3) by (auto simp: fd_ops_def)
  with assms(2) show ?thesis by (auto simp: owned_def)
qed

lemma owned_close:
  assumes "fd_ops ops opened" "owned opened B (f # fs) w"
  shows "owned opened B fs (op_close ops f w)"
proof -
  have "opened (op_close ops f w) = opened w - {f}" using assms(1) by (simp add: fd_ops_def)
  with assms(2) show ?thesis by (auto simp: owned_def)
qed

lemma mset_slot_update:
  assumes "i < length ss"
  shows "mset (filter (\<lambda>f. 0 \<le> f) (map fd (ss[i := s]))) =
    (if 0 \<le> fd s then {#fd s#} else {#}) +
    (mset (filter (\<lambda>f. 0 \<le> f) (map fd ss)) - (if 0 \<le> fd (ss ! i) then {#fd (ss ! i)#} else {#}))"
proof -
  have "mset (map fd (ss[i := s])) = add_mset (fd s) (mset (map fd ss) - {#fd (ss ! i)#})"
    using assms by (simp add: map_update mset_update)
  moreover have "fd (ss ! i) \<in># mset (map fd ss)" using assms by auto
  ultimately show ?thesis by (simp add: filter_diff_mset)
qed

lemma mset_slot_claim:
  assumes "length (source inp) = 4" "i < 4" "slot_empty inp i" "0 \<le> cand_fd c"
  shows "mset (slot_fds (claim_slot c i inp)) = add_mset (cand_fd c) (mset (slot_fds inp))"
proof -
  let ?s = "(prepared c)\<lparr>fd := cand_fd c, src_state := CART_INPUT_CONNECTED,
      src_generation := src_generation (prepared c) + 1\<rparr>"
  have "i < length (source inp)" using assms by simp
  from mset_slot_update [OF this, of ?s] assms show ?thesis
    by (simp add: slot_fds_def claim_slot_def slot_empty_def)
qed

lemma free_scan_Some: "free_scan inp is = Some i \<Longrightarrow> i \<in> set is \<and> slot_empty inp i"
  by (induction "is") (auto split: if_splits)

lemma first_free: "first_free_slot inp = Some i \<Longrightarrow> i < 4 \<and> slot_empty inp i"
  unfolding first_free_slot_def using free_scan_Some by fastforce

lemma examine_owned:
  assumes ops: "fd_ops ops opened" and own: "owned opened B fs w"
    and e: "examine_entry ops file uninit sys dev d w = Some (c, w')"
  shows "case c of None \<Rightarrow> owned opened B fs w'
    | Some x \<Rightarrow> owned opened B (fs @ [cand_fd x]) w' \<and> 0 \<le> cand_fd x"
proof (cases "\<exists>n. event_node_number d = Some n \<and> length d < 32")
  case False
  with e own show ?thesis by (auto simp: examine_entry_def split: option.splits if_splits)
next
  case True
  obtain f w1 where o: "op_open ops (path_of 640 dev d) w = (f, w1)" by fastforce
  note own1 = owned_open [OF ops own o]
  show ?thesis
  proof (cases "f < 0")
    case neg: True
    with True e o own1 show ?thesis by (auto simp: examine_entry_def Let_def)
  next
    case pos: False
    then have o1: "owned opened B (fs @ [f]) w1" using own1 by simp
    have "owned opened B (f # fs) w1" by (rule owned_permI [OF o1]) simp
    note closed = owned_close [OF ops this]
    from True e o pos o1 closed show ?thesis
      by (auto simp: examine_entry_def Let_def split: option.splits if_splits bind_splits)
  qed
qed

lemma scan_owned:
  "fd_ops ops opened \<Longrightarrow> owned opened B (fs @ map cand_fd cands) w \<Longrightarrow> \<forall>c\<in>set cands. 0 \<le> cand_fd c \<Longrightarrow>
   scan_entries ops file uninit sys dev es cands w = Some (cands', w') \<Longrightarrow>
   owned opened B (fs @ map cand_fd cands') w' \<and> (\<forall>c\<in>set cands'. 0 \<le> cand_fd c)"
proof (induction es arbitrary: cands w)
  case (Cons e es)
  show ?case
  proof (cases "length cands \<ge> 16")
    case True
    with Cons.prems show ?thesis by simp
  next
    case False
    with Cons.prems(4) obtain c w1 where e: "examine_entry ops file uninit sys dev e w = Some (c, w1)"
      and r: "scan_entries ops file uninit sys dev es
        (case c of None \<Rightarrow> cands | Some x \<Rightarrow> cands @ [x]) w1 = Some (cands', w')"
      by (auto split: bind_splits)
    from examine_owned [OF Cons.prems(1,2) e] r Cons.prems(1,3)
    show ?thesis by (intro Cons.IH) (auto split: option.splits)
  qed
qed auto

lemma length_claim [simp]: "length (source (claim_slot c i inp)) = length (source inp)"
  by (simp add: claim_slot_def)

lemma claim_all_owned:
  "fd_ops ops opened \<Longrightarrow> length (source inp) = 4 \<Longrightarrow> \<forall>c\<in>set cs. 0 \<le> cand_fd c \<Longrightarrow>
   owned opened B (slot_fds inp @ map cand_fd cs) w \<Longrightarrow> claim_all ops cs inp w = (n, cs', inp', w') \<Longrightarrow>
   owned opened B (slot_fds inp') w' \<and> length (source inp') = 4 \<and> (\<forall>c\<in>set cs'. cand_fd c < 0) \<and>
   int (length (slot_fds inp')) = int (length (slot_fds inp)) + n"
proof (induction cs arbitrary: inp w n cs' inp' w')
  case (Cons c cs)
  let ?fs = "slot_fds inp @ map cand_fd cs"
  have own: "owned opened B (cand_fd c # ?fs) w"
    by (rule owned_permI [OF Cons.prems(4)]) simp
  show ?case
  proof (cases "first_free_slot inp")
    case None
    obtain n1 cs1 inp1 w1 where r: "claim_all ops cs inp (op_close ops (cand_fd c) w) = (n1, cs1, inp1, w1)"
      by (metis prod_cases4)
    from Cons.IH [OF Cons.prems(1,2) _ owned_close [OF Cons.prems(1) own] r] Cons.prems r None
    show ?thesis by auto
  next
    case (Some i)
    note i = first_free [OF Some]
    have f: "0 \<le> cand_fd c" using Cons.prems(3) by simp
    have m: "mset (slot_fds (claim_slot c i inp)) = add_mset (cand_fd c) (mset (slot_fds inp))"
      using i f Cons.prems(2) by (intro mset_slot_claim) auto
    then have "mset (slot_fds (claim_slot c i inp) @ map cand_fd cs) = mset (cand_fd c # ?fs)" by simp
    then have o: "owned opened B (slot_fds (claim_slot c i inp) @ map cand_fd cs) w"
      by (intro owned_permI [OF own]) simp
    have l: "length (slot_fds (claim_slot c i inp)) = Suc (length (slot_fds inp))"
      using m by (metis size_add_mset size_mset)
    obtain n1 cs1 inp1 w1 where r: "claim_all ops cs (claim_slot c i inp) w = (n1, cs1, inp1, w1)"
      by (metis prod_cases4)
    from Cons.IH [OF Cons.prems(1) _ _ o r] Cons.prems r Some l show ?thesis by auto
  qed
qed simp

lemma close_leftovers_none: "\<forall>c\<in>set cs. cand_fd c < 0 \<Longrightarrow> close_leftovers ops cs inp w = w"
  by (induction cs) auto

lemma discovery_owns:
  assumes "fd_ops ops opened" "length (source inp) = 4" "owned opened B (slot_fds inp) w"
    and "discover_pass ops dir file uninit sys dev inp w = Some (n, inp', w')"
  shows "owned opened B (slot_fds inp') w' \<and> length (source inp') = 4 \<and>
    (n = - 1 \<and> inp' = inp \<or> int (length (slot_fds inp')) = int (length (slot_fds inp)) + n)"
proof (cases "dir sys")
  case (Inl e)
  with assms show ?thesis by (auto simp: discover_pass_def split: if_splits)
next
  case (Inr es)
  with assms(4) obtain cands w1 where s: "scan_entries ops file uninit sys dev es [] w = Some (cands, w1)"
    by (auto simp: discover_pass_def split: bind_splits)
  have o: "owned opened B (slot_fds inp @ map cand_fd cands) w1" "\<forall>c\<in>set cands. 0 \<le> cand_fd c"
    using scan_owned [OF assms(1) _ _ s, of B "slot_fds inp"] assms(3) by auto
  let ?ps = "sort_key plan_key cands"
  obtain m cs inp1 w2 where c: "claim_all ops ?ps inp w1 = (m, cs, inp1, w2)" by (metis prod_cases4)
  have "owned opened B (slot_fds inp @ map cand_fd ?ps) w1" by (rule owned_permI [OF o(1)]) simp
  from claim_all_owned [OF assms(1,2) _ this c] o(2)
  have k: "owned opened B (slot_fds inp1) w2" "length (source inp1) = 4" "\<forall>c\<in>set cs. cand_fd c < 0"
    "int (length (slot_fds inp1)) = int (length (slot_fds inp)) + m" by auto
  from assms(4) Inr s c close_leftovers_none [OF k(3), of ops inp1 w2]
  have "n = m" "inp' = inp1" "w' = w2" by (auto simp: discover_pass_def plan_sorts)
  with k show ?thesis by simp
qed

text \<open>
  Discovery leaks no descriptor: if the open descriptors are those of the rest of the
  program and the ones the slots hold, the same is true after an initialisation or a rescan that
  found any devices in any order, and the result is the number of slots newly filled. Every
  device that was opened and not admitted, or found no free slot, has been closed.
\<close>

theorem discovery_owns_descriptors:
  assumes "fd_ops ops opened" "length (source inp) = 4" "owned opened B (slot_fds inp) w"
    and "discover_pass ops dir file uninit sys dev inp w = Some (n, inp', w')"
  shows "owned opened B (slot_fds inp') w' \<and> length (source inp') = 4 \<and>
    (n = - 1 \<and> inp' = inp \<or> int (length (slot_fds inp')) = int (length (slot_fds inp)) + n)"
  by (rule discovery_owns [OF assms])

text \<open>A device world for examples: the open descriptors, and devices that are all keyboards.\<close>

definition fresh_fd :: "int list \<Rightarrow> int" where
  "fresh_fd w = foldr max w 2 + 1"

definition kbd_ops :: "(int list) cart_input_ops" where
  "kbd_ops = \<lparr>op_open = (\<lambda>p w. (fresh_fd w, fresh_fd w # w)), op_close = (\<lambda>f w. removeAll f w),
     op_read = (\<lambda>f n w. (Fail 11, w)), ioctl_name = (\<lambda>f n w. (3, ''kbd'')),
     ioctl_key_state = (\<lambda>f n w. None), ioctl_bit = (\<lambda>f k n w. if k = 1 then Some [2] else None),
     ioctl_abs = (\<lambda>f a w. None)\<rparr>"

lemma foldr_max: "x \<in> set w \<Longrightarrow> x \<le> foldr max w (m :: int)" "m \<le> foldr max w m"
  by (induction w) auto

lemma fresh_fd: "fresh_fd w \<notin> set w" "0 \<le> fresh_fd w"
  using foldr_max(1) [of _ w 2] foldr_max(2) [of 2 w] by (force simp: fresh_fd_def)+

lemma kbd_fd_ops: "fd_ops kbd_ops set"
  using fresh_fd by (auto simp: fd_ops_def kbd_ops_def)

lemma event_node_dec:
  assumes "int n \<le> INT_MAX"
  shows "event_node_number (''event'' @ dec n) = Some n"
proof -
  have "n < 2 ^ 32" using assms by simp
  from strtou_dec [OF this, of "[]"] assms dec_digits [of n] show ?thesis
    by (simp add: event_node_number_def)
qed

definition kbd_source :: cart_input_source where
  "kbd_source = reset_source\<lparr>src_node := ''event3'', src_name := ''kbd''\<rparr>"

definition kbd_candidate :: cart_input_candidate where
  "kbd_candidate = \<lparr>cand_fd = 3, cand_rank = 1, number = 3, cand_node = ''event3'', prepared = kbd_source\<rparr>"

lemma kbd_scan:
  "scan_entries kbd_ops (\<lambda>_. None) [] ''/s'' ''/d'' [''event3'', ''mice''] [] [] = Some ([kbd_candidate], [3])"
proof -
  have "digit 3 = CHR ''3''" by code_simp
  then have "dec 3 = ''3''" by (simp add: dec.simps)
  with event_node_dec [of 3] have n: "event_node_number ''event3'' = Some 3" by simp
  have n': "event_node_number ''mice'' = None" by (simp add: event_node_number_def)
  have b: "bit_test [2] (Suc 0)" by (simp add: bit_test_def bit_iff_odd)
  show ?thesis
    by (simp add: examine_entry_def n n' classify_source_def kbd_ops_def fresh_fd_def
        probe_is_gamepad_def probe_is_action_keyboard_def b probe_snapshot_axes_def
        reset_source_def kbd_candidate_def kbd_source_def cstr_def sysfs_rank_of_def
        read_trimmed_line_def VITA_BUTTONS_NAME_def VITA_BUTTONS_PHYS_def)
qed

lemma kbd_discovery:
  "\<exists>inp' w'. discover_pass kbd_ops (\<lambda>_. Inr [''event3'', ''mice'']) (\<lambda>_. None) [] ''/s'' ''/d'' zero_input []
     = Some (1, inp', w')"
  by (simp add: discover_pass_def kbd_scan plan_sorts first_free_slot_def upt_rec numeral_eq_Suc
      slot_empty_def zero_input_def reset_source_def del: scan_entries.simps)

theorem discovery_owns_descriptors_witness:
  "\<exists>inp' w'. discover_pass kbd_ops (\<lambda>_. Inr [''event3'', ''mice'']) (\<lambda>_. None) [] ''/s'' ''/d''
      zero_input [] = Some (1, inp', w') \<and> owned set {} (slot_fds inp') w' \<and> length (slot_fds inp') = 1"
proof -
  have "length (source zero_input) = 4" "owned set {} (slot_fds zero_input) []" "slot_fds zero_input = []"
    by (simp_all add: zero_input_def slot_fds_def reset_source_def owned_def numeral_eq_Suc)
  moreover obtain inp' w' where "discover_pass kbd_ops (\<lambda>_. Inr [''event3'', ''mice'']) (\<lambda>_. None) [] ''/s'' ''/d''
      zero_input [] = Some (1, inp', w')" using kbd_discovery by blast
  ultimately show ?thesis using discovery_owns_descriptors [OF kbd_fd_ops, of zero_input "{}" "[]"] by force
qed

text \<open>Filling an empty table takes the candidates in the order of the plan.\<close>

definition connect_source :: "cart_input_candidate \<Rightarrow> cart_input_source" where
  "connect_source c = (prepared c)\<lparr>fd := cand_fd c, src_state := CART_INPUT_CONNECTED,
     src_generation := src_generation (prepared c) + 1\<rparr>"

lemma free_scan_prefix:
  "\<forall>i \<in> set xs. \<not> slot_empty inp i \<Longrightarrow> free_scan inp (xs @ ys) = free_scan inp ys"
  by (induction xs) auto

lemma first_free_prefix:
  assumes "source inp = filled @ replicate (4 - length filled) reset_source" "length filled \<le> 4"
    "\<forall>s\<in>set filled. 0 \<le> fd s"
  shows "first_free_slot inp = (if length filled < 4 then Some (length filled) else None)"
proof -
  have full: "\<forall>i\<in>set [0..<length filled]. \<not> slot_empty inp i"
    using assms by (auto simp: slot_empty_def nth_append not_less)
  have s: "[0..<4] = [0..<length filled] @ [length filled..<4]"
    using assms(2) upt_add_eq_append [of 0 "length filled" "4 - length filled"] by simp
  have "free_scan inp [length filled..<4] = (if length filled < 4 then Some (length filled) else None)"
    using assms by (auto simp: upt_conv_Cons slot_empty_def nth_append reset_source_def)
  then show ?thesis unfolding first_free_slot_def s free_scan_prefix [OF full] .
qed

lemma claim_all_prefix:
  "source inp = filled @ replicate (4 - length filled) reset_source \<Longrightarrow> length filled \<le> 4 \<Longrightarrow>
   \<forall>s\<in>set filled. 0 \<le> fd s \<Longrightarrow> \<forall>c\<in>set cs. 0 \<le> cand_fd c \<Longrightarrow> claim_all ops cs inp w = (n, cs', inp', w') \<Longrightarrow>
   take (length filled + min (4 - length filled) (length cs)) (source inp') =
     filled @ map connect_source (take (4 - length filled) cs) \<and>
   n = int (min (4 - length filled) (length cs))"
proof (induction cs arbitrary: inp filled w n cs' inp' w')
  case (Cons c cs)
  note free = first_free_prefix [OF Cons.prems(1-3)]
  show ?case
  proof (cases "length filled < 4")
    case True
    let ?inp = "claim_slot c (length filled) inp" and ?f = "filled @ [connect_source c]"
    obtain n1 cs1 w1 where r: "claim_all ops cs ?inp w = (n1, cs1, inp', w1)" "n = n1 + 1"
      using Cons.prems(5) True free by (auto split: prod.splits)
    have len: "4 - length filled = Suc (4 - Suc (length filled))" using True by simp
    have src: "source ?inp = ?f @ replicate (4 - length ?f) reset_source"
      using Cons.prems(1) True len by (simp add: claim_slot_def connect_source_def list_update_append)
    have "take (length ?f + min (4 - length ?f) (length cs)) (source inp') =
        ?f @ map connect_source (take (4 - length ?f) cs) \<and> n1 = int (min (4 - length ?f) (length cs))"
      by (rule Cons.IH [OF src _ _ _ r(1)]) (use True Cons.prems(3,4) in \<open>auto simp: connect_source_def\<close>)
    with r(2) True len show ?thesis by simp
  next
    case False
    then have f4: "length filled = 4" using Cons.prems(2) by simp
    obtain n1 cs1 w1 where "claim_all ops cs inp (op_close ops (cand_fd c) w) = (n1, cs1, inp', w1)" "n = n1"
      using Cons.prems(5) False free by (auto split: prod.splits)
    from Cons.IH [OF Cons.prems(1-3) _ this(1)] this(2) Cons.prems(4) f4 show ?thesis by simp
  qed
qed auto

lemma examine_fd: "examine_entry ops file uninit sys dev d w = Some (Some c, w') \<Longrightarrow> 0 \<le> cand_fd c"
  by (auto simp: examine_entry_def Let_def split: option.splits if_splits prod.splits bind_splits)

lemma scan_fds:
  "\<forall>c\<in>set cands. 0 \<le> cand_fd c \<Longrightarrow> scan_entries ops file uninit sys dev es cands w = Some (cands', w') \<Longrightarrow>
   \<forall>c\<in>set cands'. 0 \<le> cand_fd c"
proof (induction es arbitrary: cands w)
  case (Cons e es)
  show ?case
  proof (cases "length cands \<ge> 16")
    case False
    with Cons.prems(2) obtain c w1 where "examine_entry ops file uninit sys dev e w = Some (c, w1)"
      "scan_entries ops file uninit sys dev es (case c of None \<Rightarrow> cands | Some x \<Rightarrow> cands @ [x]) w1 = Some (cands', w')"
      by (auto split: bind_splits)
    with Cons.prems(1) show ?thesis by (intro Cons.IH) (auto dest: examine_fd split: option.splits)
  qed (use Cons.prems in simp)
qed auto

text \<open>
  Claim C29. Initialisation connects the best devices: the candidates found are ordered by rank,
  highest first, then by node number, earlier ones first among equals (the array insertion sort
  is the stable sort by that key), and the first four of them fill the source slots in that order.
\<close>

theorem init_connects_best_sources:
  assumes "dir sys = Inr es" "scan_entries ops file uninit sys dev es [] w = Some (cands, w1)"
  shows "\<exists>inp' w'. cart_input_init_ex False (Some ops) dir file uninit (Some sys) (Some dev) inp w
      = Some (int (min 4 (length cands)), inp', w') \<and>
    take (min 4 (length cands)) (source inp') = map connect_source (take 4 (sort_key plan_key cands)) \<and>
    snd (cart_input_plan cands) = sort_key plan_key cands"
proof -
  obtain n cs inp1 w2 where c: "claim_all ops (sort_key plan_key cands) zero_input w1 = (n, cs, inp1, w2)"
    by (metis prod_cases4)
  have z: "source zero_input = [] @ replicate (4 - length []) reset_source" by (simp add: zero_input_def)
  have "\<forall>c\<in>set (sort_key plan_key cands). 0 \<le> cand_fd c" using scan_fds [OF _ assms(2)] by simp
  from claim_all_prefix [OF z _ _ this c] assms c show ?thesis
    by (simp add: cart_input_init_ex_def discover_pass_def plan_sorts)
qed

theorem init_connects_best_sources_witness:
  "\<exists>inp' w'. cart_input_init_ex False (Some kbd_ops) (\<lambda>_. Inr [''event3'', ''mice'']) (\<lambda>_. None) []
      (Some ''/s'') (Some ''/d'') zero_input [] = Some (1, inp', w') \<and>
      take 1 (source inp') = [connect_source kbd_candidate]"
  using init_connects_best_sources [OF _ kbd_scan, of "\<lambda>_. Inr [''event3'', ''mice'']" zero_input] by auto

text \<open>Shutting down closes every descriptor the slots hold.\<close>

lemma close_sources_owned:
  "fd_ops ops opened \<Longrightarrow> owned opened B (filter (\<lambda>f. 0 \<le> f) (map fd ss)) w \<Longrightarrow>
   owned opened B [] (close_sources ops ss w)"
proof (induction ss arbitrary: w)
  case (Cons s ss)
  show ?case
  proof (cases "0 \<le> fd s")
    case True
    with Cons.prems(2) have "owned opened B (fd s # filter (\<lambda>f. 0 \<le> f) (map fd ss)) w" by simp
    from Cons.IH [OF Cons.prems(1) owned_close [OF Cons.prems(1) this]] True show ?thesis by simp
  next
    case False
    with Cons show ?thesis by simp
  qed
qed simp

lemma shutdown_owned:
  assumes "fd_ops ops opened" "owned opened B (slot_fds inp) w" "cart_input_shutdown ops (Some inp) w = (Some inp', w')"
  shows "opened w' = B \<and> slot_fds inp' = []"
proof -
  have "owned opened B [] w'"
    using assms close_sources_owned [OF assms(1), of B "source inp" w]
    by (auto simp: cart_input_shutdown_def slot_fds_def)
  moreover have "slot_fds inp' = []"
    using assms(3) by (auto simp: cart_input_shutdown_def slot_fds_def reset_source_def filter_empty_conv)
  ultimately show ?thesis by (simp add: owned_def)
qed

end
