(* ===== verification/Input_Poll.thy ===== *)
theory Input_Poll
  imports Input_Evdev
begin

text \<open>
  Input devices, second part (\<^verbatim>\<open>cart/src/input_evdev.c\<close>, lines 514 to 718): the queue of pending
  actions, the consumption of events with the SYN_DROPPED protocol, the pump that drains a source,
  the merged input frame, and the poll. The pump loops as long as reads succeed or are
  interrupted, so it takes fuel: \<open>None\<close> means the fuel is used up.
\<close>

section \<open>Pending actions\<close>

text \<open>The value of an action as stored in a byte of the queue, and back.\<close>

definition action_of :: "u8 \<Rightarrow> cart_input_action" where
  "action_of b =
     (if b = 1 then CART_INPUT_NEXT else if b = 2 then CART_INPUT_PREVIOUS
      else if b = 3 then CART_INPUT_SELECT else if b = 4 then CART_INPUT_BACK
      else if b = 5 then CART_INPUT_MENU else if b = 6 then CART_INPUT_QUIT else CART_INPUT_NONE)"

definition push_pending :: "cart_input_action \<Rightarrow> action_queue \<Rightarrow> action_queue" where
  "push_pending action q =
     (if action \<le> CART_INPUT_NONE \<or> action > CART_INPUT_QUIT then q
      else if unat (pend_count q) < 8
      then q\<lparr>pend_item := (pend_item q)[unat (pend_count q) := of_nat (action_value action)],
             pend_count := pend_count q + 1\<rparr>
      else q)"

definition enqueue_action :: "cart_input_action \<Rightarrow> cart_input \<Rightarrow> cart_input" where
  "enqueue_action action inp = inp\<lparr>pending := push_pending action (pending inp)\<rparr>"

text \<open>The head of the queue, removed with \<^verbatim>\<open>memmove\<close>.\<close>

definition pop_pending :: "action_queue \<Rightarrow> cart_input_action \<times> action_queue" where
  "pop_pending q =
     (if pend_count q > 0
      then let n = unat (pend_count q) - 1
           in (action_of (pend_item q ! 0),
               q\<lparr>pend_item := take n (drop 1 (pend_item q)) @ drop n (pend_item q),
                 pend_count := pend_count q - 1\<rparr>)
      else (CART_INPUT_NONE, q))"

section \<open>Events\<close>

record input_event =
  ev_type :: u16
  ev_code :: u16
  ev_value :: int

definition le16 :: "u8 \<Rightarrow> u8 \<Rightarrow> u16" where
  "le16 b0 b1 = ucast b0 + 256 * ucast b1"

definition le32 :: "u8 \<Rightarrow> u8 \<Rightarrow> u8 \<Rightarrow> u8 \<Rightarrow> u32" where
  "le32 b0 b1 b2 b3 = ucast b0 + 256 * ucast b1 + 65536 * ucast b2 + 16777216 * ucast b3"

text \<open>
  \<^verbatim>\<open>struct input_event\<close> of the 32-bit target: eight bytes of time stamp, then type, code and value,
  little endian.
\<close>

definition decode_event :: "u8 list \<Rightarrow> input_event" where
  "decode_event b =
     \<lparr>ev_type = le16 (b ! 8) (b ! 9), ev_code = le16 (b ! 10) (b ! 11),
      ev_value = sint (le32 (b ! 12) (b ! 13) (b ! 14) (b ! 15))\<rparr>"

abbreviation (input) EV_SYN :: u16 where "EV_SYN \<equiv> 0"
abbreviation (input) EV_KEY :: u16 where "EV_KEY \<equiv> 1"
abbreviation (input) EV_ABS :: u16 where "EV_ABS \<equiv> 3"
abbreviation (input) SYN_REPORT :: u16 where "SYN_REPORT \<equiv> 0"
abbreviation (input) SYN_DROPPED :: u16 where "SYN_DROPPED \<equiv> 3"

abbreviation upd_source :: "nat \<Rightarrow> (cart_input_source \<Rightarrow> cart_input_source) \<Rightarrow> cart_input \<Rightarrow> cart_input" where
  "upd_source i g inp \<equiv> inp\<lparr>source := (source inp)[i := g (source inp ! i)]\<rparr>"

definition handle_disconnect :: "'w cart_input_ops \<Rightarrow> nat \<Rightarrow> cart_input \<Rightarrow> 'w \<Rightarrow> cart_input \<times> 'w" where
  "handle_disconnect ops i inp w =
     (let s = source inp ! i; w = (if fd s \<ge> 0 then op_close ops (fd s) w else w)
      in (inp\<lparr>source := (source inp)[i := s\<lparr>fd := - 1, src_state := CART_INPUT_ABSENT,
                src_generation := src_generation s + 1,
                last_raw := replicate CART_INPUT_AXIS_COUNT 0, held_keys := 0\<rparr>],
              partial := (partial inp)[i := (partial inp ! i)\<lparr>part_len := 0\<rparr>]\<rparr>, w))"

text \<open>The 32-bit value of the event is narrowed to 16 bits by the call of the action decoder.\<close>

definition held_after :: "u16 \<Rightarrow> int \<Rightarrow> u64 \<Rightarrow> u64" where
  "held_after code value held =
     (if code < 64
      then if value \<noteq> 0 then held OR push_bit (unat code) 1 else held AND NOT (push_bit (unat code) 1)
      else held)"

definition process_key_event :: "nat \<Rightarrow> u16 \<Rightarrow> int \<Rightarrow> cart_input \<Rightarrow> cart_input" where
  "process_key_event i code value inp =
     (let inp = upd_source i (\<lambda>s. s\<lparr>held_keys := held_after code value (held_keys s)\<rparr>) inp
      in if cart_input_key_emits_action (of_int value)
         then enqueue_action (cart_input_map_key code) inp else inp)"

definition merge_keys :: "u8 list \<Rightarrow> u64" where
  "merge_keys bits = foldl (\<lambda>m code. m OR push_bit code (if bit_test bits code then 1 else 0)) 0 [0..<64]"

fun resync_axes :: "'w cart_input_ops \<Rightarrow> 'w \<Rightarrow> nat list \<Rightarrow> cart_input_source \<Rightarrow> cart_input_source" where
  "resync_axes ops w [] s = s"
| "resync_axes ops w (slot # slots) s =
     resync_axes ops w slots
       (if \<not> axis_valid s ! slot then s
        else case ioctl_abs ops (fd s) (AXIS_CODES ! slot) w of
          None \<Rightarrow> s
        | Some info \<Rightarrow> s\<lparr>last_raw := (last_raw s)[slot := abs_value info]\<rparr>)"

definition resync_source :: "'w cart_input_ops \<Rightarrow> 'w \<Rightarrow> cart_input_source \<Rightarrow> cart_input_source" where
  "resync_source ops w s =
     resync_axes ops w [0..<CART_INPUT_AXIS_COUNT]
       (case ioctl_key_state ops (fd s) STATE_BYTES_KEY w of
          None \<Rightarrow> s | Some bits \<Rightarrow> s\<lparr>held_keys := merge_keys bits\<rparr>)"

definition resync_after_desync :: "'w cart_input_ops \<Rightarrow> 'w \<Rightarrow> nat \<Rightarrow> cart_input \<Rightarrow> cart_input" where
  "resync_after_desync ops w i inp = upd_source i (resync_source ops w) inp"

definition consume_event :: "'w cart_input_ops \<Rightarrow> 'w \<Rightarrow> nat \<Rightarrow> input_event \<Rightarrow> cart_input \<Rightarrow> cart_input" where
  "consume_event ops w i ev inp =
     (let st = src_state (source inp ! i)
      in if ev_type ev = EV_SYN then
           (if ev_code ev = SYN_DROPPED \<and> st = CART_INPUT_CONNECTED
            then upd_source i (\<lambda>s. s\<lparr>src_state := CART_INPUT_DESYNC\<rparr>) inp
            else if ev_code ev = SYN_REPORT \<and> st = CART_INPUT_DESYNC
            then upd_source i (\<lambda>s. s\<lparr>src_state := CART_INPUT_CONNECTED\<rparr>) (resync_after_desync ops w i inp)
            else inp)
         else if ev_type ev = EV_KEY then
           (if st = CART_INPUT_CONNECTED then process_key_event i (ev_code ev) (ev_value ev) inp else inp)
         else if ev_type ev = EV_ABS then
           (case axis_slot (unat (ev_code ev)) of
              Some slot \<Rightarrow>
                if st = CART_INPUT_CONNECTED
                then upd_source i (\<lambda>s. s\<lparr>last_raw := (last_raw s)[slot := ev_value ev]\<rparr>) inp else inp
            | None \<Rightarrow> inp)
         else inp)"

section \<open>The pump\<close>

text \<open>The inner loop: complete events are taken from the front of the buffer with \<^verbatim>\<open>memmove\<close>.\<close>

definition take_event :: "partial_read \<Rightarrow> u8 list \<times> partial_read" where
  "take_event p =
     (take 16 (part_buf p),
      p\<lparr>part_buf := take (part_len p - 16) (drop 16 (part_buf p)) @ drop (part_len p - 16) (part_buf p),
        part_len := part_len p - 16\<rparr>)"

function drain :: "'w cart_input_ops \<Rightarrow> 'w \<Rightarrow> nat \<Rightarrow> partial_read \<Rightarrow> cart_input \<Rightarrow> partial_read \<times> cart_input" where
  "drain ops w i p inp =
     (if part_len p \<ge> 16
      then case take_event p of (bytes, p) \<Rightarrow> drain ops w i p (consume_event ops w i (decode_event bytes) inp)
      else (p, inp))"
  by pat_completeness auto
termination
  by (relation "measure (\<lambda>(ops, w, i, p, inp). part_len p)") (auto simp: take_event_def)

declare drain.simps [simp del]

definition drain_slot :: "'w cart_input_ops \<Rightarrow> 'w \<Rightarrow> nat \<Rightarrow> cart_input \<Rightarrow> cart_input" where
  "drain_slot ops w i inp =
     (case drain ops w i (partial inp ! i) inp of (p, inp) \<Rightarrow> inp\<lparr>partial := (partial inp)[i := p]\<rparr>)"

definition EINTR :: int where "EINTR = 4"
definition EAGAIN :: int where "EAGAIN = 11"

text \<open>A read writes its bytes after the ones already in the buffer.\<close>

definition store_read :: "u8 list \<Rightarrow> partial_read \<Rightarrow> partial_read" where
  "store_read bs p =
     p\<lparr>part_buf := take (part_len p) (part_buf p) @ bs @ drop (part_len p + length bs) (part_buf p),
       part_len := part_len p + length bs\<rparr>"

fun pump_source :: "nat \<Rightarrow> 'w cart_input_ops \<Rightarrow> nat \<Rightarrow> cart_input \<Rightarrow> 'w \<Rightarrow> (cart_input \<times> 'w) option" where
  "pump_source 0 ops i inp w = None"
| "pump_source (Suc fuel) ops i inp w =
     (let inp = drain_slot ops w i inp; p = partial inp ! i
      in case op_read ops (fd (source inp ! i)) (256 - part_len p) w of
           (Got bs, w) \<Rightarrow>
             pump_source fuel ops i (inp\<lparr>partial := (partial inp)[i := store_read bs p]\<rparr>) w
         | (Eof, w) \<Rightarrow> Some (handle_disconnect ops i inp w)
         | (Fail e, w) \<Rightarrow>
             if e = EINTR then pump_source fuel ops i inp w
             else if e = EAGAIN then Some (inp, w)
             else Some (handle_disconnect ops i inp w))"

section \<open>The frame and the poll\<close>

record cart_input_frame =
  fr_axis :: "int list"
  axis_present :: "bool list"
  axis_owner :: "nat list"
  fr_held_keys :: u64
  connected_mask :: u32
  generation_total :: u32

definition zero_frame :: cart_input_frame where
  "zero_frame = \<lparr>fr_axis = replicate 8 0, axis_present = replicate 8 False, axis_owner = replicate 8 4,
     fr_held_keys = 0, connected_mask = 0, generation_total = 0\<rparr>"

text \<open>One axis of one source: the first source with a valid reading owns the axis.\<close>

definition frame_axis :: "nat \<Rightarrow> cart_input_source \<Rightarrow> nat \<Rightarrow> cart_input_frame \<Rightarrow> cart_input_frame option" where
  "frame_axis i s slot fr =
     (if \<not> axis_valid s ! slot then Some fr
      else do {
        normalized \<leftarrow> cart_input_axis_normalize (last_raw s ! slot) (Some (src_axis s ! slot));
        if normalized = CART_INPUT_AXIS_INVALID then Some fr
        else if axis_present fr ! slot then Some fr
        else Some (fr\<lparr>fr_axis := (fr_axis fr)[slot := signed_take_bit 15 normalized],
                      axis_present := (axis_present fr)[slot := True],
                      axis_owner := (axis_owner fr)[slot := i]\<rparr>)
      })"

fun frame_axes :: "nat \<Rightarrow> cart_input_source \<Rightarrow> nat list \<Rightarrow> cart_input_frame \<Rightarrow> cart_input_frame option" where
  "frame_axes i s [] fr = Some fr"
| "frame_axes i s (slot # slots) fr = do { fr \<leftarrow> frame_axis i s slot fr; frame_axes i s slots fr }"

fun frame_sources :: "nat \<Rightarrow> cart_input_source list \<Rightarrow> cart_input_frame \<Rightarrow> cart_input_frame option" where
  "frame_sources i [] fr = Some fr"
| "frame_sources i (s # ss) fr =
     (if src_state s = CART_INPUT_ABSENT then frame_sources (Suc i) ss fr
      else do {
        fr \<leftarrow> frame_axes i s [0..<CART_INPUT_AXIS_COUNT]
          (fr\<lparr>connected_mask := connected_mask fr OR push_bit i 1,
             generation_total := generation_total fr + src_generation s,
             fr_held_keys := fr_held_keys fr OR held_keys s\<rparr>);
        frame_sources (Suc i) ss fr
      })"

definition build_frame :: "cart_input \<Rightarrow> cart_input_frame option" where
  "build_frame inp = frame_sources 0 (source inp) zero_frame"

fun poll_sources :: "nat \<Rightarrow> 'w cart_input_ops \<Rightarrow> nat list \<Rightarrow> cart_input \<Rightarrow> 'w \<Rightarrow> (cart_input \<times> 'w) option" where
  "poll_sources fuel ops [] inp w = Some (inp, w)"
| "poll_sources fuel ops (i # is) inp w =
     (if fd (source inp ! i) < 0 \<or> src_state (source inp ! i) = CART_INPUT_DESYNC
      then poll_sources fuel ops is inp w
      else do { (inp, w) \<leftarrow> pump_source fuel ops i inp w; poll_sources fuel ops is inp w })"

text \<open>
  The poll after its NULL checks: the action, the frame when one is asked for (the whole is undefined
  on an overflow in the normalisation), the new input and the device state. The poll itself
  returns -1 and changes nothing when the input or the place for the action is NULL.
\<close>

definition poll_body ::
    "nat \<Rightarrow> 'w cart_input_ops \<Rightarrow> bool \<Rightarrow> cart_input \<Rightarrow> 'w
     \<Rightarrow> (cart_input_action \<times> cart_input_frame option \<times> cart_input \<times> 'w) option" where
  "poll_body fuel ops want_frame inp w = do {
     (inp, w) \<leftarrow> poll_sources fuel ops [0..<CART_INPUT_MAX_SOURCES] inp w;
     (case pop_pending (pending inp) of
        (action, q) \<Rightarrow>
          let inp = inp\<lparr>pending := q\<rparr>
          in if want_frame
             then do { fr \<leftarrow> build_frame inp; Some (action, Some fr, inp, w) }
             else Some (action, None, inp, w))
   }"

definition cart_input_poll ::
    "nat \<Rightarrow> 'w cart_input_ops \<Rightarrow> bool \<Rightarrow> bool \<Rightarrow> cart_input option \<Rightarrow> 'w
     \<Rightarrow> (int \<times> cart_input_action option \<times> cart_input_frame option \<times> cart_input option \<times> 'w) option" where
  "cart_input_poll fuel ops action_is_null want_frame input w =
     (if input = None \<or> action_is_null then Some (- 1, None, None, input, w)
      else case poll_body fuel ops want_frame (the input) w of
        None \<Rightarrow> None
      | Some (action, fr, inp, w) \<Rightarrow> Some (0, Some action, fr, Some inp, w))"

section \<open>The queue is a bounded FIFO\<close>

text \<open>
  The contract of a queue of at most \<open>cap\<close> elements that refuses new elements when it is full and
  ignores the element \<open>none\<close>; \<open>contents\<close> is its abstract state.
\<close>

locale bounded_fifo =
  fixes push :: "'a \<Rightarrow> 'q \<Rightarrow> 'q" and pop :: "'q \<Rightarrow> 'a \<times> 'q" and ok :: "'q \<Rightarrow> bool"
    and contents :: "'q \<Rightarrow> 'a list" and cap :: nat and none :: 'a
  assumes push_ok: "ok q \<Longrightarrow> ok (push a q)"
    and push_contents: "ok q \<Longrightarrow> contents (push a q) =
      (if a = none \<or> cap \<le> length (contents q) then contents q else contents q @ [a])"
    and pop_empty: "ok q \<Longrightarrow> contents q = [] \<Longrightarrow> pop q = (none, q)"
    and pop_cons: "ok q \<Longrightarrow> contents q = a # as \<Longrightarrow> fst (pop q) = a \<and> ok (snd (pop q)) \<and> contents (snd (pop q)) = as"
    and bounded: "ok q \<Longrightarrow> length (contents q) \<le> cap"
    and no_none: "ok q \<Longrightarrow> none \<notin> set (contents q)"
begin

lemma push_all_ok: "ok q \<Longrightarrow> ok (fold push as q)"
  by (induction as arbitrary: q) (auto intro: push_ok)

lemma push_all:
  "ok q \<Longrightarrow> contents (fold push as q) = take cap (contents q @ filter (\<lambda>a. a \<noteq> none) as)"
proof (induction as arbitrary: q)
  case Nil
  then show ?case using bounded by simp
next
  case (Cons a as)
  have "cap - length (contents q) = Suc (cap - Suc (length (contents q)))" if "\<not> cap \<le> length (contents q)"
    using that by simp
  with Cons show ?case using push_ok [of q a] push_contents [of q a] by auto
qed

lemma pop_after_push:
  assumes "ok q" "a \<noteq> none" "contents q = []" "0 < cap"
  shows "fst (pop (push a q)) = a"
  using assms push_ok [of q a] push_contents [of q a] pop_cons [of "push a q" a "[]"] by auto

lemma pop_none_iff: "ok q \<Longrightarrow> fst (pop q) = none \<longleftrightarrow> contents q = []"
  using pop_empty [of q] pop_cons [of q] no_none [of q] by (cases "contents q") auto

end

definition queue_ok :: "action_queue \<Rightarrow> bool" where
  "queue_ok q \<longleftrightarrow> length (pend_item q) = 8 \<and> unat (pend_count q) \<le> 8 \<and>
     (\<forall>b\<in>set (take (unat (pend_count q)) (pend_item q)). action_of b \<noteq> CART_INPUT_NONE)"

definition queue_actions :: "action_queue \<Rightarrow> cart_input_action list" where
  "queue_actions q = map action_of (take (unat (pend_count q)) (pend_item q))"

lemma action_of_value [simp]: "action_of (of_nat (action_value a)) = a"
  by (cases a) (simp_all add: action_of_def)

lemma action_guard: "(a \<le> CART_INPUT_NONE \<or> a > CART_INPUT_QUIT) = (a = CART_INPUT_NONE)"
  by (cases a) (simp_all add: less_eq_cart_input_action_def less_cart_input_action_def)

lemma push_pending_eq:
  assumes "queue_ok q"
  shows "queue_ok (push_pending a q) \<and> queue_actions (push_pending a q) =
    (if a = CART_INPUT_NONE \<or> 8 \<le> length (queue_actions q) then queue_actions q else queue_actions q @ [a])"
proof -
  let ?n = "unat (pend_count q)"
  have l: "length (queue_actions q) = ?n" using assms by (simp add: queue_ok_def queue_actions_def)
  show ?thesis
  proof (cases "a = CART_INPUT_NONE \<or> 8 \<le> ?n")
    case True
    with assms l show ?thesis unfolding push_pending_def action_guard by auto
  next
    case False
    then have n: "?n < 8" by simp
    then have "pend_count q \<noteq> - 1" by (auto simp: unsigned_minus_1_eq_mask mask_eq_exp_minus_1)
    then have c: "unat (pend_count q + 1) = Suc ?n" by (rule unat_inc)
    have "take (Suc ?n) ((pend_item q)[?n := of_nat (action_value a)]) =
        take ?n (pend_item q) @ [of_nat (action_value a)]"
      using n assms by (simp add: queue_ok_def take_Suc_conv_app_nth)
    with n c assms False l show ?thesis
      unfolding push_pending_def action_guard by (auto simp: queue_ok_def queue_actions_def)
  qed
qed

lemma pop_pending_eq:
  assumes ok: "queue_ok q" and q: "queue_actions q = a # as"
  shows "fst (pop_pending q) = a \<and> queue_ok (snd (pop_pending q)) \<and> queue_actions (snd (pop_pending q)) = as"
proof -
  let ?n = "unat (pend_count q)"
  have n: "0 < ?n" using q by (cases "?n = 0") (auto simp: queue_actions_def)
  then have pos: "0 < pend_count q" by (simp add: unat_gt_0 word_gt_0)
  have items: "length (pend_item q) = 8" "?n \<le> 8" using ok by (auto simp: queue_ok_def)
  then obtain b bs where b: "pend_item q = b # bs" "length bs = 7" by (cases "pend_item q") auto
  obtain m where m: "?n = Suc m" using n gr0_implies_Suc by blast
  have c: "unat (pend_count q - 1) = m" using pos m by (simp add: unat_diff word_le_nat_alt unat_gt_0 Suc_le_eq)
  have t: "take m (take m bs @ drop m (b # bs)) = take m bs" using b(2) m items by simp
  have "queue_actions q = action_of b # map action_of (take m bs)" using b m by (simp add: queue_actions_def)
  with q have "a = action_of b" "as = map action_of (take m bs)" by auto
  with b m c t items pos ok show ?thesis by (auto simp: pop_pending_def queue_ok_def queue_actions_def)
qed

interpretation fifo: bounded_fifo push_pending pop_pending queue_ok queue_actions 8 CART_INPUT_NONE
proof
  fix q :: action_queue assume ok: "queue_ok q"
  show "queue_ok (push_pending a q)" for a using push_pending_eq [OF ok] by blast
  show "queue_actions (push_pending a q) =
      (if a = CART_INPUT_NONE \<or> 8 \<le> length (queue_actions q) then queue_actions q else queue_actions q @ [a])" for a
    using push_pending_eq [OF ok] by blast
  show "pop_pending q = (CART_INPUT_NONE, q)" if "queue_actions q = []"
    using that ok by (auto simp: queue_actions_def queue_ok_def pop_pending_def unat_eq_0 word_gt_0)
  show "fst (pop_pending q) = a \<and> queue_ok (snd (pop_pending q)) \<and> queue_actions (snd (pop_pending q)) = as"
    if "queue_actions q = a # as" for a as using pop_pending_eq [OF ok that] .
  show "length (queue_actions q) \<le> 8" using ok by (simp add: queue_ok_def queue_actions_def)
  show "CART_INPUT_NONE \<notin> set (queue_actions q)" using ok by (auto simp: queue_ok_def queue_actions_def)
qed

text \<open>
  Claim C31. The byte array with its count and its \<^verbatim>\<open>memmove\<close> is a first-in first-out queue of at most
  eight actions: after queueing any actions the pending ones are the first eight of the old ones
  followed by the new ones (later ones, a quit included, are dropped), and taking one returns the
  oldest, or no action exactly when none is pending.
\<close>

theorem pending_is_bounded_fifo:
  assumes "queue_ok q"
  shows "queue_actions (fold push_pending as q) =
      take 8 (queue_actions q @ filter (\<lambda>a. a \<noteq> CART_INPUT_NONE) as) \<and>
    queue_ok (fold push_pending as q) \<and>
    (fst (pop_pending q) = CART_INPUT_NONE \<longleftrightarrow> queue_actions q = []) \<and>
    (queue_actions q \<noteq> [] \<longrightarrow> fst (pop_pending q) = hd (queue_actions q) \<and>
       queue_actions (snd (pop_pending q)) = tl (queue_actions q) \<and> queue_ok (snd (pop_pending q)))"
proof (intro conjI impI)
  assume "queue_actions q \<noteq> []"
  then have "queue_actions q = hd (queue_actions q) # tl (queue_actions q)" by simp
  from fifo.pop_cons [OF assms this] show "fst (pop_pending q) = hd (queue_actions q)"
    "queue_actions (snd (pop_pending q)) = tl (queue_actions q)" "queue_ok (snd (pop_pending q))" by auto
qed (rule fifo.push_all fifo.push_all_ok fifo.pop_none_iff, rule assms)+

theorem pending_is_bounded_fifo_witness:
  "queue_actions (fold push_pending (replicate 8 CART_INPUT_NEXT @ [CART_INPUT_QUIT])
     \<lparr>pend_count = 0, pend_item = replicate 8 0\<rparr>) = replicate 8 CART_INPUT_NEXT"
  using pending_is_bounded_fifo [of "\<lparr>pend_count = 0, pend_item = replicate 8 0\<rparr>"
      "replicate 8 CART_INPUT_NEXT @ [CART_INPUT_QUIT]"]
  by (simp add: queue_ok_def queue_actions_def)

section \<open>The pump and the byte stream\<close>

text \<open>The events in a byte stream, and the incomplete event at its end.\<close>

fun events_of :: "u8 list \<Rightarrow> input_event list" where
  "events_of bs = (if 16 \<le> length bs then decode_event (take 16 bs) # events_of (drop 16 bs) else [])"

fun rest_of :: "u8 list \<Rightarrow> u8 list" where
  "rest_of bs = (if 16 \<le> length bs then rest_of (drop 16 bs) else bs)"

declare events_of.simps [simp del] rest_of.simps [simp del]

lemma rest_short: "length (rest_of bs) < 16"
  by (induction bs rule: rest_of.induct) (subst rest_of.simps, auto)

lemma stream_append:
  "events_of (xs @ ys) = events_of xs @ events_of (rest_of xs @ ys)"
  "rest_of (xs @ ys) = rest_of (rest_of xs @ ys)"
proof (induction xs rule: rest_of.induct)
  case (1 xs)
  have split: "take 16 (xs @ ys) = take 16 xs" "drop 16 (xs @ ys) = drop 16 xs @ ys" if "16 \<le> length xs"
    using that by simp_all
  { case 1
    show ?case
    proof (cases "16 \<le> length xs")
      case True
      then show ?thesis
        using "1.IH"(1) split
        by (subst (1 2) events_of.simps, subst rest_of.simps) simp
    next
      case False
      then show ?thesis by (simp add: events_of.simps [of xs] rest_of.simps [of xs])
    qed }
  { case 2
    show ?case
    proof (cases "16 \<le> length xs")
      case True
      then show ?thesis using "1.IH"(2) split
        by (subst rest_of.simps, subst (2) rest_of.simps) simp
    next
      case False
      then show ?thesis by (simp add: rest_of.simps [of xs])
    qed }
qed

lemma events_short: "length bs < 16 \<Longrightarrow> events_of bs = []" "length bs < 16 \<Longrightarrow> rest_of bs = bs"
  by (simp_all add: events_of.simps rest_of.simps)

definition part_ok :: "partial_read \<Rightarrow> bool" where
  "part_ok p \<longleftrightarrow> length (part_buf p) = 256 \<and> part_len p \<le> 256"

definition part_bytes :: "partial_read \<Rightarrow> u8 list" where
  "part_bytes p = take (part_len p) (part_buf p)"

lemma length_part_bytes [simp]: "part_ok p \<Longrightarrow> length (part_bytes p) = part_len p"
  by (simp add: part_ok_def part_bytes_def)

lemma take_event_ok:
  assumes "part_ok p" "16 \<le> part_len p"
  shows "take_event p = (take 16 (part_bytes p), snd (take_event p))" "part_ok (snd (take_event p))"
    "part_bytes (snd (take_event p)) = drop 16 (part_bytes p)"
  using assms by (auto simp: take_event_def part_ok_def part_bytes_def drop_take)

lemma store_read_ok:
  assumes "part_ok p" "part_len p + length bs \<le> 256"
  shows "part_ok (store_read bs p) \<and> part_bytes (store_read bs p) = part_bytes p @ bs"
  using assms by (auto simp: store_read_def part_ok_def part_bytes_def)

definition consume_all :: "'w cart_input_ops \<Rightarrow> 'w \<Rightarrow> nat \<Rightarrow> input_event list \<Rightarrow> cart_input \<Rightarrow> cart_input" where
  "consume_all ops w i evs inp = fold (consume_event ops w i) evs inp"

lemma drain_ok:
  assumes "part_ok p"
  shows "\<exists>p'. drain ops w i p inp = (p', consume_all ops w i (events_of (part_bytes p)) inp) \<and> part_ok p' \<and>
    part_bytes p' = rest_of (part_bytes p)"
  using assms
proof (induction ops w i p inp rule: drain.induct)
  case (1 ops w i p inp)
  show ?case
  proof (cases "16 \<le> part_len p")
    case True
    note e = take_event_ok [OF "1.prems" True]
    have l: "16 \<le> length (part_bytes p)" using True "1.prems" by simp
    let ?ev = "decode_event (take 16 (part_bytes p))"
    from "1.IH" [OF True e(1) [symmetric] e(2)] obtain p' where
      "drain ops w i (snd (take_event p)) (consume_event ops w i ?ev inp) =
        (p', consume_all ops w i (events_of (drop 16 (part_bytes p))) (consume_event ops w i ?ev inp))"
      "part_ok p'" "part_bytes p' = rest_of (drop 16 (part_bytes p))"
      using e(3) by auto
    moreover have "drain ops w i p inp = drain ops w i (snd (take_event p)) (consume_event ops w i ?ev inp)"
      using True by (subst drain.simps, subst e(1)) simp
    ultimately show ?thesis
      using l by (simp add: events_of.simps [of "part_bytes p"] rest_of.simps [of "part_bytes p"] consume_all_def)
  next
    case False
    then have "length (part_bytes p) < 16" using "1.prems" by simp
    with False "1.prems" show ?thesis by (simp add: drain.simps events_short consume_all_def)
  qed
qed

text \<open>What an event leaves alone.\<close>

lemma resync_axes_frame:
  "fd (resync_axes ops w slots s) = fd s \<and> src_state (resync_axes ops w slots s) = src_state s \<and>
   length (last_raw (resync_axes ops w slots s)) = length (last_raw s)"
  by (induction slots arbitrary: s) (auto split: option.splits)

lemma resync_source_fd [simp]: "fd (resync_source ops w s) = fd s"
  by (simp add: resync_source_def resync_axes_frame split: option.split)

lemma consume_frame:
  "partial (consume_event ops w i ev inp) = partial inp \<and>
   length (source (consume_event ops w i ev inp)) = length (source inp) \<and>
   fd (source (consume_event ops w i ev inp) ! k) = fd (source inp ! k)"
  by (cases "i < length (source inp)")
    (auto simp: consume_event_def Let_def resync_after_desync_def process_key_event_def
      enqueue_action_def nth_list_update list_update_beyond split: option.split)

lemma consume_all_frame:
  "partial (consume_all ops w i evs inp) = partial inp \<and>
   length (source (consume_all ops w i evs inp)) = length (source inp) \<and>
   fd (source (consume_all ops w i evs inp) ! k) = fd (source inp ! k)"
  unfolding consume_all_def by (induction evs arbitrary: inp) (simp_all add: consume_frame)

text \<open>
  The devices' side: from state \<open>w\<close> the reads of descriptor \<open>f\<close> deliver the chunks, possibly
  interrupted, until none is left, ending in state \<open>w'\<close>. The buffer always has room for at least
  241 bytes when it is read.
\<close>

inductive delivers :: "'w cart_input_ops \<Rightarrow> int \<Rightarrow> 'w \<Rightarrow> u8 list list \<Rightarrow> 'w \<Rightarrow> bool" where
  none_left: "(\<And>n. 241 \<le> n \<Longrightarrow> n \<le> 256 \<Longrightarrow> op_read ops f n w = (Fail EAGAIN, w')) \<Longrightarrow> delivers ops f w [] w'"
| chunk: "(\<And>n. 241 \<le> n \<Longrightarrow> n \<le> 256 \<Longrightarrow> op_read ops f n w = (Got c, w1)) \<Longrightarrow> length c \<le> 241 \<Longrightarrow>
    delivers ops f w1 cs w' \<Longrightarrow> delivers ops f w (c # cs) w'"
| interrupted: "(\<And>n. 241 \<le> n \<Longrightarrow> n \<le> 256 \<Longrightarrow> op_read ops f n w = (Fail EINTR, w1)) \<Longrightarrow>
    delivers ops f w1 cs w' \<Longrightarrow> delivers ops f w cs w'"

text \<open>The queries of a device answer the same while its events are read.\<close>

definition steady :: "'w cart_input_ops \<Rightarrow> bool" where
  "steady ops \<longleftrightarrow> (\<forall>f n w w'. ioctl_key_state ops f n w = ioctl_key_state ops f n w' \<and>
     ioctl_abs ops f n w = ioctl_abs ops f n w')"

lemma steady_resync: "steady ops \<Longrightarrow> resync_axes ops w slots s = resync_axes ops w' slots s"
proof (induction slots arbitrary: s)
  case (Cons slot slots)
  have "ioctl_abs ops (fd s) (AXIS_CODES ! slot) w = ioctl_abs ops (fd s) (AXIS_CODES ! slot) w'"
    using Cons.prems by (simp add: steady_def)
  with Cons show ?case by simp
qed simp

lemma steady_consume:
  assumes "steady ops"
  shows "consume_event ops w i = consume_event ops w' i"
proof -
  have "resync_source ops w s = resync_source ops w' s" for s
    using assms steady_resync [OF assms, of w _ _ w']
    unfolding resync_source_def steady_def by (metis (no_types, lifting))
  then have "resync_source ops w = resync_source ops w'" by (rule ext)
  then have "resync_after_desync ops w = resync_after_desync ops w'"
    by (intro ext) (simp add: resync_after_desync_def)
  then show ?thesis by (intro ext) (simp only: consume_event_def)
qed

lemma steady_consume_all: "steady ops \<Longrightarrow> consume_all ops w i = consume_all ops w' i"
  unfolding consume_all_def using steady_consume [of ops w i w'] by simp

lemma drain_slot_ok:
  assumes "i < length (partial inp)" "part_ok (partial inp ! i)"
  shows "\<exists>p'. drain_slot ops w i inp =
      (consume_all ops w i (events_of (part_bytes (partial inp ! i))) inp)\<lparr>partial := (partial inp)[i := p']\<rparr> \<and>
    part_ok p' \<and> part_bytes p' = rest_of (part_bytes (partial inp ! i))"
  using drain_ok [OF assms(2), of ops w i inp]
  by (auto simp: drain_slot_def consume_all_frame split: prod.splits)

text \<open>The partial buffers do not influence the events.\<close>

lemma consume_partial:
  "consume_event ops w i ev (inp\<lparr>partial := ps\<rparr>) = (consume_event ops w i ev inp)\<lparr>partial := ps\<rparr>"
  by (simp add: consume_event_def Let_def resync_after_desync_def process_key_event_def
      enqueue_action_def split: option.split)

lemma consume_all_partial:
  "consume_all ops w i evs (inp\<lparr>partial := ps\<rparr>) = (consume_all ops w i evs inp)\<lparr>partial := ps\<rparr>"
  unfolding consume_all_def by (induction evs arbitrary: inp) (simp_all add: consume_partial)

lemma consume_all_append:
  "consume_all ops w i (xs @ ys) inp = consume_all ops w i ys (consume_all ops w i xs inp)"
  by (simp add: consume_all_def)

lemma drained:
  assumes "i < length (partial inp)" "part_ok (partial inp ! i)" "steady ops"
  obtains p where
    "drain_slot ops w i inp =
      (consume_all ops w0 i (events_of (part_bytes (partial inp ! i))) inp)\<lparr>partial := (partial inp)[i := p]\<rparr>"
    "part_ok p" "part_bytes p = rest_of (part_bytes (partial inp ! i))" "part_len p < 16"
    "partial (drain_slot ops w i inp) ! i = p"
    "fd (source (drain_slot ops w i inp) ! i) = fd (source inp ! i)"
proof -
  obtain p where p: "drain_slot ops w i inp =
      (consume_all ops w i (events_of (part_bytes (partial inp ! i))) inp)\<lparr>partial := (partial inp)[i := p]\<rparr>"
    "part_ok p" "part_bytes p = rest_of (part_bytes (partial inp ! i))"
    using drain_slot_ok [OF assms(1,2), of ops w] by blast
  have "part_len p < 16" using p(2,3) rest_short [of "part_bytes (partial inp ! i)"]
    by (metis length_part_bytes)
  moreover have "consume_all ops w i = consume_all ops w0 i" by (rule steady_consume_all [OF assms(3)])
  ultimately show thesis using p assms(1) by (intro that [of p]) (simp_all add: consume_all_frame)
qed

text \<open>Consuming what is left of a stream after its complete events have been consumed.\<close>

lemma stream_resume:
  "(consume_all ops w i (events_of (rest_of B @ C))
      ((consume_all ops w i (events_of B) inp)\<lparr>partial := ps\<rparr>))\<lparr>partial := qs\<rparr> =
   (consume_all ops w i (events_of (B @ C)) inp)\<lparr>partial := qs\<rparr>"
  unfolding consume_all_partial stream_append(1) [of B] consume_all_append by simp

definition pumps_to ::
    "'w cart_input_ops \<Rightarrow> 'w \<Rightarrow> nat \<Rightarrow> cart_input \<Rightarrow> 'w \<Rightarrow> u8 list \<Rightarrow> 'w \<Rightarrow> bool" where
  "pumps_to ops w0 i inp w stream w' \<longleftrightarrow> (\<exists>fuel p. (\<forall>k \<ge> fuel. pump_source k ops i inp w = Some
      ((consume_all ops w0 i (events_of stream) inp)\<lparr>partial := (partial inp)[i := p]\<rparr>, w')) \<and>
    part_ok p \<and> part_bytes p = rest_of stream)"

lemma pumps_toI:
  assumes step: "\<And>k. pump_source (Suc k) ops i inp w = pump_source k ops i inp2 w1"
    and nxt: "pumps_to ops w0 i inp2 w1 (rest_of B @ C) w'"
    and inp2: "inp2 = (consume_all ops w0 i (events_of B) inp)\<lparr>partial := (partial inp)[i := q]\<rparr>"
  shows "pumps_to ops w0 i inp w (B @ C) w'"
proof -
  from nxt obtain fuel p where
    f: "\<And>k. fuel \<le> k \<Longrightarrow> pump_source k ops i inp2 w1 = Some
      ((consume_all ops w0 i (events_of (rest_of B @ C)) inp2)\<lparr>partial := (partial inp2)[i := p]\<rparr>, w')"
    and p: "part_ok p" "part_bytes p = rest_of (rest_of B @ C)"
    unfolding pumps_to_def by blast
  have "(consume_all ops w0 i (events_of (rest_of B @ C)) inp2)\<lparr>partial := (partial inp2)[i := p]\<rparr> =
      (consume_all ops w0 i (events_of (B @ C)) inp)\<lparr>partial := (partial inp)[i := p]\<rparr>"
    unfolding inp2 stream_resume by simp
  then have "\<forall>k \<ge> Suc fuel. pump_source k ops i inp w = Some
      ((consume_all ops w0 i (events_of (B @ C)) inp)\<lparr>partial := (partial inp)[i := p]\<rparr>, w')"
    using f step by (metis Suc_le_D Suc_le_mono)
  then show ?thesis unfolding pumps_to_def using p stream_append(2) [of B C] by metis
qed

lemma pump_stream:
  assumes "delivers ops f w chunks w'" "steady ops" "i < length (partial inp)" "part_ok (partial inp ! i)"
    "fd (source inp ! i) = f"
  shows "pumps_to ops w0 i inp w (part_bytes (partial inp ! i) @ concat chunks) w'"
  using assms
proof (induction arbitrary: inp rule: delivers.induct)
  case (none_left ops f w w')
  obtain p where p: "drain_slot ops w i inp =
      (consume_all ops w0 i (events_of (part_bytes (partial inp ! i))) inp)\<lparr>partial := (partial inp)[i := p]\<rparr>"
    "part_ok p" "part_bytes p = rest_of (part_bytes (partial inp ! i))" "part_len p < 16"
    "partial (drain_slot ops w i inp) ! i = p" "fd (source (drain_slot ops w i inp) ! i) = fd (source inp ! i)"
    by (rule drained [OF none_left.prems(2,3,1)])
  have "op_read ops f (256 - part_len p) w = (Fail EAGAIN, w')" using p(4) by (intro none_left.hyps) auto
  then have "pump_source (Suc k) ops i inp w = Some (drain_slot ops w i inp, w')" for k
    using p(5,6) none_left.prems(4) by (simp add: Let_def EAGAIN_def EINTR_def)
  then have "\<forall>k \<ge> 1. pump_source k ops i inp w = Some (drain_slot ops w i inp, w')"
    by (metis One_nat_def Suc_le_D)
  then show ?case unfolding pumps_to_def concat.simps append_Nil2 p(1) using p(2,3) by blast
next
  case (chunk ops f w c w1 cs w')
  let ?B = "part_bytes (partial inp ! i)"
  obtain p where p: "drain_slot ops w i inp =
      (consume_all ops w0 i (events_of ?B) inp)\<lparr>partial := (partial inp)[i := p]\<rparr>"
    "part_ok p" "part_bytes p = rest_of ?B" "part_len p < 16"
    "partial (drain_slot ops w i inp) ! i = p" "fd (source (drain_slot ops w i inp) ! i) = fd (source inp ! i)"
    by (rule drained [OF chunk.prems(2,3,1)])
  let ?inp2 = "(consume_all ops w0 i (events_of ?B) inp)\<lparr>partial := (partial inp)[i := store_read c p]\<rparr>"
  have st: "part_ok (store_read c p)" "part_bytes (store_read c p) = rest_of ?B @ c"
    using store_read_ok [OF p(2), of c] p(3,4) chunk.hyps(2) by auto
  have "op_read ops f (256 - part_len p) w = (Got c, w1)" using p(4) by (intro chunk.hyps(1)) auto
  then have step: "pump_source (Suc k) ops i inp w = pump_source k ops i ?inp2 w1" for k
    using p(1,5,6) chunk.prems(4) by (simp add: Let_def)
  have "pumps_to ops w0 i ?inp2 w1 (part_bytes (partial ?inp2 ! i) @ concat cs) w'"
    using chunk.prems st by (intro chunk.IH) (auto simp: consume_all_frame)
  then have "pumps_to ops w0 i ?inp2 w1 (rest_of ?B @ concat (c # cs)) w'" using st chunk.prems(2) by simp
  from pumps_toI [OF step this refl] show ?case .
next
  case (interrupted ops f w w1 cs w')
  let ?B = "part_bytes (partial inp ! i)"
  obtain p where p: "drain_slot ops w i inp =
      (consume_all ops w0 i (events_of ?B) inp)\<lparr>partial := (partial inp)[i := p]\<rparr>"
    "part_ok p" "part_bytes p = rest_of ?B" "part_len p < 16"
    "partial (drain_slot ops w i inp) ! i = p" "fd (source (drain_slot ops w i inp) ! i) = fd (source inp ! i)"
    by (rule drained [OF interrupted.prems(2,3,1)])
  let ?inp2 = "(consume_all ops w0 i (events_of ?B) inp)\<lparr>partial := (partial inp)[i := p]\<rparr>"
  have "op_read ops f (256 - part_len p) w = (Fail EINTR, w1)" using p(4) by (intro interrupted.hyps(1)) auto
  then have step: "pump_source (Suc k) ops i inp w = pump_source k ops i ?inp2 w1" for k
    using p(1,5,6) interrupted.prems(4) by (simp add: Let_def)
  have "pumps_to ops w0 i ?inp2 w1 (part_bytes (partial ?inp2 ! i) @ concat cs) w'"
    using interrupted.prems p(2) by (intro interrupted.IH) (auto simp: consume_all_frame)
  then have "pumps_to ops w0 i ?inp2 w1 (rest_of ?B @ concat cs) w'" using p(3) interrupted.prems(2) by simp
  from pumps_toI [OF step this refl] show ?case .
qed


definition quiet_ops :: "nat cart_input_ops" where
  "quiet_ops = \<lparr>op_open = (\<lambda>p w. (- 1, w)), op_close = (\<lambda>f w. w),
     op_read = (\<lambda>f n w. if w = 0 then (Fail EAGAIN, 0) else (Got (replicate 20 1), w - 1)),
     ioctl_name = (\<lambda>f n w. (0, [])), ioctl_key_state = (\<lambda>f n w. None),
     ioctl_bit = (\<lambda>f k n w. None), ioctl_abs = (\<lambda>f a w. None)\<rparr>"

lemma quiet_delivers: "delivers quiet_ops f 2 [replicate 20 1, replicate 20 1] 0"
  by (intro delivers.intros) (auto simp: quiet_ops_def)


section \<open>Dropped events\<close>

definition no_report :: "input_event list \<Rightarrow> bool" where
  "no_report evs \<longleftrightarrow> (\<forall>ev\<in>set evs. \<not> (ev_type ev = EV_SYN \<and> ev_code ev = SYN_REPORT))"

lemma desync_ignores:
  assumes "src_state (source inp ! i) = CART_INPUT_DESYNC" "no_report evs"
  shows "consume_all ops w i evs inp = inp"
  using assms(2) unfolding consume_all_def no_report_def
proof (induction evs)
  case (Cons ev evs)
  then have "consume_event ops w i ev inp = inp"
    using assms(1) by (auto simp: consume_event_def Let_def split: option.split)
  with Cons show ?case by simp
qed simp



section \<open>The poll skips desynchronised sources\<close>

lemma consume_other:
  "k \<noteq> i \<Longrightarrow> source (consume_event ops w i ev inp) ! k = source inp ! k"
  by (auto simp: consume_event_def Let_def resync_after_desync_def process_key_event_def
      enqueue_action_def split: option.split)

lemma consume_all_other: "k \<noteq> i \<Longrightarrow> source (consume_all ops w i evs inp) ! k = source inp ! k"
  unfolding consume_all_def by (induction evs arbitrary: inp) (simp_all add: consume_other)

lemma drain_state:
  "\<exists>evs. snd (drain ops w i p inp) = consume_all ops w i evs inp"
proof (induction ops w i p inp rule: drain.induct)
  case (1 ops w i p inp)
  show ?case
  proof (cases "16 \<le> part_len p")
    case True
    let ?b = "fst (take_event p)" and ?p = "snd (take_event p)"
    from "1.IH" [OF True, of ?b ?p] obtain evs where
      "snd (drain ops w i ?p (consume_event ops w i (decode_event ?b) inp)) =
        consume_all ops w i evs (consume_event ops w i (decode_event ?b) inp)" by auto
    then have "snd (drain ops w i p inp) = consume_all ops w i (decode_event ?b # evs) inp"
      using True by (subst drain.simps) (simp add: consume_all_def case_prod_beta)
    then show ?thesis by blast
  next
    case False
    then show ?thesis by (intro exI [of _ "[]"]) (simp add: drain.simps consume_all_def)
  qed
qed

lemma drain_slot_frame:
  obtains evs p where "drain_slot ops w i inp = (consume_all ops w i evs inp)\<lparr>partial := (partial inp)[i := p]\<rparr>"
proof -
  obtain evs where "snd (drain ops w i (partial inp ! i) inp) = consume_all ops w i evs inp"
    using drain_state [of ops w i "partial inp ! i" inp] by blast
  then have "drain_slot ops w i inp =
      (consume_all ops w i evs inp)\<lparr>partial := (partial inp)[i := fst (drain ops w i (partial inp ! i) inp)]\<rparr>"
    by (simp add: drain_slot_def case_prod_beta consume_all_frame)
  then show thesis by (rule that)
qed

text \<open>One iteration of the pump changes only its own slot; so does the whole pump.\<close>

lemma drain_slot_other:
  "k \<noteq> i \<Longrightarrow> source (drain_slot ops w i inp) ! k = source inp ! k \<and> partial (drain_slot ops w i inp) ! k = partial inp ! k"
  by (rule drain_slot_frame [of ops w i inp]) (simp add: consume_all_other)

lemma disconnect_other:
  "k \<noteq> i \<Longrightarrow> handle_disconnect ops i inp w = (inp', w') \<Longrightarrow>
   source inp' ! k = source inp ! k \<and> partial inp' ! k = partial inp ! k"
  by (auto simp: handle_disconnect_def Let_def)

lemma pump_cases:
  assumes "pump_source (Suc fuel) ops i inp w = Some (inp', w')"
  obtains bs w1 where "op_read ops (fd (source (drain_slot ops w i inp) ! i)) (256 - part_len (partial (drain_slot ops w i inp) ! i)) w = (Got bs, w1)"
      "pump_source fuel ops i ((drain_slot ops w i inp)\<lparr>partial := (partial (drain_slot ops w i inp))[i := store_read bs (partial (drain_slot ops w i inp) ! i)]\<rparr>) w1 = Some (inp', w')"
    | e w1 where "op_read ops (fd (source (drain_slot ops w i inp) ! i)) (256 - part_len (partial (drain_slot ops w i inp) ! i)) w = (e, w1)"
      "handle_disconnect ops i (drain_slot ops w i inp) w1 = (inp', w')"
    | w1 where "op_read ops (fd (source (drain_slot ops w i inp) ! i)) (256 - part_len (partial (drain_slot ops w i inp) ! i)) w = (Fail EINTR, w1)"
      "pump_source fuel ops i (drain_slot ops w i inp) w1 = Some (inp', w')"
    | "op_read ops (fd (source (drain_slot ops w i inp) ! i)) (256 - part_len (partial (drain_slot ops w i inp) ! i)) w = (Fail EAGAIN, w')"
      "inp' = drain_slot ops w i inp"
  using assms by (auto simp: Let_def split: prod.splits read_result.splits if_splits)

lemma pump_other:
  "pump_source fuel ops i inp w = Some (inp', w') \<Longrightarrow> k \<noteq> i \<Longrightarrow>
   source inp' ! k = source inp ! k \<and> partial inp' ! k = partial inp ! k"
proof (induction fuel arbitrary: inp w)
  case (Suc fuel)
  note d = drain_slot_other [OF Suc.prems(2), of ops w inp]
  from Suc.prems(1) show ?case
  proof (cases rule: pump_cases)
    case (1 bs w1)
    from Suc.IH [OF 1(2) Suc.prems(2)] Suc.prems(2) d show ?thesis by simp
  next
    case (2 e w1)
    from disconnect_other [OF Suc.prems(2) 2(2)] d show ?thesis by simp
  next
    case (3 w1)
    from Suc.IH [OF 3(2) Suc.prems(2)] d show ?thesis by simp
  next
    case 4
    with d show ?thesis by simp
  qed
qed simp

lemma poll_sources_desync:
  "poll_sources fuel ops is inp w = Some (inp', w') \<Longrightarrow> src_state (source inp ! k) = CART_INPUT_DESYNC \<Longrightarrow>
   source inp' ! k = source inp ! k \<and> partial inp' ! k = partial inp ! k"
proof (induction "is" arbitrary: inp w)
  case (Cons i "is")
  show ?case
  proof (cases "fd (source inp ! i) < 0 \<or> src_state (source inp ! i) = CART_INPUT_DESYNC")
    case True
    with Cons show ?thesis by simp
  next
    case False
    then have k: "k \<noteq> i" using Cons.prems(2) by auto
    from Cons.prems(1) False obtain inp1 w1 where
      r: "pump_source fuel ops i inp w = Some (inp1, w1)" "poll_sources fuel ops is inp1 w1 = Some (inp', w')"
      by (auto split: bind_splits)
    from pump_other [OF r(1) k] Cons.IH [OF r(2)] Cons.prems(2) show ?thesis by simp
  qed
qed simp

text \<open>
  Claim C36. A source that is left desynchronised at the end of a poll is never read again: every
  later poll leaves it, its key state and its partial buffer exactly as they are, whatever the
  device has to say, so the SYN_REPORT that would reconnect it is never seen.
\<close>

theorem desync_never_recovers:
  assumes "cart_input_poll fuel ops n want_frame (Some inp) w = Some (status, action, fr, Some inp', w')"
    and "src_state (source inp ! i) = CART_INPUT_DESYNC"
  shows "source inp' ! i = source inp ! i \<and> partial inp' ! i = partial inp ! i"
proof (cases n)
  case False
  with assms(1) obtain a where "poll_body fuel ops want_frame inp w = Some (a, fr, inp', w')"
    by (auto simp: cart_input_poll_def split: option.splits)
  then obtain inp1 w1 where "poll_sources fuel ops [0..<4] inp w = Some (inp1, w1)"
    "source inp' = source inp1" "partial inp' = partial inp1"
    by (auto simp: poll_body_def Let_def split: bind_splits prod.splits if_splits)
  with poll_sources_desync [OF _ assms(2)] show ?thesis by metis
qed (use assms(1) in \<open>simp add: cart_input_poll_def\<close>)

theorem desync_never_recovers_witness:
  "\<exists>inp' w'. cart_input_poll 1 quiet_ops False False
       (Some (upd_source 0 (\<lambda>s. s\<lparr>fd := 7, src_state := CART_INPUT_DESYNC\<rparr>) zero_input)) 5
     = Some (0, Some CART_INPUT_NONE, None, Some inp', w') \<and> src_state (source inp' ! 0) = CART_INPUT_DESYNC"
proof -
  let ?inp = "upd_source 0 (\<lambda>s. s\<lparr>fd := 7, src_state := CART_INPUT_DESYNC\<rparr>) zero_input"
  have "poll_sources 1 quiet_ops [0..<4] ?inp 5 = Some (?inp, 5)"
    by (simp add: upt_rec numeral_eq_Suc zero_input_def reset_source_def)
  then have r: "cart_input_poll 1 quiet_ops False False (Some ?inp) 5 =
      Some (0, Some CART_INPUT_NONE, None, Some ?inp, 5)"
    by (simp add: cart_input_poll_def poll_body_def pop_pending_def zero_input_def)
  have d: "src_state (source ?inp ! 0) = CART_INPUT_DESYNC" by (simp add: zero_input_def)
  from desync_never_recovers [OF r d] r d show ?thesis by metis
qed

end
