(* ===== verification/Input_Session.thy ===== *)
theory Input_Session
  imports Input_Poll
begin

text \<open>
  Input devices, third part: what holds over a whole session of \<^verbatim>\<open>cart/src/input_evdev.c\<close>. A
  session is an initialisation followed by any polls, rescans and shutdowns. The invariant of the
  input structure (array lengths, the descriptor of a slot against its state, calibrated axes, a
  well-formed queue and read buffers) holds throughout, so the merged frame is always defined;
  the descriptors a session opened are the ones its slots hold.
\<close>

section \<open>Well-formed input\<close>

definition axis_ok :: "cart_input_axis_range \<Rightarrow> bool" where
  "axis_ok r \<longleftrightarrow> in_i32 (ar_min r) \<and> in_i32 (ar_max r) \<and> ar_max r - ar_min r \<le> INT_MAX \<and>
     15 \<le> deadzone_pct r \<and> deadzone_pct r \<le> 50"

definition calibrated :: "cart_input_source \<Rightarrow> bool" where
  "calibrated s \<longleftrightarrow> length (src_axis s) = 8 \<and> length (axis_valid s) = 8 \<and> length (last_raw s) = 8 \<and>
     (\<forall>slot < 8. axis_valid s ! slot \<longrightarrow> axis_ok (src_axis s ! slot))"

definition source_ok :: "cart_input_source \<Rightarrow> bool" where
  "source_ok s \<longleftrightarrow> calibrated s \<and> (src_state s = CART_INPUT_ABSENT \<longleftrightarrow> fd s < 0)"

definition input_ok :: "cart_input \<Rightarrow> bool" where
  "input_ok inp \<longleftrightarrow> length (source inp) = 4 \<and> length (partial inp) = 4 \<and>
     (\<forall>s\<in>set (source inp). source_ok s) \<and> (\<forall>p\<in>set (partial inp). part_ok p) \<and> queue_ok (pending inp)"

text \<open>
  What the devices promise: descriptors are allocated and freed, a read returns no more than it
  was asked for, and the limits of an axis are 32-bit values.
\<close>

definition device_ops :: "'w cart_input_ops \<Rightarrow> ('w \<Rightarrow> int set) \<Rightarrow> bool" where
  "device_ops ops opened \<longleftrightarrow> fd_ops ops opened \<and>
     (\<forall>f n w bs w'. op_read ops f n w = (Got bs, w') \<longrightarrow> length bs \<le> n) \<and>
     (\<forall>f a w info. ioctl_abs ops f a w = Some info \<longrightarrow> in_i32 (minimum info) \<and> in_i32 (maximum info))"

lemma deadzone_range:
  "axis_deadzone info = Some pct \<Longrightarrow> maximum info - minimum info \<le> INT_MAX \<and> 15 \<le> pct \<and> pct \<le> 50"
  by (auto simp: axis_deadzone_def i32_def in_i32_def Let_def split: if_splits bind_splits)

lemma calibrated_update [simp]:
  "calibrated (s\<lparr>held_keys := k\<rparr>) = calibrated s" "calibrated (s\<lparr>src_name := n\<rparr>) = calibrated s"
  "calibrated (s\<lparr>src_node := n\<rparr>) = calibrated s" "calibrated (s\<lparr>fd := f\<rparr>) = calibrated s"
  "calibrated (s\<lparr>src_state := st\<rparr>) = calibrated s" "calibrated (s\<lparr>src_generation := g\<rparr>) = calibrated s"
  by (simp_all add: calibrated_def)

lemma calibrated_raw [simp]:
  "calibrated (s\<lparr>last_raw := (last_raw s)[slot := v]\<rparr>) = calibrated s"
  "calibrated s \<Longrightarrow> calibrated (s\<lparr>last_raw := replicate 8 0\<rparr>)"
  by (simp_all add: calibrated_def)

lemma calibrated_drop: "calibrated s \<Longrightarrow> calibrated (s\<lparr>axis_valid := (axis_valid s)[slot := False]\<rparr>)"
  unfolding calibrated_def by (cases "slot < 8") (auto simp: nth_list_update split: if_splits)

lemma calibrated_set:
  "calibrated s \<Longrightarrow> axis_ok r \<Longrightarrow>
   calibrated (s\<lparr>src_axis := (src_axis s)[slot := r], axis_valid := (axis_valid s)[slot := True],
     last_raw := (last_raw s)[slot := v]\<rparr>)"
  unfolding calibrated_def by (cases "slot < 8") (auto simp: nth_list_update list_update_beyond)

lemma snapshot_axis_calibrated:
  assumes "device_ops ops opened" "calibrated s" "snapshot_axis ops f w bits slot s = Some s'"
  shows "calibrated s'"
proof (cases "bit_test bits (AXIS_CODES ! slot) \<and> ioctl_abs ops f (AXIS_CODES ! slot) w \<noteq> None")
  case False
  with assms(2,3) show ?thesis
    by (auto simp: snapshot_axis_def calibrated_drop split: if_splits)
next
  case True
  then obtain info where i: "ioctl_abs ops f (AXIS_CODES ! slot) w = Some info" by auto
  then have "in_i32 (minimum info)" "in_i32 (maximum info)" using assms(1) by (auto simp: device_ops_def)
  then have "axis_ok \<lparr>ar_min = minimum info, ar_max = maximum info, deadzone_pct = pct\<rparr>"
    if "axis_deadzone info = Some pct" for pct
    using deadzone_range [OF that] by (simp add: axis_ok_def)
  note ok = this
  from assms(3) True i obtain pct where z: "axis_deadzone info = Some pct"
    by (cases "axis_deadzone info") (simp_all add: snapshot_axis_def)
  with assms(3) True i have s': "s' = s\<lparr>src_axis := (src_axis s)[slot := \<lparr>ar_min = minimum info, ar_max = maximum info,
      deadzone_pct = pct\<rparr>], axis_valid := (axis_valid s)[slot := True], last_raw := (last_raw s)[slot := abs_value info]\<rparr>"
    by (simp add: snapshot_axis_def)
  show ?thesis unfolding s' by (rule calibrated_set [OF assms(2) ok [OF z]])
qed

lemma snapshot_slots_calibrated:
  "device_ops ops opened \<Longrightarrow> calibrated s \<Longrightarrow> snapshot_slots ops f w bits slots s = Some s' \<Longrightarrow> calibrated s'"
proof (induction slots arbitrary: s)
  case (Cons slot slots)
  from Cons.prems(3) obtain s1 where
    s1: "snapshot_axis ops f w bits slot s = Some s1" "snapshot_slots ops f w bits slots s1 = Some s'"
    by (auto split: bind_splits)
  show ?case by (rule Cons.IH [OF Cons.prems(1) snapshot_axis_calibrated [OF Cons.prems(1,2) s1(1)] s1(2)])
qed simp

lemma classify_calibrated:
  assumes "device_ops ops opened" "calibrated s" "classify_source s ops f rank w = Some (v, s')" "v \<noteq> 0"
  shows "calibrated s'"
proof -
  obtain nm where p: "probe_snapshot_axes (s\<lparr>src_name := nm\<rparr>) ops f w = Some s'"
    using assms(3,4) by (auto simp: classify_source_def Let_def split: prod.splits if_splits bind_splits)
  have c: "calibrated (s\<lparr>src_name := nm, held_keys := 0, last_raw := replicate 8 0\<rparr>)"
    using assms(2) calibrated_raw(2) [of "s\<lparr>src_name := nm, held_keys := 0\<rparr>"] by simp
  show ?thesis
  proof (cases "ioctl_bit ops f 3 8 w")
    case None
    with p c show ?thesis by (auto simp: probe_snapshot_axes_def calibrated_def)
  next
    case (Some bits)
    with p have "snapshot_slots ops f w bits [0..<8] (s\<lparr>src_name := nm, held_keys := 0, last_raw := replicate 8 0\<rparr>) = Some s'"
      by (simp add: probe_snapshot_axes_def)
    from snapshot_slots_calibrated [OF assms(1) c this] show ?thesis .
  qed
qed

lemma reset_calibrated: "calibrated reset_source" "calibrated (reset_source\<lparr>src_node := n\<rparr>)"
  by (auto simp: calibrated_def reset_source_def)

lemma examine_calibrated:
  assumes "device_ops ops opened" "examine_entry ops file uninit sys dev d w = Some (Some c, w')"
  shows "calibrated (prepared c) \<and> 0 \<le> cand_fd c"
proof -
  from assms(2) obtain rank f w1 v where
    "classify_source (reset_source\<lparr>src_node := d\<rparr>) ops f rank w1 = Some (v, prepared c)" "v \<noteq> 0"
    by (auto simp: examine_entry_def Let_def split: option.splits if_splits prod.splits bind_splits)
  from classify_calibrated [OF assms(1) reset_calibrated(2) this] examine_fd [OF assms(2)] show ?thesis by simp
qed

lemma scan_calibrated:
  "device_ops ops opened \<Longrightarrow> \<forall>c\<in>set cands. calibrated (prepared c) \<and> 0 \<le> cand_fd c \<Longrightarrow>
   scan_entries ops file uninit sys dev es cands w = Some (cands', w') \<Longrightarrow>
   \<forall>c\<in>set cands'. calibrated (prepared c) \<and> 0 \<le> cand_fd c"
proof (induction es arbitrary: cands w)
  case (Cons e es)
  show ?case
  proof (cases "length cands \<ge> 16")
    case False
    with Cons.prems(3) obtain c w1 where e: "examine_entry ops file uninit sys dev e w = Some (c, w1)"
      "scan_entries ops file uninit sys dev es (case c of None \<Rightarrow> cands | Some x \<Rightarrow> cands @ [x]) w1 = Some (cands', w')"
      by (auto split: bind_splits)
    have "\<forall>x\<in>set (case c of None \<Rightarrow> cands | Some x \<Rightarrow> cands @ [x]). calibrated (prepared x) \<and> 0 \<le> cand_fd x"
      using Cons.prems(2) e(1) examine_calibrated [OF Cons.prems(1)]
      by (cases c) auto
    from Cons.IH [OF Cons.prems(1) this e(2)] show ?thesis .
  qed (use Cons.prems in simp)
qed simp

section \<open>Every operation keeps the invariant\<close>

lemma input_okD:
  assumes "input_ok inp" "i < 4"
  shows "source_ok (source inp ! i)" "part_ok (partial inp ! i)" "i < length (source inp)" "i < length (partial inp)"
  using assms by (auto simp: input_ok_def)

lemma input_ok_source:
  "input_ok inp \<Longrightarrow> source_ok s \<Longrightarrow> input_ok (inp\<lparr>source := (source inp)[i := s]\<rparr>)"
  unfolding input_ok_def using set_update_subset_insert [of "source inp" i s] by auto

lemma input_ok_partial:
  "input_ok inp \<Longrightarrow> part_ok p \<Longrightarrow> input_ok (inp\<lparr>partial := (partial inp)[i := p]\<rparr>)"
  unfolding input_ok_def using set_update_subset_insert [of "partial inp" i p] by auto

lemma input_ok_pending: "input_ok inp \<Longrightarrow> queue_ok q \<Longrightarrow> input_ok (inp\<lparr>pending := q\<rparr>)"
  by (simp add: input_ok_def)

lemma zero_input_ok: "input_ok zero_input"
  using reset_calibrated(1)
  by (simp add: input_ok_def zero_input_def source_ok_def part_ok_def queue_ok_def reset_source_def)

lemma claim_all_ok:
  "\<forall>c\<in>set cs. calibrated (prepared c) \<and> 0 \<le> cand_fd c \<Longrightarrow> input_ok inp \<Longrightarrow>
   claim_all ops cs inp w = (n, cs', inp', w') \<Longrightarrow> input_ok inp'"
proof (induction cs arbitrary: inp w n cs')
  case (Cons c cs)
  have c: "source_ok ((prepared c)\<lparr>fd := cand_fd c, src_state := CART_INPUT_CONNECTED,
      src_generation := src_generation (prepared c) + 1\<rparr>)"
    using Cons.prems(1) by (simp add: source_ok_def)
  have cs: "\<forall>c\<in>set cs. calibrated (prepared c) \<and> 0 \<le> cand_fd c" using Cons.prems(1) by simp
  show ?case
  proof (cases "first_free_slot inp")
    case None
    with Cons.prems(3) obtain n1 cs1 where "claim_all ops cs inp (op_close ops (cand_fd c) w) = (n1, cs1, inp', w')"
      by (auto split: prod.splits)
    from Cons.IH [OF cs Cons.prems(2) this] show ?thesis .
  next
    case (Some i)
    with Cons.prems(3) obtain n1 cs1 where r: "claim_all ops cs (claim_slot c i inp) w = (n1, cs1, inp', w')"
      by (auto split: prod.splits)
    have "input_ok (claim_slot c i inp)"
      unfolding claim_slot_def by (rule input_ok_source [OF Cons.prems(2) c])
    from Cons.IH [OF cs this r] show ?thesis .
  qed
qed simp

lemma discover_ok:
  assumes "device_ops ops opened" "input_ok inp"
    and "discover_pass ops dir file uninit sys dev inp w = Some (n, inp', w')"
  shows "input_ok inp'"
proof (cases "dir sys")
  case (Inl e)
  with assms show ?thesis by (auto simp: discover_pass_def)
next
  case (Inr es)
  with assms(3) obtain cands w1 where s: "scan_entries ops file uninit sys dev es [] w = Some (cands, w1)"
    by (auto simp: discover_pass_def split: bind_splits)
  obtain m cs inp1 w2 where c: "claim_all ops (sort_key plan_key cands) inp w1 = (m, cs, inp1, w2)"
    by (metis prod_cases4)
  have "\<forall>c\<in>set (sort_key plan_key cands). calibrated (prepared c) \<and> 0 \<le> cand_fd c"
    using scan_calibrated [OF assms(1) _ s] by simp
  from claim_all_ok [OF this assms(2) c] assms(3) Inr s c show ?thesis
    by (auto simp: discover_pass_def plan_sorts)
qed

lemma resync_axes_calibrated: "calibrated (resync_axes ops w slots s) = calibrated s"
  by (induction slots arbitrary: s) (auto split: option.splits)

lemma resync_source_ok: "source_ok s \<Longrightarrow> source_ok (resync_source ops w s)"
  by (auto simp: source_ok_def resync_source_def resync_axes_frame resync_axes_calibrated split: option.split)

lemma input_ok_upd: "input_ok inp \<Longrightarrow> i < 4 \<Longrightarrow> (\<And>s. source_ok s \<Longrightarrow> source_ok (g s)) \<Longrightarrow> input_ok (upd_source i g inp)"
  by (intro input_ok_source) (auto intro: input_okD)

lemma key_ok: "input_ok inp \<Longrightarrow> i < 4 \<Longrightarrow> input_ok (process_key_event i code value inp)"
proof -
  assume a: "input_ok inp" "i < 4"
  have k: "input_ok (upd_source i (\<lambda>s. s\<lparr>held_keys := held_after code value (held_keys s)\<rparr>) inp)"
    using a by (rule input_ok_upd) (simp add: source_ok_def)
  then have "queue_ok (pending (upd_source i (\<lambda>s. s\<lparr>held_keys := held_after code value (held_keys s)\<rparr>) inp))"
    unfolding input_ok_def by blast
  from fifo.push_ok [OF this] k show ?thesis
    unfolding process_key_event_def enqueue_action_def Let_def by (auto intro!: input_ok_pending)
qed

lemma source_ok_state: "source_ok s \<Longrightarrow> src_state s \<noteq> CART_INPUT_ABSENT \<Longrightarrow> st \<noteq> CART_INPUT_ABSENT \<Longrightarrow>
  source_ok (s\<lparr>src_state := st\<rparr>)"
  by (simp add: source_ok_def)

lemma consume_ok:
  assumes ok: "input_ok inp" and i: "i < 4"
  shows "input_ok (consume_event ops w i ev inp)"
proof -
  let ?s = "source inp ! i"
  note s = input_okD [OF ok i]
  have 1: "input_ok (upd_source i (\<lambda>s. s\<lparr>src_state := CART_INPUT_DESYNC\<rparr>) inp)" if "src_state ?s = CART_INPUT_CONNECTED"
    using that s(1) by (intro input_ok_source [OF ok] source_ok_state) auto
  have 2: "input_ok (upd_source i (\<lambda>s. s\<lparr>src_state := CART_INPUT_CONNECTED\<rparr>) (resync_after_desync ops w i inp))"
    if "src_state ?s = CART_INPUT_DESYNC"
  proof -
    have r: "input_ok (resync_after_desync ops w i inp)"
      unfolding resync_after_desync_def by (rule input_ok_source [OF ok resync_source_ok [OF s(1)]])
    have "src_state (resync_source ops w ?s) = CART_INPUT_DESYNC"
      using that by (simp add: resync_source_def resync_axes_frame split: option.split)
    then have "source_ok ((source (resync_after_desync ops w i inp) ! i)\<lparr>src_state := CART_INPUT_CONNECTED\<rparr>)"
      using s(3) source_ok_state [OF resync_source_ok [OF s(1)], of ops w CART_INPUT_CONNECTED]
      by (simp add: resync_after_desync_def)
    from input_ok_source [OF r this] show ?thesis .
  qed
  have 3: "input_ok (upd_source i (\<lambda>s. s\<lparr>last_raw := (last_raw s)[slot := v]\<rparr>) inp)" for slot v
    using ok i by (rule input_ok_upd) (simp add: source_ok_def)
  show ?thesis
    using 1 2 3 ok key_ok [OF ok i] by (simp add: consume_event_def Let_def split: option.split)
qed

lemma consume_all_ok: "input_ok inp \<Longrightarrow> i < 4 \<Longrightarrow> input_ok (consume_all ops w i evs inp)"
  unfolding consume_all_def by (induction evs arbitrary: inp) (simp_all add: consume_ok)

lemma drain_slot_keeps:
  assumes ok: "input_ok inp" and i: "i < 4"
  shows "input_ok (drain_slot ops w i inp)" "map fd (source (drain_slot ops w i inp)) = map fd (source inp)"
    "part_len (partial (drain_slot ops w i inp) ! i) \<le> 256"
proof -
  note s = input_okD [OF ok i]
  from drain_slot_ok [OF s(4,2), of ops w] obtain p evs where
    d: "drain_slot ops w i inp = (consume_all ops w i evs inp)\<lparr>partial := (partial inp)[i := p]\<rparr>" "part_ok p" by blast
  show "input_ok (drain_slot ops w i inp)"
    using d input_ok_partial [OF consume_all_ok [OF ok i] d(2), of ops w evs i]
    by (simp add: consume_all_frame)
  show "map fd (source (drain_slot ops w i inp)) = map fd (source inp)"
    unfolding d(1) by (rule nth_equalityI) (simp_all add: consume_all_frame)
  show "part_len (partial (drain_slot ops w i inp) ! i) \<le> 256"
    using d s(4) by (simp add: part_ok_def)
qed

text \<open>What a whole pump keeps: the invariant and the ownership of descriptors.\<close>

definition sound :: "('w \<Rightarrow> int set) \<Rightarrow> int set \<Rightarrow> cart_input \<Rightarrow> 'w \<Rightarrow> bool" where
  "sound opened B inp w \<longleftrightarrow> input_ok inp \<and> owned opened B (slot_fds inp) w"

lemma owned_read:
  "device_ops ops opened \<Longrightarrow> op_read ops f n w = (r, w') \<Longrightarrow> owned opened B fs w \<Longrightarrow> owned opened B fs w'"
proof -
  assume a: "device_ops ops opened" "op_read ops f n w = (r, w')" "owned opened B fs w"
  then have "opened w' = opened w" unfolding device_ops_def fd_ops_def by blast
  with a(3) show ?thesis by (simp add: owned_def)
qed

lemma disconnect_sound:
  assumes ops: "device_ops ops opened" and s: "sound opened B inp w" and i: "i < 4"
    and d: "handle_disconnect ops i inp w = (inp', w')"
  shows "sound opened B inp' w'"
proof -
  let ?s = "source inp ! i"
  let ?t = "?s\<lparr>fd := - 1, src_state := CART_INPUT_ABSENT, src_generation := src_generation ?s + 1,
      last_raw := replicate 8 0, held_keys := 0\<rparr>"
  have ok: "input_ok inp" and own: "owned opened B (slot_fds inp) w" using s by (auto simp: sound_def)
  note k = input_okD [OF ok i]
  have inp': "inp' = inp\<lparr>source := (source inp)[i := ?t], partial := (partial inp)[i := (partial inp ! i)\<lparr>part_len := 0\<rparr>]\<rparr>"
    and w': "w' = (if 0 \<le> fd ?s then op_close ops (fd ?s) w else w)"
    using d by (auto simp: handle_disconnect_def Let_def)
  have "calibrated ?t" using k(1) calibrated_raw(2) [of ?s] by (simp add: source_ok_def)
  then have "source_ok ?t" by (simp add: source_ok_def)
  moreover have "part_ok ((partial inp ! i)\<lparr>part_len := 0\<rparr>)" using k(2) by (simp add: part_ok_def)
  ultimately have "input_ok inp'"
    using input_ok_partial [OF input_ok_source [OF ok], of ?t] unfolding inp' by auto
  moreover have m: "mset (slot_fds inp') = mset (slot_fds inp) - (if 0 \<le> fd ?s then {#fd ?s#} else {#})"
    using mset_slot_update [OF k(3), of ?t] by (simp add: inp' slot_fds_def)
  have "owned opened B (slot_fds inp') w'"
  proof (cases "0 \<le> fd ?s")
    case True
    then have "fd ?s \<in># mset (slot_fds inp)" using k(3) by (auto simp: slot_fds_def)
    then have "mset (slot_fds inp) = mset (fd ?s # slot_fds inp')" using m True by simp
    from owned_permI [OF own this] owned_close True ops show ?thesis by (auto simp: w' device_ops_def)
  next
    case False
    with m w' own show ?thesis by (auto intro: owned_permI)
  qed
  ultimately show ?thesis by (simp add: sound_def)
qed

lemma drain_sound: "sound opened B inp w \<Longrightarrow> i < 4 \<Longrightarrow> sound opened B (drain_slot ops w' i inp) w"
  unfolding sound_def slot_fds_def using drain_slot_keeps(1,2) by metis

lemma pump_sound:
  "device_ops ops opened \<Longrightarrow> sound opened B inp w \<Longrightarrow> i < 4 \<Longrightarrow>
   pump_source fuel ops i inp w = Some (inp', w') \<Longrightarrow> sound opened B inp' w'"
proof (induction fuel arbitrary: inp w)
  case (Suc fuel)
  let ?d = "drain_slot ops w i inp"
  have d: "sound opened B ?d w" by (rule drain_sound [OF Suc.prems(2,3)])
  then have ok: "input_ok ?d" and own: "owned opened B (slot_fds ?d) w" by (auto simp: sound_def)
  note p = input_okD [OF ok Suc.prems(3)]
  have r: "sound opened B ?d w1" if "op_read ops f n w = (e, w1)" for f n e w1
    using that ok owned_read [OF Suc.prems(1) that own] by (simp add: sound_def)
  from Suc.prems(4) show ?case
  proof (cases rule: pump_cases)
    case (1 bs w1)
    then have "length bs \<le> 256 - part_len (partial ?d ! i)" using Suc.prems(1) unfolding device_ops_def by blast
    then have st: "part_ok (store_read bs (partial ?d ! i))"
      using store_read_ok [OF p(2), of bs] drain_slot_keeps(3) [OF _ Suc.prems(3), of inp ops w] Suc.prems(2)
      by (simp add: sound_def)
    have "sound opened B (?d\<lparr>partial := (partial ?d)[i := store_read bs (partial ?d ! i)]\<rparr>) w1"
      using r [OF 1(1)] input_ok_partial [OF ok st] by (simp add: sound_def slot_fds_def)
    from Suc.IH [OF Suc.prems(1) this Suc.prems(3) 1(2)] show ?thesis .
  next
    case (2 e w1)
    from disconnect_sound [OF Suc.prems(1) r [OF 2(1)] Suc.prems(3) 2(2)] show ?thesis .
  next
    case (3 w1)
    from Suc.IH [OF Suc.prems(1) r [OF 3(1)] Suc.prems(3) 3(2)] show ?thesis .
  next
    case 4
    from r [OF 4(1)] 4(2) show ?thesis by simp
  qed
qed simp

lemma poll_sources_sound:
  "device_ops ops opened \<Longrightarrow> sound opened B inp w \<Longrightarrow> \<forall>i\<in>set is. i < 4 \<Longrightarrow>
   poll_sources fuel ops is inp w = Some (inp', w') \<Longrightarrow> sound opened B inp' w'"
proof (induction "is" arbitrary: inp w)
  case (Cons i "is")
  show ?case
  proof (cases "fd (source inp ! i) < 0 \<or> src_state (source inp ! i) = CART_INPUT_DESYNC")
    case True
    with Cons show ?thesis by simp
  next
    case False
    with Cons.prems(4) obtain inp1 w1 where r: "pump_source fuel ops i inp w = Some (inp1, w1)"
      "poll_sources fuel ops is inp1 w1 = Some (inp', w')" by (auto split: bind_splits)
    have "sound opened B inp1 w1" using pump_sound [OF Cons.prems(1,2) _ r(1)] Cons.prems(3) by simp
    from Cons.IH [OF Cons.prems(1) this _ r(2)] Cons.prems(3) show ?thesis by simp
  qed
qed simp

lemma pop_ok: "queue_ok q \<Longrightarrow> queue_ok (snd (pop_pending q))"
  by (cases "queue_actions q") (auto simp: fifo.pop_empty dest: fifo.pop_cons)

lemma poll_sound:
  assumes "device_ops ops opened" "sound opened B inp w"
    and "cart_input_poll fuel ops n want_frame (Some inp) w = Some (st, a, fr, Some inp', w')"
  shows "sound opened B inp' w'"
proof (cases n)
  case True
  with assms show ?thesis by (simp add: cart_input_poll_def)
next
  case False
  with assms(3) obtain act where "poll_body fuel ops want_frame inp w = Some (act, fr, inp', w')"
    by (auto simp: cart_input_poll_def split: option.splits)
  then obtain inp1 where r: "poll_sources fuel ops [0..<4] inp w = Some (inp1, w')"
    and inp': "inp' = inp1\<lparr>pending := snd (pop_pending (pending inp1))\<rparr>"
    by (auto simp: poll_body_def Let_def split: bind_splits prod.splits if_splits)
  have "sound opened B inp1 w'" by (rule poll_sources_sound [OF assms(1,2) _ r]) simp
  then show ?thesis
    using pop_ok [of "pending inp1"] by (auto simp: inp' sound_def input_ok_def slot_fds_def)
qed

section \<open>The merged frame\<close>

definition plugged :: "cart_input_source \<Rightarrow> bool" where
  "plugged s \<longleftrightarrow> src_state s \<noteq> CART_INPUT_ABSENT"

text \<open>What a source has to say about an axis.\<close>

definition reading :: "cart_input_source \<Rightarrow> nat \<Rightarrow> int option" where
  "reading s slot =
     (if plugged s \<and> axis_valid s ! slot \<and> axis_range_ok (src_axis s ! slot)
      then Some (axis_percent (src_axis s ! slot) (last_raw s ! slot)) else None)"

lemma reading_bounds: "reading s slot = Some v \<Longrightarrow> - 100 \<le> v \<and> v \<le> 100"
  by (auto simp: reading_def percent_bounds split: if_splits)

definition put_axis :: "nat \<Rightarrow> nat \<Rightarrow> int \<Rightarrow> cart_input_frame \<Rightarrow> cart_input_frame" where
  "put_axis i slot v fr = fr\<lparr>fr_axis := (fr_axis fr)[slot := v], axis_present := (axis_present fr)[slot := True],
     axis_owner := (axis_owner fr)[slot := i]\<rparr>"

lemma small_short: "- 100 \<le> v \<Longrightarrow> v \<le> 100 \<Longrightarrow> signed_take_bit 15 (v :: int) = v"
  by (simp add: signed_take_bit_int_eq_self_iff)

lemma frame_axis_eq:
  assumes "calibrated s" "slot < 8" "plugged s"
  shows "frame_axis i s slot fr =
    Some (case reading s slot of None \<Rightarrow> fr | Some v \<Rightarrow> if axis_present fr ! slot then fr else put_axis i slot v fr)"
proof (cases "axis_valid s ! slot")
  case False
  then show ?thesis by (simp add: frame_axis_def reading_def)
next
  case True
  let ?r = "src_axis s ! slot"
  have ok: "axis_ok ?r" using assms True by (simp add: calibrated_def)
  show ?thesis
  proof (cases "ar_min ?r < ar_max ?r")
    case lt: True
    then have r: "axis_range_ok ?r" using ok by (simp add: axis_ok_def axis_range_ok_def)
    have "cart_input_axis_normalize (last_raw s ! slot) (Some ?r) = Some (axis_percent ?r (last_raw s ! slot))"
      using ok by (simp add: normalize_eq [OF r] axis_ok_def)
    moreover note b = percent_bounds [OF r, of "last_raw s ! slot"]
    moreover have "axis_percent ?r (last_raw s ! slot) \<noteq> CART_INPUT_AXIS_INVALID" using b by auto
    ultimately show ?thesis
      using True assms(3) r by (simp add: frame_axis_def reading_def put_axis_def small_short)
  next
    case False
    then have "\<not> axis_range_ok ?r" by (simp add: axis_range_ok_def)
    moreover have "cart_input_axis_normalize (last_raw s ! slot) (Some ?r) = Some CART_INPUT_AXIS_INVALID"
      using False by (simp add: cart_input_axis_normalize_def)
    ultimately show ?thesis using True by (simp add: frame_axis_def reading_def)
  qed
qed

definition frame_shape :: "cart_input_frame \<Rightarrow> bool" where
  "frame_shape fr \<longleftrightarrow> length (fr_axis fr) = 8 \<and> length (axis_present fr) = 8 \<and> length (axis_owner fr) = 8"

text \<open>The owner of an axis among the first sources: the first of them with a reading.\<close>

definition owned_axis :: "cart_input_source list \<Rightarrow> cart_input_frame \<Rightarrow> nat \<Rightarrow> bool" where
  "owned_axis pre fr slot \<longleftrightarrow>
     (if axis_present fr ! slot
      then axis_owner fr ! slot < length pre \<and>
        reading (pre ! (axis_owner fr ! slot)) slot = Some (fr_axis fr ! slot) \<and>
        (\<forall>j < axis_owner fr ! slot. reading (pre ! j) slot = None)
      else fr_axis fr ! slot = 0 \<and> axis_owner fr ! slot = 4 \<and> (\<forall>j < length pre. reading (pre ! j) slot = None))"

lemma owned_axis_snoc:
  assumes "owned_axis pre fr slot" "frame_shape fr" "slot < 8"
  shows "owned_axis (pre @ [s])
    (case reading s slot of None \<Rightarrow> fr
     | Some v \<Rightarrow> if axis_present fr ! slot then fr else put_axis (length pre) slot v fr) slot"
  using assms
  by (auto simp: owned_axis_def frame_shape_def put_axis_def nth_append less_Suc_eq split: option.split if_splits)

lemma frame_axes_ok:
  assumes "calibrated s" "plugged s"
  shows "\<forall>slot\<in>set slots. slot < 8 \<Longrightarrow> distinct slots \<Longrightarrow> frame_shape fr \<Longrightarrow>
   \<forall>slot<8. owned_axis (if slot \<in> set slots then pre else pre @ [s]) fr slot \<Longrightarrow>
   \<exists>fr'. frame_axes (length pre) s slots fr = Some fr' \<and> frame_shape fr' \<and> (\<forall>slot<8. owned_axis (pre @ [s]) fr' slot) \<and>
     fr_held_keys fr' = fr_held_keys fr \<and> connected_mask fr' = connected_mask fr \<and>
     generation_total fr' = generation_total fr"
proof (induction slots arbitrary: fr)
  case (Cons slot slots)
  let ?fr = "case reading s slot of None \<Rightarrow> fr
     | Some v \<Rightarrow> if axis_present fr ! slot then fr else put_axis (length pre) slot v fr"
  have 8: "slot < 8" using Cons.prems(1) by simp
  have eq: "frame_axis (length pre) s slot fr = Some ?fr" by (rule frame_axis_eq [OF assms(1) 8 assms(2)])
  have shape: "frame_shape ?fr"
    using Cons.prems(3) by (simp add: frame_shape_def put_axis_def split: option.split)
  have "owned_axis pre fr slot" using Cons.prems(4) 8 by (auto split: if_splits)
  note here = owned_axis_snoc [OF this Cons.prems(3) 8, of s]
  have away: "owned_axis qs ?fr k = owned_axis qs fr k" if "k \<noteq> slot" for qs k
    using that by (simp add: owned_axis_def put_axis_def split: option.split)
  have "\<forall>k<8. owned_axis (if k \<in> set slots then pre else pre @ [s]) ?fr k"
  proof (intro allI impI)
    fix k :: nat assume k: "k < 8"
    show "owned_axis (if k \<in> set slots then pre else pre @ [s]) ?fr k"
      using Cons.prems(2,4) k here away [of k] by (cases "k = slot") (auto split: if_splits)
  qed
  from Cons.IH [OF _ _ shape this] Cons.prems(1,2) obtain fr' where
    "frame_axes (length pre) s slots ?fr = Some fr'" "frame_shape fr'" "\<forall>slot<8. owned_axis (pre @ [s]) fr' slot"
    "fr_held_keys fr' = fr_held_keys ?fr" "connected_mask fr' = connected_mask ?fr" "generation_total fr' = generation_total ?fr"
    by auto
  moreover have "fr_held_keys ?fr = fr_held_keys fr" "connected_mask ?fr = connected_mask fr"
    "generation_total ?fr = generation_total fr"
    by (simp_all add: put_axis_def split: option.split)
  ultimately show ?case using eq by simp
qed (use assms in simp)

definition frame_of :: "cart_input_source list \<Rightarrow> cart_input_frame \<Rightarrow> bool" where
  "frame_of pre fr \<longleftrightarrow> frame_shape fr \<and> (\<forall>slot<8. owned_axis pre fr slot) \<and>
     (\<forall>k. bit (fr_held_keys fr) k = (\<exists>s\<in>set pre. plugged s \<and> bit (held_keys s) k)) \<and>
     (\<forall>k. bit (connected_mask fr) k = (k < length pre \<and> plugged (pre ! k))) \<and>
     generation_total fr = sum_list (map src_generation (filter plugged pre))"

lemma unplugged_snoc:
  assumes f: "frame_of pre fr" and s: "\<not> plugged s"
  shows "frame_of (pre @ [s]) fr"
proof -
  have "reading s slot = None" for slot using s by (simp add: reading_def)
  then have "\<forall>slot<8. owned_axis (pre @ [s]) fr slot"
    using f owned_axis_snoc [of pre fr _ s] by (simp add: frame_of_def)
  with f s show ?thesis by (auto simp: frame_of_def nth_append less_Suc_eq)
qed

lemma plugged_snoc:
  assumes f: "frame_of pre fr" and s: "calibrated s" "plugged s" and len: "length pre < 32"
  shows "\<exists>fr'. frame_axes (length pre) s [0..<8] (fr\<lparr>connected_mask := connected_mask fr OR push_bit (length pre) 1,
      generation_total := generation_total fr + src_generation s, fr_held_keys := fr_held_keys fr OR held_keys s\<rparr>) = Some fr' \<and>
    frame_of (pre @ [s]) fr'"
proof -
  let ?fr = "fr\<lparr>connected_mask := connected_mask fr OR push_bit (length pre) 1,
      generation_total := generation_total fr + src_generation s, fr_held_keys := fr_held_keys fr OR held_keys s\<rparr>"
  have "frame_shape ?fr" "\<forall>slot<8. owned_axis (if slot \<in> set [0..<8] then pre else pre @ [s]) ?fr slot"
    using f by (auto simp: frame_of_def frame_shape_def owned_axis_def)
  from frame_axes_ok [OF s _ _ this] obtain fr' where
    r: "frame_axes (length pre) s [0..<8] ?fr = Some fr'" "frame_shape fr'" "\<forall>slot<8. owned_axis (pre @ [s]) fr' slot"
    "fr_held_keys fr' = fr_held_keys ?fr" "connected_mask fr' = connected_mask ?fr" "generation_total fr' = generation_total ?fr"
    by auto
  have "bit (connected_mask fr') k = (k < length (pre @ [s]) \<and> plugged ((pre @ [s]) ! k))" for k
    using f s(2) len r(5)
    by (auto simp: frame_of_def bit_simps nth_append less_Suc_eq)
  with r f s(2) show ?thesis by (auto simp: frame_of_def bit_simps)
qed

lemma frame_sources_ok:
  "frame_of pre fr \<Longrightarrow> \<forall>s\<in>set ss. calibrated s \<Longrightarrow> length pre + length ss \<le> 32 \<Longrightarrow>
   \<exists>fr'. frame_sources (length pre) ss fr = Some fr' \<and> frame_of (pre @ ss) fr'"
proof (induction ss arbitrary: pre fr)
  case (Cons s ss)
  have next_one: "\<exists>fr'. frame_sources (length (pre @ [s])) ss fr1 = Some fr' \<and> frame_of (pre @ s # ss) fr'"
    if "frame_of (pre @ [s]) fr1" for fr1
    using Cons.IH [OF that] Cons.prems(2,3) by simp
  show ?case
  proof (cases "plugged s")
    case False
    with next_one [OF unplugged_snoc [OF Cons.prems(1) False]] show ?thesis by (simp add: plugged_def)
  next
    case True
    from plugged_snoc [OF Cons.prems(1) _ True] Cons.prems(2,3) obtain fr1 where
      "frame_axes (length pre) s [0..<8] (fr\<lparr>connected_mask := connected_mask fr OR push_bit (length pre) 1,
        generation_total := generation_total fr + src_generation s, fr_held_keys := fr_held_keys fr OR held_keys s\<rparr>) = Some fr1"
      "frame_of (pre @ [s]) fr1" by auto
    with next_one True show ?thesis by (simp add: plugged_def)
  qed
qed simp

lemma build_frame_ok:
  assumes "input_ok inp"
  obtains fr where "build_frame inp = Some fr" "frame_of (source inp) fr"
proof -
  have "frame_of [] zero_frame"
    by (simp add: frame_of_def frame_shape_def zero_frame_def owned_axis_def)
  from frame_sources_ok [OF this, of "source inp"] assms that show thesis
    by (auto simp: build_frame_def input_ok_def source_ok_def)
qed

text \<open>
  Claim C30. The merged frame of a well-formed input is defined (no overflow in the normalisation) and
  reports, for each of the eight axes, the reading of the first source that has one, a percentage,
  with that source as the owner, or an absent axis when no source has a reading; a key is held when
  some connected source holds it, and the mask has the bits of the connected sources.
\<close>

theorem frame_merges_sources:
  assumes "input_ok inp"
  shows "\<exists>fr. build_frame inp = Some fr \<and>
    (\<forall>slot<8. axis_present fr ! slot \<longrightarrow> (\<exists>i<4. axis_owner fr ! slot = i \<and>
       reading (source inp ! i) slot = Some (fr_axis fr ! slot) \<and>
       - 100 \<le> fr_axis fr ! slot \<and> fr_axis fr ! slot \<le> 100 \<and>
       (\<forall>j<i. reading (source inp ! j) slot = None))) \<and>
    (\<forall>slot<8. \<not> axis_present fr ! slot \<longrightarrow> fr_axis fr ! slot = 0 \<and> axis_owner fr ! slot = 4 \<and>
       (\<forall>j<4. reading (source inp ! j) slot = None)) \<and>
    (\<forall>k. bit (fr_held_keys fr) k = (\<exists>i<4. plugged (source inp ! i) \<and> bit (held_keys (source inp ! i)) k)) \<and>
    (\<forall>k. bit (connected_mask fr) k = (k < 4 \<and> plugged (source inp ! k))) \<and>
    generation_total fr = sum_list (map src_generation (filter plugged (source inp)))"
proof -
  from build_frame_ok [OF assms] obtain fr where f: "build_frame inp = Some fr" "frame_of (source inp) fr" .
  have l: "length (source inp) = 4" using assms by (simp add: input_ok_def)
  have ax: "owned_axis (source inp) fr slot" if "slot < 8" for slot using f(2) that by (simp add: frame_of_def)
  have ex: "(\<exists>s\<in>set (source inp). P s) = (\<exists>i<4. P (source inp ! i))" for P
    using l by (metis in_set_conv_nth)
  show ?thesis
  proof (intro exI [of _ fr] conjI)
    show "\<forall>slot<8. axis_present fr ! slot \<longrightarrow> (\<exists>i<4. axis_owner fr ! slot = i \<and>
       reading (source inp ! i) slot = Some (fr_axis fr ! slot) \<and>
       - 100 \<le> fr_axis fr ! slot \<and> fr_axis fr ! slot \<le> 100 \<and> (\<forall>j<i. reading (source inp ! j) slot = None))"
    proof (intro allI impI)
      fix slot :: nat assume s: "slot < 8" "axis_present fr ! slot"
      let ?i = "axis_owner fr ! slot"
      have o: "?i < 4" "reading (source inp ! ?i) slot = Some (fr_axis fr ! slot)" "\<forall>j<?i. reading (source inp ! j) slot = None"
        using ax [OF s(1)] s(2) l by (simp_all add: owned_axis_def)
      with reading_bounds [OF o(2)] show "\<exists>i<4. axis_owner fr ! slot = i \<and>
        reading (source inp ! i) slot = Some (fr_axis fr ! slot) \<and>
        - 100 \<le> fr_axis fr ! slot \<and> fr_axis fr ! slot \<le> 100 \<and> (\<forall>j<i. reading (source inp ! j) slot = None)" by blast
    qed
    show "\<forall>slot<8. \<not> axis_present fr ! slot \<longrightarrow> fr_axis fr ! slot = 0 \<and> axis_owner fr ! slot = 4 \<and>
       (\<forall>j<4. reading (source inp ! j) slot = None)" using ax l by (simp add: owned_axis_def)
    show "\<forall>k. bit (fr_held_keys fr) k = (\<exists>i<4. plugged (source inp ! i) \<and> bit (held_keys (source inp ! i)) k)"
      using f(2) ex by (simp add: frame_of_def)
    show "\<forall>k. bit (connected_mask fr) k = (k < 4 \<and> plugged (source inp ! k))"
      "generation_total fr = sum_list (map src_generation (filter plugged (source inp)))"
      using f(2) l by (simp_all add: frame_of_def)
  qed (rule f(1))
qed

text \<open>An input with two connected sources for the examples: both have the first axis.\<close>

definition two_sticks :: cart_input where
  "two_sticks = zero_input\<lparr>source :=
     [reset_source,
      reset_source\<lparr>fd := 5, src_state := CART_INPUT_CONNECTED, held_keys := 1,
        src_axis := replicate 8 \<lparr>ar_min = 0, ar_max = 255, deadzone_pct = 15\<rparr>,
        axis_valid := [True, False, False, False, False, False, False, False], last_raw := replicate 8 255\<rparr>,
      reset_source\<lparr>fd := 6, src_state := CART_INPUT_CONNECTED, held_keys := 4,
        src_axis := replicate 8 \<lparr>ar_min = 0, ar_max = 255, deadzone_pct = 15\<rparr>,
        axis_valid := replicate 8 True, last_raw := replicate 8 0\<rparr>,
      reset_source]\<rparr>"

lemma two_sticks_ok: "input_ok two_sticks"
proof -
  have "axis_ok \<lparr>ar_min = 0, ar_max = 255, deadzone_pct = 15\<rparr>" by (simp add: axis_ok_def in_i32_def)
  then show ?thesis using zero_input_ok reset_calibrated(1)
    by (simp add: two_sticks_def input_ok_def source_ok_def zero_input_def reset_source_def calibrated_def)
qed

theorem frame_merges_sources_witness:
  "\<exists>fr. build_frame two_sticks = Some fr \<and> bit (connected_mask fr) 1 \<and> \<not> bit (connected_mask fr) 0 \<and>
     bit (fr_held_keys fr) 2 \<and> (axis_present fr ! 0 \<longrightarrow> axis_owner fr ! 0 = 1)"
proof -
  have r: "reading (source two_sticks ! 0) 0 = None" "reading (source two_sticks ! 1) 0 \<noteq> None"
    and p: "plugged (source two_sticks ! 1)" "\<not> plugged (source two_sticks ! 0)" "plugged (source two_sticks ! 2)"
      "bit (held_keys (source two_sticks ! 2)) 2"
    by (simp_all add: two_sticks_def reading_def plugged_def reset_source_def axis_range_ok_def in_i32_def
        bit_iff_odd)
  have one: "axis_owner fr ! 0 = 1" if "axis_owner fr ! 0 = i" "reading (source two_sticks ! i) 0 = Some v"
    "\<forall>j<i. reading (source two_sticks ! j) 0 = None" for fr i v
  proof -
    have "i \<noteq> 0" using that(2) r(1) by (metis option.distinct(1))
    moreover have "\<not> 1 < i" by (rule contrapos_nn [OF r(2) that(3) [rule_format]])
    ultimately show ?thesis using that(1) by linarith
  qed
  from frame_merges_sources [OF two_sticks_ok] obtain fr where f: "build_frame two_sticks = Some fr"
    and a: "\<forall>slot<8. axis_present fr ! slot \<longrightarrow> (\<exists>i<4. axis_owner fr ! slot = i \<and>
       reading (source two_sticks ! i) slot = Some (fr_axis fr ! slot) \<and>
       - 100 \<le> fr_axis fr ! slot \<and> fr_axis fr ! slot \<le> 100 \<and>
       (\<forall>j<i. reading (source two_sticks ! j) slot = None))"
    and h: "\<forall>k. bit (fr_held_keys fr) k = (\<exists>i<4. plugged (source two_sticks ! i) \<and> bit (held_keys (source two_sticks ! i)) k)"
    and m: "\<forall>k. bit (connected_mask fr) k = (k < 4 \<and> plugged (source two_sticks ! k))" by blast
  have "bit (connected_mask fr) 1" "\<not> bit (connected_mask fr) 0" using m p by simp_all
  moreover have "bit (fr_held_keys fr) 2" unfolding h [rule_format] by (rule exI [of _ 2]) (use p in simp)
  moreover have "axis_owner fr ! 0 = 1" if pr: "axis_present fr ! 0"
  proof -
    obtain i where "axis_owner fr ! 0 = i" "reading (source two_sticks ! i) 0 = Some (fr_axis fr ! 0)"
      "\<forall>j<i. reading (source two_sticks ! j) 0 = None" using a pr by (metis zero_less_numeral)
    then show ?thesis by (rule one)
  qed
  ultimately show ?thesis using f by blast
qed

section \<open>Sessions\<close>

inductive session :: "'w cart_input_ops \<Rightarrow> 'w \<Rightarrow> cart_input \<Rightarrow> 'w \<Rightarrow> bool" for ops w0 where
  started: "cart_input_init_ex False (Some ops) dir file uninit (Some sys) (Some dev) inp0 w0 = Some (n, inp, w) \<Longrightarrow>
    session ops w0 inp w"
| polled: "session ops w0 inp w \<Longrightarrow>
    cart_input_poll fuel ops null want_frame (Some inp) w = Some (st, a, fr, Some inp', w') \<Longrightarrow> session ops w0 inp' w'"
| rescanned: "session ops w0 inp w \<Longrightarrow>
    cart_input_rescan null ops dir file uninit sys dev inp w = Some (n, inp', w') \<Longrightarrow> session ops w0 inp' w'"
| shut: "session ops w0 inp w \<Longrightarrow> cart_input_shutdown ops (Some inp) w = (Some inp', w') \<Longrightarrow> session ops w0 inp' w'"

lemma discover_sound:
  assumes "device_ops ops opened" "sound opened B inp w"
    "discover_pass ops dir file uninit sys dev inp w = Some (n, inp', w')"
  shows "sound opened B inp' w'"
proof -
  have "fd_ops ops opened" "length (source inp) = 4" "owned opened B (slot_fds inp) w" "input_ok inp"
    using assms(1,2) by (auto simp: device_ops_def sound_def input_ok_def)
  with discovery_owns [OF _ _ _ assms(3)] discover_ok [OF assms(1) _ assms(3)] show ?thesis
    by (auto simp: sound_def)
qed

lemma shutdown_sound:
  assumes "device_ops ops opened" "sound opened B inp w" "cart_input_shutdown ops (Some inp) w = (Some inp', w')"
  shows "sound opened B inp' w' \<and> opened w' = B \<and> slot_fds inp' = [] \<and> queue_actions (pending inp') = []"
proof -
  have ok: "input_ok inp" using assms(2) by (simp add: sound_def)
  have sh: "opened w' = B" "slot_fds inp' = []"
    using shutdown_owned [OF _ _ assms(3), of opened B] assms(1,2) by (auto simp: device_ops_def sound_def)
  have "source_ok reset_source" using reset_calibrated(1) by (simp add: source_ok_def reset_source_def)
  then have "input_ok inp'" using ok assms(3)
    by (auto simp: cart_input_shutdown_def input_ok_def queue_ok_def part_ok_def)
  moreover have "queue_actions (pending inp') = []"
    using assms(3) by (auto simp: cart_input_shutdown_def queue_actions_def)
  ultimately show ?thesis using sh by (simp add: sound_def owned_def)
qed

lemma session_sound: "session ops w0 inp w \<Longrightarrow> device_ops ops opened \<Longrightarrow> sound opened (opened w0) inp w"
proof (induction rule: session.induct)
  case (started dir fl uninit sys dev inp0 n inp w)
  have "sound opened (opened w0) zero_input w0"
    using zero_input_ok by (simp add: sound_def owned_def slot_fds_def zero_input_def reset_source_def)
  then show ?case by (rule discover_sound [OF started.prems]) (use started.hyps in \<open>simp add: cart_input_init_ex_def\<close>)
next
  case (rescanned inp w null dir fl uninit sys dev n inp' w')
  then have s: "sound opened (opened w0) inp w" by simp
  from rescanned.hyps(2) have "inp' = inp \<and> w' = w \<or>
      discover_pass ops dir fl uninit (the sys) (the dev) inp w = Some (n, inp', w')"
    by (auto simp: cart_input_rescan_def split: if_splits)
  with s discover_sound [OF rescanned.prems s] show ?case by blast
next
  case (polled inp w fuel null want_frame st a fr inp' w')
  show ?case by (rule poll_sound [OF polled.prems polled.IH [OF polled.prems] polled.hyps(2)])
next
  case (shut inp w inp' w')
  from shutdown_sound [OF shut.prems shut.IH [OF shut.prems] shut.hyps(2)] show ?case by blast
qed

text \<open>
  Claim C22. The type invariant of the input structure holds after an initialisation and any sequence
  of polls, rescans and shutdowns, whatever the devices deliver: four slots, each with eight axes, a
  descriptor exactly when it is not absent and a range that cannot overflow for every valid axis, a
  queue of at most eight real actions, and read buffers within their 256 bytes.
\<close>

theorem session_keeps_input_well_formed:
  assumes "device_ops ops opened" "session ops w0 inp w"
  shows "input_ok inp"
  using session_sound [OF assms(2,1)] by (simp add: sound_def)

text \<open>
  Claim C13. A session leaks no descriptor: the descriptors open besides those that were open before it
  are exactly the ones its slots hold, each held once, and after a shutdown the open descriptors are
  the ones from before the session and no action is pending.
\<close>

theorem session_leaks_nothing:
  assumes "device_ops ops opened" "session ops w0 inp w"
    and "cart_input_shutdown ops (Some inp) w = (Some inp', w')"
  shows "distinct (slot_fds inp) \<and> opened w = opened w0 \<union> set (slot_fds inp) \<and>
    opened w0 \<inter> set (slot_fds inp) = {} \<and> opened w' = opened w0 \<and> slot_fds inp' = [] \<and>
    queue_actions (pending inp') = []"
  using session_sound [OF assms(2,1)] shutdown_sound [OF assms(1) _ assms(3), of "opened w0"]
  by (simp add: sound_def owned_def)

lemma kbd_device_ops: "device_ops kbd_ops set"
  using kbd_fd_ops by (simp add: device_ops_def kbd_ops_def)

lemma kbd_session: "\<exists>inp w. session kbd_ops [] inp w \<and> length (slot_fds inp) = 1"
proof -
  obtain inp w where d: "discover_pass kbd_ops (\<lambda>_. Inr [''event3'', ''mice'']) (\<lambda>_. None) [] ''/s'' ''/d''
      zero_input [] = Some (1, inp, w)" using kbd_discovery by blast
  then have "session kbd_ops [] inp w"
    by (intro started [of _ "\<lambda>_. Inr [''event3'', ''mice'']" "\<lambda>_. None" "[]" "''/s''" "''/d''" zero_input])
      (simp add: cart_input_init_ex_def)
  moreover have "owned set {} (slot_fds zero_input) []" "slot_fds zero_input = []" "length (source zero_input) = 4"
    by (simp_all add: zero_input_def slot_fds_def reset_source_def owned_def numeral_eq_Suc)
  ultimately show ?thesis using discovery_owns [OF kbd_fd_ops _ _ d, of "{}"] by force
qed

theorem session_keeps_input_well_formed_witness:
  "\<exists>inp w. session kbd_ops [] inp w \<and> length (slot_fds inp) = 1 \<and> input_ok inp"
  using kbd_session session_keeps_input_well_formed [OF kbd_device_ops] by blast

theorem session_leaks_nothing_witness:
  "\<exists>inp w inp' w'. session kbd_ops [] inp w \<and> length (slot_fds inp) = 1 \<and>
     cart_input_shutdown kbd_ops (Some inp) w = (Some inp', w') \<and> w' = []"
proof -
  obtain inp w where s: "session kbd_ops [] inp w" "length (slot_fds inp) = 1" using kbd_session by blast
  obtain inp' w' where sh: "cart_input_shutdown kbd_ops (Some inp) w = (Some inp', w')"
    by (simp add: cart_input_shutdown_def)
  from session_leaks_nothing [OF kbd_device_ops s(1) sh] s sh show ?thesis by auto
qed

end
