(* ===== verification/Demo_Loop.thy ===== *)
theory Demo_Loop
  imports Demo_Render Runtime Transition Presentation Input_Session
begin

text \<open>
  The demo program (\<^verbatim>\<open>cart/src/pstv-demo-cart.c\<close>): the image dump, the signal handler, the clock
  helpers, the command line and the main loop. The loop is a state machine with three program
  points per iteration; signals arrive between any two steps. What the loop reads from outside (the
  clock, the result of the sleep, the input devices) is chosen by the environment. Messages on the
  error stream are not modelled.
\<close>

section \<open>Dump, signals, clock\<close>

definition dump_pixels :: "heap \<Rightarrow> u8 list" where
  "dump_pixels h =
     concat (map (\<lambda>y. concat (map (\<lambda>ky. concat (map (\<lambda>x. concat (map (\<lambda>kx. rgb_bytes (h low ! (y * 320 + x)))
       [0..<4])) [0..<320])) [0..<4])) [0..<180])"

definition dump_ppm :: "bool \<Rightarrow> heap \<Rightarrow> int \<times> u8 list option" where
  "dump_ppm file_opens h =
     (if \<not> file_opens then (1, None)
      else (0, Some (bytes_of (''P6'' @ [CHR 10] @ dec 1280 @ '' '' @ dec 720 @ [CHR 10] @ ''255'' @ [CHR 10])
                     @ dump_pixels h)))"

abbreviation (input) SIGUSR1 :: int where "SIGUSR1 \<equiv> 10"

record demo_flags =
  running :: bool
  next_scene_requested :: bool

definition on_signal :: "int \<Rightarrow> demo_flags \<Rightarrow> demo_flags" where
  "on_signal sig f = (if sig = SIGUSR1 then f\<lparr>next_scene_requested := True\<rparr> else f\<lparr>running := False\<rparr>)"

text \<open>A \<^verbatim>\<open>struct timespec\<close> of the target: a signed 32-bit number of seconds, and nanoseconds.\<close>

record timespec =
  tv_sec :: int
  tv_nsec :: int

definition monotonic_now_ns :: "bool \<Rightarrow> timespec option \<Rightarrow> u64 option" where
  "monotonic_now_ns out_is_null clock =
     (if out_is_null then None
      else map_option (\<lambda>t. of_int (tv_sec t) * 1000000000 + of_int (tv_nsec t)) clock)"

definition timespec_from_ns :: "u64 \<Rightarrow> timespec" where
  "timespec_from_ns v = \<lparr>tv_sec = signed_take_bit 31 (uint (v div 1000000000)), tv_nsec = uint (v mod 1000000000)\<rparr>"

section \<open>Command line and dump mode\<close>

text \<open>\<^verbatim>\<open>atoi\<close>: the value of the leading decimal number, 0 if there is none, undefined out of range.\<close>

definition atoi :: "string \<Rightarrow> int option" where
  "atoi s =
     (let s = dropWhile is_space s;
          neg = (s \<noteq> [] \<and> hd s = CHR ''-'');
          ds = takeWhile is_digit (if s \<noteq> [] \<and> (hd s = CHR ''-'' \<or> hd s = CHR ''+'') then tl s else s);
          v = int (num_val ds)
      in i32 (if neg then - v else v))"

record demo_options =
  dump :: "string option"
  dump_scene :: int
  dump_frame :: int

fun parse_arguments :: "string list \<Rightarrow> demo_options \<Rightarrow> demo_options option" where
  "parse_arguments [] opts = Some opts"
| "parse_arguments [a] opts = Some opts"
| "parse_arguments (a # v # rest) opts =
     (if a = ''--dump'' then parse_arguments rest (opts\<lparr>dump := Some v\<rparr>)
      else if a = ''--scene''
      then do { n \<leftarrow> atoi v; parse_arguments rest (opts\<lparr>dump_scene := n smod 6\<rparr>) }
      else if a = ''--frame''
      then do { n \<leftarrow> atoi v; parse_arguments rest (opts\<lparr>dump_frame := n\<rparr>) }
      else parse_arguments (v # rest) opts)"

definition default_options :: demo_options where
  "default_options = \<lparr>dump = None, dump_scene = 0, dump_frame = 120\<rparr>"

text \<open>The memory at program start: static buffers and contexts are zero; the framebuffer is mapped later.\<close>

definition demo_memory :: "u32 list \<Rightarrow> demo_mem" where
  "demo_memory screen =
     \<lparr>px_heap = (\<lambda>_. [])(low := replicate 57600 0, low_from := replicate 57600 0, low_to := replicate 57600 0,
                       display_row := replicate 1280 0, fb := screen),
      row_contexts = replicate 8 \<lparr>ctx_canvas = None, row_start = 0, row_end = 0, ctx_frame = 0,
                                  ctx_phase = CART_SCENE_RENDER_ROWS\<rparr>\<rparr>"

text \<open>Dump mode: an inline pool, one frame, the image; the result is the exit status and the file.\<close>

inductive dump_mode :: "sine_table \<Rightarrow> demo_options \<Rightarrow> bool \<Rightarrow> int \<Rightarrow> u8 list option \<Rightarrow> bool" for sines opts where
  "dump opts \<noteq> None \<Longrightarrow> cart_worker_pool_init False 0 180 ok (demo_memory []) = Inr s \<Longrightarrow>
   render_frame sines low_canvas (dump_scene opts) (of_int (dump_frame opts)) s s1 \<Longrightarrow>
   shutdown_call s1 s2 \<Longrightarrow> dump_ppm file_opens (px_heap (mem s2)) = (st, written) \<Longrightarrow>
   dump_mode sines opts file_opens st written"

section \<open>The loop\<close>

datatype loop_pc = L_Top | L_Show | L_Wait | L_Exit

record 'w demo =
  pc :: loop_pc
  sys :: demo_sys
  runtime :: cart_runtime
  transition :: cart_transition
  displayed_scene :: size_t
  input :: cart_input
  dev :: 'w
  flags :: demo_flags
  now_ns :: u64
  rendered_frames :: u64
  report_frame :: u64
  report_start_ns :: u64

definition take_request :: "'w demo \<Rightarrow> 'w demo" where
  "take_request d =
     (if next_scene_requested (flags d)
      then d\<lparr>runtime := the (cart_runtime_request_next (Some (runtime d)) (now_ns d) (3600 * 1000000000)),
             flags := (flags d)\<lparr>next_scene_requested := False\<rparr>\<rparr>
      else d)"

definition handle_action :: "cart_input_action \<Rightarrow> 'w demo \<Rightarrow> 'w demo" where
  "handle_action polled d =
     (if polled = CART_INPUT_QUIT then d\<lparr>flags := (flags d)\<lparr>running := False\<rparr>\<rparr>
      else if polled = CART_INPUT_NEXT
      then d\<lparr>runtime := the (cart_runtime_request_next (Some (runtime d)) (now_ns d) (8 * 1000000000))\<rparr>
      else if polled = CART_INPUT_PREVIOUS
      then d\<lparr>runtime := the (cart_runtime_request_previous (Some (runtime d)) (now_ns d) (8 * 1000000000))\<rparr>
      else d)"

text \<open>The poll and its three outcomes; a failed poll shuts the input down and goes on.\<close>

definition poll_input :: "nat \<Rightarrow> 'w cart_input_ops \<Rightarrow> 'w demo \<Rightarrow> 'w demo option" where
  "poll_input fuel ops d =
     (case cart_input_poll fuel ops False True (Some (input d)) (dev d) of
        None \<Rightarrow> None
      | Some (status, polled, fr, inp, w) \<Rightarrow>
          if status \<noteq> 0
          then (case cart_input_shutdown ops inp w of (inp, w) \<Rightarrow> Some (d\<lparr>input := the inp, dev := w\<rparr>))
          else Some (handle_action (the polled) (d\<lparr>input := the inp, dev := w\<rparr>)))"

text \<open>Beginning a fade: both endpoints are rendered once, into their own buffers.\<close>

inductive begin_transition :: "sine_table \<Rightarrow> 'w demo \<Rightarrow> 'w demo \<Rightarrow> bool" for sines where
  none_due: "scene_index (runtime d) = displayed_scene d \<or> cart_transition_active (Some (transition d)) \<Longrightarrow>
    begin_transition sines d d"
| begun: "scene_index (runtime d) \<noteq> displayed_scene d \<Longrightarrow> \<not> cart_transition_active (Some (transition d)) \<Longrightarrow>
    cart_transition_begin (Some (transition d)) (displayed_scene d) (scene_index (runtime d)) = Some t \<Longrightarrow>
    cart_transition_sources_need_render (Some t) \<Longrightarrow>
    render_scene_into sines low_canvas low_from (sint (from_scene t)) (frame (runtime d)) (sys d) s1 \<Longrightarrow>
    render_scene_into sines low_canvas low_to (sint (to_scene t)) (frame (runtime d)) s1 s2 \<Longrightarrow>
    cart_transition_mark_sources_rendered (Some t) = Some t' \<Longrightarrow>
    begin_transition sines d (d\<lparr>transition := t', sys := s2\<rparr>)"
| begun_ready: "scene_index (runtime d) \<noteq> displayed_scene d \<Longrightarrow> \<not> cart_transition_active (Some (transition d)) \<Longrightarrow>
    cart_transition_begin (Some (transition d)) (displayed_scene d) (scene_index (runtime d)) = Some t \<Longrightarrow>
    \<not> cart_transition_sources_need_render (Some t) \<Longrightarrow> begin_transition sines d (d\<lparr>transition := t\<rparr>)"

abbreviation set_heap :: "heap \<Rightarrow> demo_sys \<Rightarrow> demo_sys" where
  "set_heap h s \<equiv> s\<lparr>mem := (mem s)\<lparr>px_heap := h\<rparr>\<rparr>"

text \<open>The picture: a fade frame while a fade is active, the displayed scene otherwise.\<close>

inductive draw_picture :: "sine_table \<Rightarrow> 'w demo \<Rightarrow> 'w demo \<Rightarrow> bool" for sines where
  fading: "cart_transition_active (Some (transition d)) \<Longrightarrow>
    cart_transition_blend (Some low) (Some low_from) (Some low_to) 57600 (elapsed_frames (transition d))
      (px_heap (mem (sys d))) = Some h \<Longrightarrow>
    cart_transition_advance (Some (transition d)) = Some t \<Longrightarrow>
    draw_picture sines d (d\<lparr>sys := set_heap h (sys d), transition := t,
      displayed_scene := (if \<not> cart_transition_active (Some t) then to_scene t else displayed_scene d)\<rparr>)"
| steady: "\<not> cart_transition_active (Some (transition d)) \<Longrightarrow>
    render_frame sines low_canvas (sint (displayed_scene d)) (frame (runtime d)) (sys d) s \<Longrightarrow>
    draw_picture sines d (d\<lparr>sys := s\<rparr>)"

definition count_picture :: "'w demo \<Rightarrow> 'w demo" where
  "count_picture d =
     (let d = d\<lparr>rendered_frames := rendered_frames d + 1\<rparr>
      in if rendered_frames d - report_frame d \<ge> 300
         then d\<lparr>report_start_ns := now_ns d, report_frame := rendered_frames d\<rparr> else d)"

text \<open>Lines 264 to 297: one picture on the screen.\<close>

inductive show_frame :: "sine_table \<Rightarrow> 'w demo \<Rightarrow> 'w demo \<Rightarrow> bool" for sines where
  "begin_transition sines d d1 \<Longrightarrow> draw_picture sines d1 d2 \<Longrightarrow>
   cart_presentation_upscale (Some fb) (Some low) (Some display_row) (px_heap (mem (sys d2))) = Some h \<Longrightarrow>
   show_frame sines d (count_picture (d2\<lparr>sys := set_heap h (sys d2)\<rparr>))"

inductive demo_step :: "nat \<Rightarrow> 'w cart_input_ops \<Rightarrow> sine_table \<Rightarrow> 'w demo \<Rightarrow> 'w demo \<Rightarrow> bool" for fuel ops sines where
  stop: "pc d = L_Top \<Longrightarrow> \<not> running (flags d) \<Longrightarrow> demo_step fuel ops sines d (d\<lparr>pc := L_Exit\<rparr>)"
| clock_fails: "pc d = L_Top \<and> running (flags d) \<or> pc d = L_Wait \<Longrightarrow> demo_step fuel ops sines d (d\<lparr>pc := L_Exit\<rparr>)"
| deadline_exhausted: "pc d = L_Top \<and> running (flags d) \<or> pc d = L_Wait \<Longrightarrow>
    cart_runtime_tick (Some (runtime d)) now = (status, Some r) \<Longrightarrow> status \<noteq> 0 \<Longrightarrow>
    demo_step fuel ops sines d (d\<lparr>pc := L_Exit, now_ns := now, runtime := r\<rparr>)"
| tick: "pc d = L_Top \<Longrightarrow> running (flags d) \<Longrightarrow> cart_runtime_tick (Some (runtime d)) now = (0, Some r) \<Longrightarrow>
    poll_input fuel ops (take_request (d\<lparr>now_ns := now, runtime := r\<rparr>)) = Some d' \<Longrightarrow>
    demo_step fuel ops sines d (d'\<lparr>pc := L_Show\<rparr>)"
| show_picture: "pc d = L_Show \<Longrightarrow> show_frame sines d d' \<Longrightarrow> demo_step fuel ops sines d (d'\<lparr>pc := L_Wait\<rparr>)"
| slept: "pc d = L_Wait \<Longrightarrow> cart_runtime_tick (Some (runtime d)) now = (0, Some r) \<Longrightarrow>
    demo_step fuel ops sines d (d\<lparr>pc := L_Top, now_ns := now, runtime := r\<rparr>)"
| sleep_fails: "pc d = L_Wait \<Longrightarrow> cart_runtime_tick (Some (runtime d)) now = (0, Some r) \<Longrightarrow>
    demo_step fuel ops sines d (d\<lparr>pc := L_Exit, now_ns := now, runtime := r\<rparr>)"
| signalled: "pc d \<noteq> L_Exit \<Longrightarrow> demo_step fuel ops sines d (d\<lparr>flags := on_signal sig (flags d)\<rparr>)"

text \<open>The framebuffer the program accepts, and the state in which the loop starts.\<close>

definition screen_ok :: "u32 \<Rightarrow> u32 \<Rightarrow> u32 \<Rightarrow> u32 \<Rightarrow> bool" where
  "screen_ok xres yres bits_per_pixel line_length \<longleftrightarrow>
     \<not> (xres \<noteq> 1280 \<or> yres \<noteq> 720 \<or> bits_per_pixel \<noteq> 32 \<or> line_length \<noteq> 1280 * 4)"

definition zero_transition :: cart_transition where
  "zero_transition = \<lparr>from_scene = 0, to_scene = 0, elapsed_frames = 0, cart_transition.active = False, sources_ready = False\<rparr>"

inductive demo_start :: "'w cart_input_ops \<Rightarrow> 'w \<Rightarrow> 'w demo \<Rightarrow> bool" for ops w0 where
  "screen_ok xres yres bpp line \<Longrightarrow> length screen = unat xres * unat yres \<Longrightarrow>
   cart_input_init_ex False (Some ops) dir file uninit (Some ''/sys/class/input'') (Some ''/dev/input'') inp0 w0 = Some (n, inp, w) \<Longrightarrow>
   monotonic_now_ns False (Some t) = Some now \<Longrightarrow>
   cart_worker_pool_init False 4 180 ok (demo_memory screen) = Inr s0 \<Longrightarrow> internal_step\<^sup>*\<^sup>* s0 s \<Longrightarrow> main s = M_Idle \<Longrightarrow>
   cart_runtime_init False cart_scene_count now (1000000000 div 30) (8 * 1000000000) 500000000 = (0, Some r) \<Longrightarrow>
   demo_start ops w0 \<lparr>pc = L_Top, sys = s, runtime = r, transition = zero_transition, displayed_scene = scene_index r,
     input = inp, dev = w, flags = \<lparr>running = True, next_scene_requested = False\<rparr>, now_ns = now,
     rendered_frames = 0, report_frame = 0, report_start_ns = now\<rparr>"

inductive demo_reachable ::
    "nat \<Rightarrow> 'w cart_input_ops \<Rightarrow> sine_table \<Rightarrow> 'w \<Rightarrow> 'w demo \<Rightarrow> bool" for fuel ops sines w0 where
  "demo_start ops w0 d \<Longrightarrow> demo_reachable fuel ops sines w0 d"
| "demo_reachable fuel ops sines w0 d \<Longrightarrow> demo_step fuel ops sines d d' \<Longrightarrow> demo_reachable fuel ops sines w0 d'"

section \<open>The invariant of the loop\<close>

definition buffers_ok :: "heap \<Rightarrow> bool" where
  "buffers_ok h \<longleftrightarrow> length (h low) = 57600 \<and> length (h low_from) = 57600 \<and> length (h low_to) = 57600 \<and>
     length (h display_row) = 1280 \<and> length (h fb) = 921600"

abbreviation fade_image :: "u64 \<Rightarrow> heap \<Rightarrow> u32 list" where
  "fade_image step h \<equiv> map2 (fade_pixel step) (h low_from) (h low_to)"

text \<open>A fade in progress: its endpoints are sampled, it starts at the displayed scene, and the picture is its last frame.\<close>

definition fade_ok :: "cart_transition \<Rightarrow> size_t \<Rightarrow> heap \<Rightarrow> bool" where
  "fade_ok t shown h \<longleftrightarrow> (cart_transition.active t \<longrightarrow> from_scene t = shown \<and> from_scene t \<noteq> to_scene t \<and> to_scene t < 6 \<and>
     sources_ready t \<and> 1 \<le> unat (elapsed_frames t) \<and> unat (elapsed_frames t) < 15 \<and>
     h low = fade_image (elapsed_frames t - 1) h)"

definition demo_inv :: "'w demo \<Rightarrow> bool" where
  "demo_inv d \<longleftrightarrow> demo_ok (sys d) \<and> buffers_ok (px_heap (mem (sys d))) \<and> rt_inv (runtime d) \<and>
     scene_count (runtime d) = 6 \<and> displayed_scene d < 6 \<and>
     fade_ok (transition d) (displayed_scene d) (px_heap (mem (sys d)))"

lemmas buffer_names = low_def low_from_def low_to_def display_row_def fb_def

lemma canvas_on_low [simp]: "low_canvas\<lparr>pixels := Some low\<rparr> = low_canvas"
  by (simp add: low_canvas_def)

subsection \<open>The runtime\<close>

lemma request_step:
  "cart_runtime_request_next (Some r) now hold = Some (rt_step r (Next now hold))"
  "cart_runtime_request_previous (Some r) now hold = Some (rt_step r (Previous now hold))"
  by (simp_all add: cart_runtime_request_next_def cart_runtime_request_previous_def)

lemma tick_step: "rt_inv r \<Longrightarrow> cart_runtime_tick (Some r) now = (st, Some r') \<Longrightarrow> r' = rt_step r (Tick now)"
  by simp

lemma count_step: "rt_inv r \<Longrightarrow> scene_count (rt_step r op) = scene_count r"
  by (cases op) (auto simp: tick_unfold Let_def tick_deadline_frame tick_scene_frame cart_runtime_request_next_def
      cart_runtime_request_previous_def hold_scene_def record_change_def)

text \<open>What the loop does outside the picture: it steps the runtime and touches input and flags.\<close>

definition steps_runtime :: "'w demo \<Rightarrow> 'w demo \<Rightarrow> bool" where
  "steps_runtime d d' \<longleftrightarrow> sys d' = sys d \<and> transition d' = transition d \<and> displayed_scene d' = displayed_scene d \<and>
     (\<exists>ops. runtime d' = rt_run (runtime d) ops)"

lemma steps_runtime_inv: "steps_runtime d d' \<Longrightarrow> demo_inv d \<Longrightarrow> demo_inv d'"
proof -
  assume s: "steps_runtime d d'" and i: "demo_inv d"
  have run: "rt_inv r \<Longrightarrow> scene_count (rt_run r ops) = scene_count r" for r ops
    by (induction ops arbitrary: r) (simp_all add: rt_inv_step count_step del: rt_step.simps)
  from s i show ?thesis
    by (auto simp: steps_runtime_def demo_inv_def rt_inv_run run)
qed

lemma steps_runtime_refl: "sys d' = sys d \<Longrightarrow> transition d' = transition d \<Longrightarrow> displayed_scene d' = displayed_scene d \<Longrightarrow>
  runtime d' = runtime d \<Longrightarrow> steps_runtime d d'"
  unfolding steps_runtime_def by (intro conjI exI [of _ "[]"]) simp_all

lemma rt_run_append: "rt_run r (xs @ ys) = rt_run (rt_run r xs) ys"
  by (simp add: rt_run_def)

lemma steps_runtime_trans: "steps_runtime d d1 \<Longrightarrow> steps_runtime d1 d2 \<Longrightarrow> steps_runtime d d2"
  unfolding steps_runtime_def by (metis rt_run_append)

lemma steps_runtime_one:
  "sys d' = sys d \<Longrightarrow> transition d' = transition d \<Longrightarrow> displayed_scene d' = displayed_scene d \<Longrightarrow>
   runtime d' = rt_step (runtime d) op \<Longrightarrow> steps_runtime d d'"
  unfolding steps_runtime_def by (intro conjI exI [of _ "[op]"]) simp_all

lemma take_request_steps: "steps_runtime d (take_request d)"
  by (cases "next_scene_requested (flags d)")
    (auto simp: take_request_def request_step simp del: rt_step.simps intro: steps_runtime_one steps_runtime_refl)

lemma handle_action_steps: "steps_runtime d (handle_action a d)"
  by (cases a) (auto simp: handle_action_def request_step simp del: rt_step.simps
      intro: steps_runtime_one steps_runtime_refl)

lemma poll_input_steps: "poll_input fuel ops d = Some d' \<Longrightarrow> steps_runtime d d'"
proof -
  assume p: "poll_input fuel ops d = Some d'"
  have "steps_runtime d (handle_action a (d\<lparr>input := i, dev := w\<rparr>))" for a i w
    by (rule steps_runtime_trans [OF steps_runtime_refl handle_action_steps]) simp_all
  with p show ?thesis
    by (auto simp: poll_input_def split: option.splits prod.splits if_splits intro: steps_runtime_refl)
qed

lemma tick_steps:
  assumes "demo_inv d" "cart_runtime_tick (Some (runtime d)) now = (st, Some r)"
  shows "steps_runtime d (d\<lparr>now_ns := now, runtime := r\<rparr>)"
proof (rule steps_runtime_one)
  show "runtime (d\<lparr>now_ns := now, runtime := r\<rparr>) = rt_step (runtime d) (Tick now)"
    using tick_step [OF _ assms(2)] assms(1) by (simp add: demo_inv_def)
qed simp_all

subsection \<open>The picture\<close>

definition upscaled :: "u32 list \<Rightarrow> u32 list" where
  "upscaled xs = map (\<lambda>j. xs ! (j div 5120 * 320 + j mod 1280 div 4)) [0..<921600]"

lemma upscale_screen:
  assumes "buffers_ok h"
  obtains h' where "cart_presentation_upscale (Some fb) (Some low) (Some display_row) h = Some h'" "buffers_ok h'"
    "h' fb = upscaled (h low)" "h' low = h low" "h' low_from = h low_from" "h' low_to = h low_to"
proof -
  have l: "921600 \<le> length (h fb)" "57600 \<le> length (h low)" "1280 \<le> length (h display_row)"
    and ne: "fb \<noteq> low" "fb \<noteq> display_row" "low \<noteq> display_row"
    using assms by (simp_all add: buffers_ok_def buffer_names)
  obtain h' where h': "cart_presentation_upscale (Some fb) (Some low) (Some display_row) h = Some h'"
    "\<And>a. a \<noteq> fb \<Longrightarrow> a \<noteq> display_row \<Longrightarrow> h' a = h a" "length (h' fb) = length (h fb)"
    "\<And>j. j < 921600 \<Longrightarrow> h' fb ! j = h low ! (j div 5120 * 320 + j mod 1280 div 4)"
    "length (h' display_row) = length (h display_row)"
    by (rule upscale_ok [OF l ne]) blast
  have "h' fb = upscaled (h low)"
    by (rule nth_equalityI) (use h' assms in \<open>simp_all add: upscaled_def buffers_ok_def\<close>)
  moreover have "h' low = h low" "h' low_from = h low_from" "h' low_to = h low_to"
    using h'(2) by (simp_all add: buffer_names)
  ultimately show thesis using that h'(1,3,5) assms by (simp add: buffers_ok_def)
qed

lemma below_six_int:
  assumes "(i :: size_t) < 6"
  shows "sint i = uint i" "0 \<le> sint i" "sint i < 6"
proof -
  have u: "uint i < 6" using assms by (simp add: word_less_def)
  then show s: "sint i = uint i" by (simp add: sint_uint signed_take_bit_int_eq_self)
  then show "0 \<le> sint i" "sint i < 6" using u by simp_all
qed

text \<open>Rendering a scene into one of the three logical buffers.\<close>

lemma scene_into:
  assumes w: "sine_bounded sines" "(i :: size_t) < 6" and s: "demo_ok s" "buffers_ok (px_heap (mem s))"
    and a: "a \<in> {low, low_from, low_to}" and r: "render_scene_into sines low_canvas a (sint i) fr s s'"
  shows "render_inline sines (low_canvas\<lparr>pixels := Some a\<rparr>) (uint i) fr (px_heap (mem s)) = Some (px_heap (mem s'))"
    "demo_ok s'" "buffers_ok (px_heap (mem s'))" "\<And>b. b \<noteq> a \<Longrightarrow> px_heap (mem s') b = px_heap (mem s) b"
proof -
  note i = below_six_int [OF w(2)]
  have b: "frame_backed a (px_heap (mem s))" using s(2) a by (auto simp: buffers_ok_def frame_backed_def)
  from frame_outcome [OF w(1) i(2,3) s(1) b] r i(1)
  show f: "render_inline sines (low_canvas\<lparr>pixels := Some a\<rparr>) (uint i) fr (px_heap (mem s)) = Some (px_heap (mem s'))"
    and "demo_ok s'" by (auto simp: render_scene_into_def)
  have u: "0 \<le> uint i" "uint i < 6" using i by simp_all
  obtain h' where h: "render_inline sines (low_canvas\<lparr>pixels := Some a\<rparr>) (uint i) fr (px_heap (mem s)) = Some h'"
    "\<And>b. length (h' b) = length (px_heap (mem s) b)" "\<And>b. b \<noteq> a \<Longrightarrow> h' b = px_heap (mem s) b"
    by (rule render_inline_defined [OF w(1) u b, of fr]) blast
  show "buffers_ok (px_heap (mem s'))" "\<And>b. b \<noteq> a \<Longrightarrow> px_heap (mem s') b = px_heap (mem s) b"
    using h f s(2) by (auto simp: buffers_ok_def)
qed

lemma scene_into_exists:
  assumes "sine_bounded sines" "(i :: size_t) < 6" "demo_ok s" "buffers_ok (px_heap (mem s))" "a \<in> {low, low_from, low_to}"
  shows "\<exists>s'. render_scene_into sines low_canvas a (sint i) fr s s'"
  unfolding render_scene_into_def
  by (rule frame_exists [OF assms(1) below_six_int(2,3) [OF assms(2)] assms(3)])
    (use assms(4,5) in \<open>auto simp: buffers_ok_def frame_backed_def\<close>)

text \<open>The state between the beginning of a fade and the picture.\<close>

definition ready_to_draw :: "'w demo \<Rightarrow> bool" where
  "ready_to_draw d \<longleftrightarrow> demo_ok (sys d) \<and> buffers_ok (px_heap (mem (sys d))) \<and> displayed_scene d < 6 \<and>
     (cart_transition.active (transition d) \<longrightarrow> from_scene (transition d) = displayed_scene d \<and>
        from_scene (transition d) \<noteq> to_scene (transition d) \<and> to_scene (transition d) < 6 \<and>
        sources_ready (transition d) \<and> unat (elapsed_frames (transition d)) < 15)"

abbreviation due :: "'w demo \<Rightarrow> bool" where
  "due d \<equiv> scene_index (runtime d) \<noteq> displayed_scene d \<and> \<not> cart_transition.active (transition d)"

lemma begin_outcome:
  assumes w: "sine_bounded sines" and i: "demo_inv d" and b: "begin_transition sines d d1"
  shows "ready_to_draw d1 \<and> runtime d1 = runtime d \<and> displayed_scene d1 = displayed_scene d \<and> pc d1 = pc d \<and>
    (if due d
     then cart_transition.active (transition d1) \<and> elapsed_frames (transition d1) = 0 \<and>
       to_scene (transition d1) = scene_index (runtime d) \<and>
       (\<exists>h. render_inline sines (low_canvas\<lparr>pixels := Some low_from\<rparr>) (uint (displayed_scene d)) (frame (runtime d))
              (px_heap (mem (sys d))) = Some h \<and>
            render_inline sines (low_canvas\<lparr>pixels := Some low_to\<rparr>) (uint (scene_index (runtime d))) (frame (runtime d)) h
              = Some (px_heap (mem (sys d1))))
     else d1 = d)"
  using b
proof cases
  case none_due
  then show ?thesis using i by (auto simp: ready_to_draw_def demo_inv_def fade_ok_def cart_transition_active_def)
next
  case (begun t s1 s2 t')
  have inv: "demo_ok (sys d)" "buffers_ok (px_heap (mem (sys d)))" "displayed_scene d < 6" "scene_index (runtime d) < 6"
    using i by (auto simp: demo_inv_def rt_inv_def)
  have t: "from_scene t = displayed_scene d" "to_scene t = scene_index (runtime d)" "elapsed_frames t = 0"
    "cart_transition.active t" "t' = t\<lparr>sources_ready := True\<rparr>"
    using begun by (auto simp: cart_transition_begin_def cart_transition_mark_sources_rendered_def)
  note one = scene_into [OF w inv(3,1,2) _ begun(6) [unfolded t(1)]]
  have inv1: "demo_ok s1" "buffers_ok (px_heap (mem s1))" using one(2,3) by simp_all
  note two = scene_into [OF w inv(4) inv1 _ begun(7) [unfolded t(2)]]
  have "due d" using begun by (simp add: cart_transition_active_def)
  with one(1) two(1-3) t inv begun(1,2) show ?thesis by (auto simp: ready_to_draw_def)
next
  case (begun_ready t)
  then have False
    by (auto simp: cart_transition_begin_def cart_transition_sources_need_render_def)
  then show ?thesis ..
qed

lemma begin_exists:
  assumes w: "sine_bounded sines" and i: "demo_inv d"
  shows "\<exists>d1. begin_transition sines d d1"
proof (cases "due d")
  case False
  then show ?thesis using none_due [of d sines] by (auto simp: cart_transition_active_def)
next
  case True
  have inv: "demo_ok (sys d)" "buffers_ok (px_heap (mem (sys d)))" "displayed_scene d < 6" "scene_index (runtime d) < 6"
    using i by (auto simp: demo_inv_def rt_inv_def)
  obtain t where t: "cart_transition_begin (Some (transition d)) (displayed_scene d) (scene_index (runtime d)) = Some t"
    by (simp add: cart_transition_begin_def)
  have ft: "from_scene t = displayed_scene d" "to_scene t = scene_index (runtime d)" "cart_transition.active t" "\<not> sources_ready t"
    using t True by (auto simp: cart_transition_begin_def)
  obtain s1 where s1: "render_scene_into sines low_canvas low_from (sint (displayed_scene d)) (frame (runtime d)) (sys d) s1"
    using scene_into_exists [OF w inv(3,1,2), of low_from] by auto
  note one = scene_into [OF w inv(3,1,2) _ s1]
  have inv1: "demo_ok s1" "buffers_ok (px_heap (mem s1))" using one(2,3) by simp_all
  obtain s2 where s2: "render_scene_into sines low_canvas low_to (sint (scene_index (runtime d))) (frame (runtime d)) s1 s2"
    using scene_into_exists [OF w inv(4) inv1, of low_to] by auto
  from begun [of d t sines s1 s2] t ft s1 s2 True show ?thesis
    by (auto simp: cart_transition_active_def cart_transition_sources_need_render_def
        cart_transition_mark_sources_rendered_def)
qed

text \<open>The picture and what it does to the fade.\<close>

definition next_transition :: "cart_transition \<Rightarrow> cart_transition" where
  "next_transition t = (if cart_transition.active t then advance_fade t else t)"

lemma blend_low:
  assumes "buffers_ok h"
  shows "cart_transition_blend (Some low) (Some low_from) (Some low_to) 57600 step h = Some (h(low := fade_image step h))"
  using assms blend_writes_frame [of 57600 h low low_from low_to step]
  by (simp add: buffers_ok_def buffer_names)

lemma draw_outcome:
  assumes w: "sine_bounded sines" and r: "ready_to_draw d" and p: "draw_picture sines d d2"
  shows "demo_ok (sys d2) \<and> buffers_ok (px_heap (mem (sys d2))) \<and> runtime d2 = runtime d \<and> pc d2 = pc d \<and>
    transition d2 = next_transition (transition d) \<and>
    displayed_scene d2 = (if cart_transition.active (transition d) \<and> \<not> cart_transition.active (transition d2)
      then to_scene (transition d) else displayed_scene d) \<and>
    px_heap (mem (sys d2)) low_from = px_heap (mem (sys d)) low_from \<and>
    px_heap (mem (sys d2)) low_to = px_heap (mem (sys d)) low_to \<and>
    (if cart_transition.active (transition d)
     then px_heap (mem (sys d2)) low = fade_image (elapsed_frames (transition d)) (px_heap (mem (sys d)))
     else render_inline sines low_canvas (uint (displayed_scene d)) (frame (runtime d)) (px_heap (mem (sys d)))
       = Some (px_heap (mem (sys d2))))"
  using p
proof cases
  case (fading h t)
  have b: "buffers_ok (px_heap (mem (sys d)))" "demo_ok (sys d)" using r by (auto simp: ready_to_draw_def)
  have h: "h = (px_heap (mem (sys d)))(low := fade_image (elapsed_frames (transition d)) (px_heap (mem (sys d))))"
    using fading(3) blend_low [OF b(1)] by simp
  have a: "cart_transition.active (transition d)" using fading(2) by (simp add: cart_transition_active_def)
  then have t: "t = next_transition (transition d)" using fading(4) by (simp add: next_transition_def advance_fade_def)
  have "to_scene t = to_scene (transition d)" using a by (simp add: t next_transition_def advance_fade_unfold)
  moreover have "buffers_ok h" using b(1) by (simp add: h buffers_ok_def buffer_names)
  moreover have "h low_from = px_heap (mem (sys d)) low_from" "h low_to = px_heap (mem (sys d)) low_to"
    by (simp_all add: h buffer_names)
  ultimately show ?thesis using fading(1) a t b(2) h by (simp add: cart_transition_active_def demo_ok_def)
next
  case (steady s)
  have "render_scene_into sines low_canvas low (sint (displayed_scene d)) (frame (runtime d)) (sys d) s"
    using steady(3) by (simp add: render_scene_into_def)
  note o = scene_into [OF w _ _ _ _ this]
  have "displayed_scene d < 6" "demo_ok (sys d)" "buffers_ok (px_heap (mem (sys d)))" using r by (auto simp: ready_to_draw_def)
  note o = o [OF this]
  have "low_from \<noteq> low" "low_to \<noteq> low" by (simp_all add: buffer_names)
  with o steady(1,2) show ?thesis by (auto simp: next_transition_def cart_transition_active_def)
qed

lemma draw_exists:
  assumes w: "sine_bounded sines" and r: "ready_to_draw d"
  shows "\<exists>d2. draw_picture sines d d2"
proof (cases "cart_transition.active (transition d)")
  case True
  have b: "buffers_ok (px_heap (mem (sys d)))" using r by (simp add: ready_to_draw_def)
  obtain t where "cart_transition_advance (Some (transition d)) = Some t"
    by (cases "cart_transition_advance (Some (transition d))")
      (auto simp: cart_transition_advance_def Let_def split: if_splits)
  with fading [OF _ blend_low [OF b]] True show ?thesis by (auto simp: cart_transition_active_def)
next
  case False
  have "displayed_scene d < 6" "demo_ok (sys d)" "buffers_ok (px_heap (mem (sys d)))" using r by (auto simp: ready_to_draw_def)
  from scene_into_exists [OF w this, of low "frame (runtime d)"] obtain s where
    "render_frame sines low_canvas (sint (displayed_scene d)) (frame (runtime d)) (sys d) s"
    by (auto simp: render_scene_into_def)
  with False steady [of d sines s] show ?thesis by (auto simp: cart_transition_active_def)
qed

text \<open>One picture on the screen, as a whole.\<close>

lemma report_frame [simp]:
  "sys (count_picture d) = sys d" "transition (count_picture d) = transition d" "displayed_scene (count_picture d) = displayed_scene d"
  "runtime (count_picture d) = runtime d" "pc (count_picture d) = pc d"
  by (simp_all add: count_picture_def Let_def)

lemma advance_bounds:
  assumes "cart_transition.active t" "unat (elapsed_frames t) < 15"
  shows "elapsed_frames (advance_fade t) = elapsed_frames t + 1" "unat (elapsed_frames t + 1) = Suc (unat (elapsed_frames t))"
    "cart_transition.active (advance_fade t) \<longleftrightarrow> Suc (unat (elapsed_frames t)) < 15"
    "from_scene (advance_fade t) = from_scene t" "to_scene (advance_fade t) = to_scene t"
    "sources_ready (advance_fade t) = sources_ready t"
proof -
  have "elapsed_frames t \<noteq> - 1" using assms(2) by (auto simp: unsigned_minus_1_eq_mask mask_eq_exp_minus_1)
  then show u: "unat (elapsed_frames t + 1) = Suc (unat (elapsed_frames t))" by (rule unat_inc)
  show "elapsed_frames (advance_fade t) = elapsed_frames t + 1" "from_scene (advance_fade t) = from_scene t"
    "to_scene (advance_fade t) = to_scene t" "sources_ready (advance_fade t) = sources_ready t"
    using assms by (simp_all add: advance_fade_unfold)
  show "cart_transition.active (advance_fade t) \<longleftrightarrow> Suc (unat (elapsed_frames t)) < 15"
    using assms u by (auto simp: advance_fade_unfold word_le_nat_alt)
qed

text \<open>The fade after a picture of it.\<close>

lemma next_fade_ok:
  assumes r: "ready_to_draw d" and t: "t = next_transition (transition d)"
    and shown: "cart_transition.active t \<Longrightarrow> shown = displayed_scene d"
    and image: "cart_transition.active (transition d) \<Longrightarrow> h low = fade_image (elapsed_frames (transition d)) h"
  shows "fade_ok t shown h"
proof (cases "cart_transition.active (transition d)")
  case False
  then show ?thesis by (simp add: t fade_ok_def next_transition_def)
next
  case True
  have e: "unat (elapsed_frames (transition d)) < 15" and ft: "from_scene (transition d) = displayed_scene d"
    "from_scene (transition d) \<noteq> to_scene (transition d)" "to_scene (transition d) < 6" "sources_ready (transition d)"
    using True r by (auto simp: ready_to_draw_def)
  note a = advance_bounds [OF True e]
  have "t = advance_fade (transition d)" using True by (simp add: t next_transition_def)
  with a ft shown image [OF True] show ?thesis unfolding fade_ok_def by simp
qed

lemma show_outcome:
  assumes w: "sine_bounded sines" and i: "demo_inv d" and s: "show_frame sines d d'"
  obtains d1 where "begin_transition sines d d1" "demo_inv d'" "runtime d' = runtime d" "pc d' = pc d"
    "transition d' = next_transition (transition d1)"
    "displayed_scene d' = (if cart_transition.active (transition d1) \<and> \<not> cart_transition.active (transition d')
      then to_scene (transition d1) else displayed_scene d)"
    "px_heap (mem (sys d')) fb = upscaled (px_heap (mem (sys d')) low)"
    "px_heap (mem (sys d')) low_from = px_heap (mem (sys d1)) low_from"
    "px_heap (mem (sys d')) low_to = px_heap (mem (sys d1)) low_to"
    "cart_transition.active (transition d1) \<Longrightarrow>
       px_heap (mem (sys d')) low = fade_image (elapsed_frames (transition d1)) (px_heap (mem (sys d1)))"
    "\<not> cart_transition.active (transition d1) \<Longrightarrow> \<exists>h. h low = px_heap (mem (sys d')) low \<and>
       render_inline sines low_canvas (uint (displayed_scene d)) (frame (runtime d)) (px_heap (mem (sys d))) = Some h"
  using s
proof cases
  case (1 d1 d2 h)
  have r: "ready_to_draw d1" and b: "runtime d1 = runtime d" "displayed_scene d1 = displayed_scene d" "pc d1 = pc d"
    and dd: "\<not> cart_transition.active (transition d1) \<Longrightarrow> d1 = d"
    using begin_outcome [OF w i 1(2)] by (simp_all split: if_splits)
  note dr = draw_outcome [OF w r 1(3)]
  then have p: "demo_ok (sys d2)" "buffers_ok (px_heap (mem (sys d2)))" "runtime d2 = runtime d1" "pc d2 = pc d1"
    "transition d2 = next_transition (transition d1)"
    "displayed_scene d2 = (if cart_transition.active (transition d1) \<and> \<not> cart_transition.active (transition d2)
      then to_scene (transition d1) else displayed_scene d1)"
    "px_heap (mem (sys d2)) low_from = px_heap (mem (sys d1)) low_from"
    "px_heap (mem (sys d2)) low_to = px_heap (mem (sys d1)) low_to" by blast+
  have pf: "px_heap (mem (sys d2)) low = fade_image (elapsed_frames (transition d1)) (px_heap (mem (sys d1)))"
    if "cart_transition.active (transition d1)" using dr that by simp
  have ps: "render_inline sines low_canvas (uint (displayed_scene d)) (frame (runtime d)) (px_heap (mem (sys d)))
       = Some (px_heap (mem (sys d2)))" if "\<not> cart_transition.active (transition d1)" using dr that dd by simp
  obtain h' where u: "cart_presentation_upscale (Some fb) (Some low) (Some display_row) (px_heap (mem (sys d2))) = Some h'"
    "buffers_ok h'" "h' fb = upscaled (px_heap (mem (sys d2)) low)" "h' low = px_heap (mem (sys d2)) low"
    "h' low_from = px_heap (mem (sys d2)) low_from" "h' low_to = px_heap (mem (sys d2)) low_to"
    by (rule upscale_screen [OF p(2)]) blast
  have h: "h = h'" using 1(4) u(1) by simp
  have px: "px_heap (mem (sys d')) = h'" "transition d' = transition d2" "displayed_scene d' = displayed_scene d2"
    "runtime d' = runtime d2" "pc d' = pc d2" "demo_ok (sys d')"
    using 1(1) h p(1) by (simp_all add: demo_ok_def)
  have shown: "displayed_scene d' < 6"
    unfolding px(3) p(6) using r by (simp add: ready_to_draw_def)
  have fade: "fade_ok (transition d') (displayed_scene d') (px_heap (mem (sys d')))"
  proof (rule next_fade_ok [OF r])
    show "transition d' = next_transition (transition d1)" by (simp add: px(2) p(5))
    show "displayed_scene d' = displayed_scene d1" if "cart_transition.active (transition d')"
      using that unfolding px(3) p(6) by (simp add: px(2))
    show "px_heap (mem (sys d')) low = fade_image (elapsed_frames (transition d1)) (px_heap (mem (sys d')))"
      if "cart_transition.active (transition d1)" using pf [OF that] u(4-6) p(7,8) px(1) by simp
  qed
  have inv: "demo_inv d'" unfolding demo_inv_def using px(1,6) u(2) shown fade i px(4) p(3) b(1)
    by (simp add: demo_inv_def)
  show thesis
  proof (rule that [OF 1(2) inv])
    show "\<exists>h. h low = px_heap (mem (sys d')) low \<and>
        render_inline sines low_canvas (uint (displayed_scene d)) (frame (runtime d)) (px_heap (mem (sys d))) = Some h"
      if "\<not> cart_transition.active (transition d1)"
      using ps [OF that] u(4) px(1) by (intro exI [of _ "px_heap (mem (sys d2))"]) simp
  qed (use px p(3-8) u(3-6) b pf in simp_all)
qed

lemma show_exists:
  assumes w: "sine_bounded sines" and i: "demo_inv d"
  shows "\<exists>d'. show_frame sines d d'"
proof -
  obtain d1 where d1: "begin_transition sines d d1" using begin_exists [OF assms] by blast
  have r: "ready_to_draw d1" using begin_outcome [OF w i d1] by simp
  obtain d2 where d2: "draw_picture sines d1 d2" using draw_exists [OF w r] by blast
  have "buffers_ok (px_heap (mem (sys d2)))" using draw_outcome [OF w r d2] by simp
  then obtain h where "cart_presentation_upscale (Some fb) (Some low) (Some display_row) (px_heap (mem (sys d2))) = Some h"
    by (rule upscale_screen) blast
  from show_frame.intros [OF d1 d2 this] show ?thesis by blast
qed

section \<open>The loop keeps its invariant\<close>

lemma steps_runtime_pc: "steps_runtime d (d'\<lparr>pc := p\<rparr>) = steps_runtime d d'"
  by (simp add: steps_runtime_def)

lemma pc_last: "d\<lparr>pc := p, now_ns := n, runtime := r\<rparr> = (d\<lparr>now_ns := n, runtime := r\<rparr>)\<lparr>pc := p\<rparr>"
  by simp

text \<open>A step either shows a picture or only steps the runtime.\<close>

lemma loop_step_cases:
  assumes i: "demo_inv d" and st: "demo_step fuel ops sines d d'"
  shows "(pc d = L_Show \<and> pc d' = L_Wait \<and> (\<exists>d1. show_frame sines d d1 \<and> d' = d1\<lparr>pc := L_Wait\<rparr>)) \<or>
    (\<not> (pc d = L_Show \<and> pc d' = L_Wait) \<and> steps_runtime d d')"
  using st
proof cases
  case (deadline_exhausted now status r)
  have "steps_runtime d d'"
    unfolding deadline_exhausted(1) pc_last steps_runtime_pc by (rule tick_steps [OF i deadline_exhausted(3)])
  with deadline_exhausted show ?thesis by auto
next
  case (tick now r d1)
  have "steps_runtime d (d1\<lparr>pc := L_Show\<rparr>)"
    unfolding steps_runtime_pc
    by (rule steps_runtime_trans [OF steps_runtime_trans [OF tick_steps [OF i tick(4)] take_request_steps]
          poll_input_steps [OF tick(5)]])
  with tick show ?thesis by auto
next
  case (slept now r)
  have "steps_runtime d d'"
    unfolding slept(1) pc_last steps_runtime_pc by (rule tick_steps [OF i slept(3)])
  with slept show ?thesis by auto
next
  case (sleep_fails now r)
  have "steps_runtime d d'"
    unfolding sleep_fails(1) pc_last steps_runtime_pc by (rule tick_steps [OF i sleep_fails(3)])
  with sleep_fails show ?thesis by auto
qed (auto intro: steps_runtime_refl)

lemma demo_inv_pc [simp]: "demo_inv (d\<lparr>pc := p\<rparr>) = demo_inv d"
  by (simp add: demo_inv_def)

lemma step_inv:
  assumes w: "sine_bounded sines" and i: "demo_inv d" and st: "demo_step fuel ops sines d d'"
  shows "demo_inv d'"
  using loop_step_cases [OF i st]
proof
  assume "pc d = L_Show \<and> pc d' = L_Wait \<and> (\<exists>d1. show_frame sines d d1 \<and> d' = d1\<lparr>pc := L_Wait\<rparr>)"
  then obtain d1 where s: "show_frame sines d d1" "d' = d1\<lparr>pc := L_Wait\<rparr>" by blast
  have "demo_inv d1" by (rule show_outcome [OF w i s(1)])
  with s(2) show ?thesis by simp
qed (use steps_runtime_inv [OF _ i] in blast)

text \<open>The start of the loop.\<close>

lemma no_job_mem:
  "internal_step\<^sup>*\<^sup>* s s' \<Longrightarrow> job (pool s) = None \<Longrightarrow> mem s' = mem s \<and> job (pool s') = None \<and>
   (main s' \<noteq> M_Failed \<longrightarrow> main s' \<noteq> M_Down \<longrightarrow> rows (pool s') = rows (pool s))"
proof (induction rule: rtranclp_induct)
  case (step y z)
  then have y: "mem y = mem s" "job (pool y) = None"
    "main y \<noteq> M_Failed \<longrightarrow> main y \<noteq> M_Down \<longrightarrow> rows (pool y) = rows (pool s)" by auto
  from step.hyps(2) show ?case unfolding internal_step_def
  proof
    assume "worker_step y z"
    then show ?thesis using y by cases (auto simp: run_band_def pass_start_def pass_stop_def split: bind_splits)
  next
    assume "main_step y z"
    then show ?thesis using y by cases (auto simp: pass_start_def pass_stop_def)
  qed
qed simp

lemma start_inv:
  assumes "demo_start ops w0 d"
  shows "demo_inv d"
  using assms
proof cases
  case (1 xres yres bpp line screen dir fl uninit inp0 n inp w t now ok s0 s r)
  have s0: "job (pool s0) = None" "mem s0 = demo_memory screen" "rows (pool s0) = 180"
    using 1(6) by (auto simp: cart_worker_pool_init_def fresh_pool_def split: prod.splits bool.splits)
  have reach: "pool_reachable s" by (rule reachable_internal [OF 1(7) pool_reachable.start [OF 1(6)]])
  have "mem s = demo_memory screen" "rows (pool s) = 180" using no_job_mem [OF 1(7) s0(1)] s0 1(8) by auto
  moreover have "pool_ready s" by (rule reachable_ready [OF reach 1(8)])
  moreover have "length screen = 921600" using 1(2,3) by (simp add: screen_ok_def)
  ultimately have "demo_ok s" "buffers_ok (px_heap (mem s))"
    by (simp_all add: demo_ok_def demo_memory_def buffers_ok_def buffer_names)
  moreover have "rt_inv r" by (rule rt_inv_init [OF 1(9)])
  moreover have "scene_count r = 6" "scene_index r = 0" using 1(9) by (auto simp: cart_runtime_init_def split: if_splits)
  ultimately show ?thesis using 1(1) by (simp add: demo_inv_def fade_ok_def zero_transition_def)
qed

lemma reachable_demo_inv: "demo_reachable fuel ops sines w0 d \<Longrightarrow> sine_bounded sines \<Longrightarrow> demo_inv d"
  by (induction rule: demo_reachable.induct) (auto intro: start_inv step_inv)

section \<open>Runs\<close>

text \<open>A run of the loop, with the number of pictures it shows.\<close>

inductive demo_run :: "nat \<Rightarrow> 'w cart_input_ops \<Rightarrow> sine_table \<Rightarrow> 'w demo \<Rightarrow> nat \<Rightarrow> 'w demo \<Rightarrow> bool" for fuel ops sines d where
  "demo_run fuel ops sines d 0 d"
| "demo_run fuel ops sines d n d1 \<Longrightarrow> demo_step fuel ops sines d1 d2 \<Longrightarrow>
   demo_run fuel ops sines d (if pc d1 = L_Show \<and> pc d2 = L_Wait then Suc n else n) d2"

lemma show_active:
  assumes w: "sine_bounded sines" and i: "demo_inv d" and a: "cart_transition.active (transition d)" and s: "show_frame sines d d'"
  shows "transition d' = advance_fade (transition d)"
    "displayed_scene d' = (if cart_transition.active (transition d') then displayed_scene d else to_scene (transition d))"
proof -
  obtain d1 where bt: "begin_transition sines d d1" and o: "transition d' = next_transition (transition d1)"
      "displayed_scene d' = (if cart_transition.active (transition d1) \<and> \<not> cart_transition.active (transition d')
        then to_scene (transition d1) else displayed_scene d)"
    by (rule show_outcome [OF w i s]) blast
  have "d1 = d" using begin_outcome [OF w i bt] a by simp
  with o a show "transition d' = advance_fade (transition d)"
    "displayed_scene d' = (if cart_transition.active (transition d') then displayed_scene d else to_scene (transition d))"
    by (simp_all add: next_transition_def)
qed

lemma run_fade:
  assumes w: "sine_bounded sines" and i: "demo_inv d" and a: "cart_transition.active (transition d)"
  defines "e \<equiv> unat (elapsed_frames (transition d))"
  shows "demo_run fuel ops sines d n d' \<Longrightarrow> e + n \<le> 15 \<Longrightarrow> demo_inv d' \<and> to_scene (transition d') = to_scene (transition d) \<and>
    (cart_transition.active (transition d') \<longleftrightarrow> e + n < 15) \<and>
    (e + n < 15 \<longrightarrow> unat (elapsed_frames (transition d')) = e + n) \<and>
    displayed_scene d' = (if e + n < 15 then displayed_scene d else to_scene (transition d))"
proof (induction rule: demo_run.induct)
  case 1
  have "e < 15" using i a by (simp add: demo_inv_def fade_ok_def e_def)
  then show ?case using i a by (simp add: e_def)
next
  case (2 n d1 d2)
  show ?case
  proof (cases "pc d1 = L_Show \<and> pc d2 = L_Wait")
    case False
    with 2 have n: "e + n \<le> 15" by simp
    note ih = "2.IH" [OF n]
    have st: "steps_runtime d1 d2" using loop_step_cases [OF _ "2.hyps"(2)] ih False by blast
    with ih step_inv [OF w _ "2.hyps"(2)] show ?thesis unfolding if_not_P [OF False] by (simp add: steps_runtime_def)
  next
    case True
    with 2 have n: "e + n < 15" by simp
    note ih = "2.IH" [OF less_imp_le [OF n]]
    obtain d3 where s: "show_frame sines d1 d3" "d2 = d3\<lparr>pc := L_Wait\<rparr>"
      using loop_step_cases [OF _ "2.hyps"(2)] ih True by blast
    have act: "cart_transition.active (transition d1)" and el: "unat (elapsed_frames (transition d1)) = e + n"
      and inv1: "demo_inv d1" using ih n by simp_all
    note sa = show_active [OF w inv1 act s(1)]
    have "unat (elapsed_frames (transition d1)) < 15" using el n by simp
    note ab = advance_bounds [OF act this]
    have "demo_inv d2" by (rule step_inv [OF w inv1 "2.hyps"(2)])
    then show ?thesis unfolding if_P [OF True] using s(2) sa ab ih el n by simp
  qed
qed

section \<open>A concrete run\<close>

text \<open>No input device; four workers started in order; a signal asks for the next scene.\<close>

definition started_pool :: "demo_mem \<Rightarrow> demo_sys" where
  "started_pool m = \<lparr>pool = (fresh_pool 4 180)\<lparr>cart_worker_pool.active := True, startup_ready := True, startup_released := 4\<rparr>,
     objects = {Startup_Mutex, Startup_Cond, Start_Barrier, Stop_Barrier}, workers = replicate 4 W_AtStart,
     main = M_Idle, mem = m, ran = [], mem0 = m\<rparr>"

lemma pool_starts:
  "\<exists>s0. cart_worker_pool_init False 4 180 (\<lambda>_. True) m = Inr s0 \<and> internal_step\<^sup>*\<^sup>* s0 (started_pool m)"
proof -
  obtain s0 :: demo_sys where s0: "cart_worker_pool_init False 4 180 (\<lambda>_. True) m = Inr s0"
    "s0 = \<lparr>pool = fresh_pool 4 180, objects = {Startup_Mutex, Startup_Cond, Start_Barrier, Stop_Barrier},
      workers = [W_None, W_None, W_None, W_None], main = M_Create 0, mem = m, ran = [], mem0 = m\<rparr>"
    by (auto simp: cart_worker_pool_init_def create_objects_def Let_def numeral_eq_Suc)
  have "exec [Main, Main, Main, Main, Main, Worker 0, Worker 1, Worker 2, Worker 3, Main] s0 = Some (started_pool m)"
    by (simp add: s0(2) exec_simps fresh_pool_def started_pool_def numeral_eq_Suc)
  from exec_steps [OF this] s0(1) show ?thesis by blast
qed

definition first_runtime :: cart_runtime where
  "first_runtime = the (snd (cart_runtime_init False cart_scene_count 0 (1000000000 div 30) (8 * 1000000000) 500000000))"

definition first_state :: "nat demo" where
  "first_state = \<lparr>pc = L_Top, sys = started_pool (demo_memory (replicate 921600 0)), runtime = first_runtime,
     transition = zero_transition, displayed_scene = scene_index first_runtime, input = zero_input, dev = 0,
     flags = \<lparr>running = True, next_scene_requested = False\<rparr>, now_ns = 0,
     rendered_frames = 0, report_frame = 0, report_start_ns = 0\<rparr>"

lemma first_start: "demo_start quiet_ops 0 first_state"
proof -
  obtain s0 where s0: "cart_worker_pool_init False 4 180 (\<lambda>_. True) (demo_memory (replicate 921600 0)) = Inr s0"
    "internal_step\<^sup>*\<^sup>* s0 (started_pool (demo_memory (replicate 921600 0)))" using pool_starts by blast
  have r: "cart_runtime_init False cart_scene_count 0 (1000000000 div 30) (8 * 1000000000) 500000000 = (0, Some first_runtime)"
    by (simp add: first_runtime_def cart_runtime_init_def)
  show ?thesis unfolding first_state_def
    by (rule demo_start.intros [OF _ _ _ _ s0 _ r, where xres = 1280 and yres = 720 and bpp = 32 and line = 5120
          and dir = "\<lambda>_. Inl 2" and inp0 = zero_input and t = "\<lparr>tv_sec = 0, tv_nsec = 0\<rparr>"])
      (simp_all add: screen_ok_def cart_input_init_ex_def discover_pass_def ENOENT_def monotonic_now_ns_def started_pool_def)
qed

lemma quiet_poll: "\<exists>fr. cart_input_poll 1 quiet_ops False True (Some zero_input) w = Some (0, Some CART_INPUT_NONE, Some fr, Some zero_input, w)"
proof -
  have "poll_sources 1 quiet_ops [0..<4] zero_input w = Some (zero_input, w)"
    by (simp add: upt_rec numeral_eq_Suc zero_input_def reset_source_def)
  moreover have "pop_pending (pending zero_input) = (CART_INPUT_NONE, pending zero_input)"
    by (simp add: pop_pending_def zero_input_def)
  moreover obtain fr where "build_frame zero_input = Some fr" by (rule build_frame_ok [OF zero_input_ok])
  ultimately show ?thesis by (simp add: cart_input_poll_def poll_body_def)
qed

lemma first_tick:
  obtains r where "cart_runtime_tick (Some first_runtime) 0 = (0, Some r)" "scene_index r = 0" "\<not> had_change r" "scene_count r = 6"
  by (simp add: first_runtime_def cart_runtime_init_def cart_runtime_tick_def tick_scene_def tick_deadline_def Let_def)

lemma fading_reachable:
  "\<exists>d. demo_reachable 1 quiet_ops flat_sines 0 d \<and> cart_transition.active (transition d) \<and> unat (elapsed_frames (transition d)) = 1"
proof -
  let ?R = "demo_reachable 1 quiet_ops flat_sines 0"
  let ?d1 = "first_state\<lparr>flags := on_signal 10 (flags first_state)\<rparr>"
  have w: "sine_bounded flat_sines" by (rule flat_sines_bounded)
  have r0: "?R first_state" by (rule demo_reachable.intros(1) [OF first_start])
  have r1: "?R ?d1"
    by (rule demo_reachable.intros(2) [OF r0]) (rule signalled, simp add: first_state_def)
  obtain r where r: "cart_runtime_tick (Some first_runtime) 0 = (0, Some r)" "scene_index r = 0" "\<not> had_change r" "scene_count r = 6"
    by (rule first_tick)
  let ?d2 = "take_request (?d1\<lparr>now_ns := 0, runtime := r\<rparr>)"
  have d2: "input ?d2 = zero_input" "transition ?d2 = zero_transition" "displayed_scene ?d2 = 0" "scene_index (runtime ?d2) = 1"
    using r by (simp_all add: take_request_def first_state_def on_signal_def first_runtime_def cart_runtime_init_def
        cart_runtime_request_next_def change_allowed_def hold_scene_def record_change_def Let_def)
  obtain fr where "cart_input_poll 1 quiet_ops False True (Some (input ?d2)) (dev ?d2) =
      Some (0, Some CART_INPUT_NONE, Some fr, Some zero_input, dev ?d2)" unfolding d2(1) using quiet_poll by blast
  then have p: "poll_input 1 quiet_ops ?d2 = Some (?d2\<lparr>input := zero_input, dev := dev ?d2\<rparr>)"
    by (simp add: poll_input_def handle_action_def)
  let ?d3 = "?d2\<lparr>input := zero_input, dev := dev ?d2, pc := L_Show\<rparr>"
  have r3: "?R ?d3"
    by (rule demo_reachable.intros(2) [OF r1], rule tick [OF _ _ _ p]) (use r in \<open>simp_all add: first_state_def on_signal_def\<close>)
  have i3: "demo_inv ?d3" by (rule reachable_demo_inv [OF r3 w])
  obtain d4 where s: "show_frame flat_sines ?d3 d4" using show_exists [OF w i3] by blast
  have r4: "?R (d4\<lparr>pc := L_Wait\<rparr>)"
    by (rule demo_reachable.intros(2) [OF r3], rule show_picture [OF _ s]) simp
  obtain d5 where b: "begin_transition flat_sines ?d3 d5" and o: "transition d4 = next_transition (transition d5)"
    by (rule show_outcome [OF w i3 s]) blast
  have due: "due ?d3" using d2 by (simp add: zero_transition_def)
  have "cart_transition.active (transition d5)" "elapsed_frames (transition d5) = 0"
    using begin_outcome [OF w i3 b] due by simp_all
  with advance_bounds [OF this(1)] o have "cart_transition.active (transition d4)" "unat (elapsed_frames (transition d4)) = 1"
    by (simp_all add: next_transition_def)
  with r4 show ?thesis by (intro exI [of _ "d4\<lparr>pc := L_Wait\<rparr>"]) simp
qed

section \<open>Theorems\<close>

text \<open>
  Claim C7. In every state the running demo can reach, whatever the clock, the signals and the input
  devices do, the pool is ready for a dispatch, all buffers keep their sizes, the displayed and the
  selected scene exist, and a fade in progress leads from the displayed scene to another one with
  both endpoints sampled; so no step of the picture is ever undefined: a state that is due to show
  a picture can show one.
\<close>

theorem demo_loop_invariant:
  assumes "sine_bounded sines" "demo_reachable fuel ops sines w0 d"
  shows "demo_ok (sys d) \<and> buffers_ok (px_heap (mem (sys d))) \<and> displayed_scene d < 6 \<and> scene_index (runtime d) < 6 \<and>
    fade_ok (transition d) (displayed_scene d) (px_heap (mem (sys d))) \<and> (\<exists>d'. show_frame sines d d')"
  using reachable_demo_inv [OF assms(2,1)] show_exists [OF assms(1) reachable_demo_inv [OF assms(2,1)]]
  by (auto simp: demo_inv_def rt_inv_def)

theorem demo_loop_invariant_witness:
  "displayed_scene first_state < 6 \<and> (\<exists>d'. show_frame flat_sines first_state d')"
proof -
  have "sine_bounded flat_sines" by (rule flat_sines_bounded)
  from demo_loop_invariant [OF this demo_reachable.intros(1) [OF first_start]] show ?thesis by simp
qed

text \<open>
  Claim C4. What reaches the screen: after a picture the framebuffer is the logical frame with every
  pixel as a 4 by 4 block. The logical frame is, when no scene change is due, the displayed scene at
  the current frame; during a fade the blend of the two sampled scenes at the elapsed step; and when
  a change is due the first step of a fade whose endpoints are the displayed and the selected scene,
  both sampled at the current frame. There is no other picture, so a scene change is never a hard cut.
\<close>

theorem screen_shows_picture:
  assumes w: "sine_bounded sines" and r: "demo_reachable fuel ops sines w0 d" and s: "show_frame sines d d'"
  shows "let h = px_heap (mem (sys d)); h' = px_heap (mem (sys d')); t = transition d in
    h' fb = upscaled (h' low) \<and>
    (\<not> cart_transition.active t \<and> scene_index (runtime d) = displayed_scene d \<longrightarrow>
       displayed_scene d' = displayed_scene d \<and> \<not> cart_transition.active (transition d') \<and>
       (\<exists>g. render_inline sines low_canvas (uint (displayed_scene d)) (frame (runtime d)) h = Some g \<and> h' low = g low)) \<and>
    (cart_transition.active t \<longrightarrow> h' low = fade_image (elapsed_frames t) h \<and> transition d' = advance_fade t) \<and>
    (\<not> cart_transition.active t \<and> scene_index (runtime d) \<noteq> displayed_scene d \<longrightarrow>
       displayed_scene d' = displayed_scene d \<and> h' low = h' low_from \<and>
       to_scene (transition d') = scene_index (runtime d) \<and> elapsed_frames (transition d') = 1 \<and>
       (\<exists>g1 g2. render_inline sines (low_canvas\<lparr>pixels := Some low_from\<rparr>) (uint (displayed_scene d)) (frame (runtime d)) h = Some g1 \<and>
          render_inline sines (low_canvas\<lparr>pixels := Some low_to\<rparr>) (uint (scene_index (runtime d))) (frame (runtime d)) g1 = Some g2 \<and>
          h' low_from = g2 low_from \<and> h' low_to = g2 low_to))"
proof -
  have i: "demo_inv d" by (rule reachable_demo_inv [OF r w])
  obtain d1 where b: "begin_transition sines d d1"
    and o: "transition d' = next_transition (transition d1)"
      "displayed_scene d' = (if cart_transition.active (transition d1) \<and> \<not> cart_transition.active (transition d')
        then to_scene (transition d1) else displayed_scene d)"
      "px_heap (mem (sys d')) fb = upscaled (px_heap (mem (sys d')) low)"
      "px_heap (mem (sys d')) low_from = px_heap (mem (sys d1)) low_from"
      "px_heap (mem (sys d')) low_to = px_heap (mem (sys d1)) low_to"
    and f: "cart_transition.active (transition d1) \<Longrightarrow>
       px_heap (mem (sys d')) low = fade_image (elapsed_frames (transition d1)) (px_heap (mem (sys d1)))"
    and n: "\<not> cart_transition.active (transition d1) \<Longrightarrow> \<exists>h. h low = px_heap (mem (sys d')) low \<and>
       render_inline sines low_canvas (uint (displayed_scene d)) (frame (runtime d)) (px_heap (mem (sys d))) = Some h"
    by (rule show_outcome [OF w i s]) blast
  note bo = begin_outcome [OF w i b]
  show ?thesis
  proof (cases "due d")
    case False
    then have d1: "d1 = d" using bo by simp
    show ?thesis unfolding Let_def using False o f n unfolding d1 by (auto simp: next_transition_def)
  next
    case True
    then have t: "cart_transition.active (transition d1)" "elapsed_frames (transition d1) = 0"
      "to_scene (transition d1) = scene_index (runtime d)"
      and g: "\<exists>g1. render_inline sines (low_canvas\<lparr>pixels := Some low_from\<rparr>) (uint (displayed_scene d)) (frame (runtime d))
              (px_heap (mem (sys d))) = Some g1 \<and>
            render_inline sines (low_canvas\<lparr>pixels := Some low_to\<rparr>) (uint (scene_index (runtime d))) (frame (runtime d)) g1
              = Some (px_heap (mem (sys d1)))"
      and bu: "buffers_ok (px_heap (mem (sys d1)))" using bo by (auto simp: ready_to_draw_def)
    have a: "elapsed_frames (transition d') = 1" "cart_transition.active (transition d')" "to_scene (transition d') = scene_index (runtime d)"
      using advance_bounds [OF t(1)] t o(1) by (simp_all add: next_transition_def)
    have "fade_image 0 (px_heap (mem (sys d1))) = px_heap (mem (sys d1)) low_from"
      using bu by (intro nth_equalityI) (auto simp: buffers_ok_def fade_pixel_def weight_eq weight_table_def)
    with f t o(4) have "px_heap (mem (sys d')) low = px_heap (mem (sys d')) low_from" by simp
    with True a o g show ?thesis unfolding Let_def by auto
  qed
qed

theorem screen_shows_picture_witness:
  "\<exists>d'. show_frame flat_sines first_state d' \<and>
     px_heap (mem (sys d')) fb = upscaled (px_heap (mem (sys d')) low) \<and> displayed_scene d' = 0"
proof -
  have w: "sine_bounded flat_sines" by (rule flat_sines_bounded)
  have r: "demo_reachable 1 quiet_ops flat_sines 0 first_state" by (rule demo_reachable.intros(1) [OF first_start])
  obtain d' where s: "show_frame flat_sines first_state d'" using show_exists [OF w reachable_demo_inv [OF r w]] by blast
  have "\<not> cart_transition.active (transition first_state)" "displayed_scene first_state = 0"
    "scene_index (runtime first_state) = displayed_scene first_state"
    by (simp_all add: first_state_def zero_transition_def first_runtime_def cart_runtime_init_def)
  with screen_shows_picture [OF w r s] s show ?thesis by (auto simp: Let_def)
qed

text \<open>
  Claim C6. The photosensitivity guarantee of the running program: during a fade no channel of any
  pixel of the logical frame changes by more than 26 of 255 from one picture to the next.
\<close>

theorem fade_pictures_never_flash:
  assumes w: "sine_bounded sines" and r: "demo_reachable fuel ops sines w0 d" and s: "show_frame sines d d'"
    and a: "cart_transition.active (transition d)" and ik: "i < 57600" "k < 3"
  shows "\<bar>chan k (px_heap (mem (sys d')) low ! i) - chan k (px_heap (mem (sys d)) low ! i)\<bar> \<le> 26"
proof -
  have inv: "demo_inv d" by (rule reachable_demo_inv [OF r w])
  let ?h = "px_heap (mem (sys d))" and ?e = "elapsed_frames (transition d)"
  have b: "buffers_ok ?h" and l: "?h low = fade_image (?e - 1) ?h" and e: "1 \<le> unat ?e"
    using inv a by (auto simp: demo_inv_def fade_ok_def)
  obtain d1 where bt: "begin_transition sines d d1"
    and f: "cart_transition.active (transition d1) \<Longrightarrow>
       px_heap (mem (sys d')) low = fade_image (elapsed_frames (transition d1)) (px_heap (mem (sys d1)))"
    by (rule show_outcome [OF w inv s]) blast
  have "d1 = d" using begin_outcome [OF w inv bt] a by simp
  with f a have l': "px_heap (mem (sys d')) low = fade_image ?e ?h" by simp
  have "?e - 1 \<noteq> - 1" using e by auto
  from fade_pixel_step [OF ik(2) this] l l' b ik(1) show ?thesis by (simp add: buffers_ok_def)
qed

text \<open>
  Claim C5. A fade always completes: from any reachable state with a fade in progress after \<open>e\<close> of its
  15 pictures, every run that shows \<open>n\<close> more pictures, interleaved with any ticks, requests, polls and
  signals, is at picture \<open>e + n\<close> of the same fade as long as that is below 15, with the old scene
  still displayed; at the fifteenth picture the fade is over and its target is the displayed scene.
\<close>

theorem fade_completes:
  assumes "sine_bounded sines" "demo_reachable fuel ops sines w0 d" "cart_transition.active (transition d)"
    and "demo_run fuel ops sines d n d'" "unat (elapsed_frames (transition d)) + n \<le> 15"
  shows "(unat (elapsed_frames (transition d)) + n < 15 \<longrightarrow> cart_transition.active (transition d') \<and>
      unat (elapsed_frames (transition d')) = unat (elapsed_frames (transition d)) + n \<and> displayed_scene d' = displayed_scene d) \<and>
    (unat (elapsed_frames (transition d)) + n = 15 \<longrightarrow> \<not> cart_transition.active (transition d') \<and>
      displayed_scene d' = to_scene (transition d))"
  using run_fade [OF assms(1) reachable_demo_inv [OF assms(2,1)] assms(3,4,5)] by simp

theorem fade_completes_witness:
  "\<exists>d. demo_reachable 1 quiet_ops flat_sines 0 d \<and> cart_transition.active (transition d) \<and>
     demo_run 1 quiet_ops flat_sines d 0 d \<and>
     (\<forall>d'. demo_run 1 quiet_ops flat_sines d 14 d' \<longrightarrow> displayed_scene d' = to_scene (transition d))"
proof -
  have w: "sine_bounded flat_sines" by (rule flat_sines_bounded)
  obtain d where d: "demo_reachable 1 quiet_ops flat_sines 0 d" "cart_transition.active (transition d)"
    "unat (elapsed_frames (transition d)) = 1" using fading_reachable by blast
  have "demo_run 1 quiet_ops flat_sines d 0 d" by (rule demo_run.intros(1))
  with fade_completes [OF w d(1,2)] d show ?thesis by auto
qed

theorem fade_pictures_never_flash_witness:
  "\<exists>d d'. demo_reachable 1 quiet_ops flat_sines 0 d \<and> show_frame flat_sines d d' \<and>
     \<bar>chan 0 (px_heap (mem (sys d')) low ! 5) - chan 0 (px_heap (mem (sys d)) low ! 5)\<bar> \<le> 26"
proof -
  have w: "sine_bounded flat_sines" by (rule flat_sines_bounded)
  obtain d where d: "demo_reachable 1 quiet_ops flat_sines 0 d" "cart_transition.active (transition d)"
    using fading_reachable by blast
  obtain d' where s: "show_frame flat_sines d d'" using show_exists [OF w reachable_demo_inv [OF d(1) w]] by blast
  from fade_pictures_never_flash [OF w d(1) s d(2), of 5 0] d(1) s show ?thesis by auto
qed

end
