(* ===== verification/V01_Program.thy ===== *)
theory V01_Program
  imports V01_Scenes Demo_Loop
begin

text \<open>
  The program around the drawing code of the first release
  (\<^verbatim>\<open>cart/provenance/v0.1/pstv-demo-cart.c\<close>, lines 314 to 385): enlargement, image dump, signal handler,
  command line and main loop. The loop counts frames in an \<^verbatim>\<open>int\<close>, picks the scene from the
  frame number unless a request holds one, and has neither rate limit nor fades; the theorems say what
  it shows, and how it differs from the current program. Messages on the error stream are not
  modelled.
\<close>

section \<open>Enlargement and dump\<close>

text \<open>
  The scratch row is a local array of \<^verbatim>\<open>upscale\<close> with indeterminate contents \<open>junk\<close>; it lives at
  an address of its own and is gone afterwards.
\<close>

definition row_local :: addr where "row_local = 5"

definition v01_fill_row :: "int \<Rightarrow> heap \<Rightarrow> heap option" where
  "v01_fill_row y = for_int 0 LW (\<lambda>x. for_int 0 4 (\<lambda>k h. do {
     c \<leftarrow> peek low (nat (y * LW + x)) h;
     poke row_local (nat (x * 4 + k)) c h
   }))"

definition v01_upscale :: "u32 list \<Rightarrow> addr \<Rightarrow> heap \<Rightarrow> heap option" where
  "v01_upscale junk dst h = do {
     h' \<leftarrow> for_int 0 LH (\<lambda>y h. do {
       h \<leftarrow> v01_fill_row y h;
       for_int 0 4 (\<lambda>k. blit dst (nat ((y * 4 + k) * 1280)) row_local 1280) h
     }) (h(row_local := junk));
     Some (h'(row_local := h row_local))
   }"

text \<open>
  \<^verbatim>\<open>dump_ppm\<close>: the file is opened or not; the results of \<^verbatim>\<open>fprintf\<close>, \<^verbatim>\<open>fwrite\<close> and \<^verbatim>\<open>fclose\<close> are not
  tested, so a file that opens is written and 0 is returned.
\<close>

definition v01_dump_pixels :: "heap \<Rightarrow> u8 list" where
  "v01_dump_pixels h =
     concat (map (\<lambda>y. concat (map (\<lambda>ky. concat (map (\<lambda>x. concat (map (\<lambda>kx.
       let c = h low ! (y * 320 + x) in [ucast (c AND 255), ucast (drop_bit 8 c AND 255), ucast (drop_bit 16 c AND 255)])
       [0..<4])) [0..<320])) [0..<4])) [0..<180])"

definition v01_dump_ppm :: "bool \<Rightarrow> heap \<Rightarrow> int \<times> u8 list option" where
  "v01_dump_ppm file_opens h =
     (if \<not> file_opens then (1, None)
      else (0, Some (bytes_of (''P6'' @ [CHR 10] @ dec 1280 @ '' '' @ dec 720 @ [CHR 10] @ ''255'' @ [CHR 10])
                     @ v01_dump_pixels h)))"

section \<open>Signals and command line\<close>

definition v01_on_signal :: "int \<Rightarrow> demo_flags \<Rightarrow> demo_flags" where
  "v01_on_signal sig f = (if sig = SIGUSR1 then f\<lparr>next_scene_requested := True\<rparr> else f\<lparr>running := False\<rparr>)"

fun v01_arguments :: "string list \<Rightarrow> demo_options \<Rightarrow> demo_options option" where
  "v01_arguments [] opts = Some opts"
| "v01_arguments [a] opts = Some opts"
| "v01_arguments (a # v # rest) opts =
     (if a = ''--dump'' then v01_arguments rest (opts\<lparr>dump := Some v\<rparr>)
      else if a = ''--scene'' then do { n \<leftarrow> atoi v; v01_arguments rest (opts\<lparr>dump_scene := n smod SCENES\<rparr>) }
      else if a = ''--frame'' then do { n \<leftarrow> atoi v; v01_arguments rest (opts\<lparr>dump_frame := n\<rparr>) }
      else v01_arguments (v # rest) opts)"

section \<open>The loop\<close>

datatype v01_pc = V_Top | V_Draw | V_Exit

text \<open>
  The state of the loop. \<open>sleep_until\<close> is the absolute deadline of the next frame. The input device is
  open or not; what it delivers to the \<^verbatim>\<open>read\<close> loop of an iteration is chosen by the environment, as a
  list of the complete events before the first short read.
\<close>

record v01_event =
  ev_type :: u16
  ev_code :: u16
  ev_value :: int

record v01_state =
  v01_point :: v01_pc
  v01_heap :: heap
  v01_flags :: demo_flags
  scene :: int
  frame_no :: int
  manual_hold :: int
  sleep_until :: timespec
  v01_report_frame :: int

abbreviation (input) EV_KEY_CODE :: u16 where "EV_KEY_CODE \<equiv> 1"
abbreviation (input) KEY_ESC_CODE :: u16 where "KEY_ESC_CODE \<equiv> 1"
abbreviation (input) KEY_Q_CODE :: u16 where "KEY_Q_CODE \<equiv> 16"

definition v01_take_request :: "v01_state \<Rightarrow> v01_state" where
  "v01_take_request d =
     (if next_scene_requested (v01_flags d)
      then d\<lparr>scene := (scene d + 1) smod SCENES, manual_hold := 30 * 3600,
             v01_flags := (v01_flags d)\<lparr>next_scene_requested := False\<rparr>\<rparr>
      else d)"

definition v01_schedule :: "v01_state \<Rightarrow> v01_state" where
  "v01_schedule d = (if manual_hold d = 0 then d\<lparr>scene := (frame_no d sdiv (30 * 8)) smod SCENES\<rparr> else d)"

definition v01_key :: "v01_event \<Rightarrow> v01_state \<Rightarrow> v01_state" where
  "v01_key ev d =
     (if ev_type ev = EV_KEY_CODE \<and> ev_value ev = 1
      then if ev_code ev = KEY_ESC_CODE \<or> ev_code ev = KEY_Q_CODE then d\<lparr>v01_flags := (v01_flags d)\<lparr>running := False\<rparr>\<rparr>
           else d\<lparr>scene := (scene d + 1) smod SCENES, manual_hold := 30 * 8\<rparr>
      else d)"

definition v01_read_input :: "bool \<Rightarrow> v01_event list \<Rightarrow> v01_state \<Rightarrow> v01_state" where
  "v01_read_input infd_open evs d = (if infd_open then fold v01_key evs d else d)"

definition v01_count_hold :: "v01_state \<Rightarrow> v01_state" where
  "v01_count_hold d = (if manual_hold d > 0 then d\<lparr>manual_hold := manual_hold d - 1\<rparr> else d)"

text \<open>Everything of an iteration before the frame is drawn.\<close>

definition v01_before :: "bool \<Rightarrow> v01_event list \<Rightarrow> v01_state \<Rightarrow> v01_state" where
  "v01_before infd_open evs d = v01_count_hold (v01_read_input infd_open evs (v01_schedule (v01_take_request d)))"

definition v01_next_deadline :: "timespec \<Rightarrow> timespec option" where
  "v01_next_deadline nx = do {
     n \<leftarrow> i32 (tv_nsec nx + 1000000000 div 30);
     if n \<ge> 1000000000 then do { s \<leftarrow> i32 (tv_sec nx + 1); Some \<lparr>tv_sec = s, tv_nsec = n - 1000000000\<rparr> }
     else Some (nx\<lparr>tv_nsec := n\<rparr>)
   }"

text \<open>
  One iteration: the bookkeeping, then the frame, the enlargement, the counters and the deadline of
  the sleep, whose result is ignored. Signals may arrive at any point.
\<close>

inductive v01_loop :: "sine_table \<Rightarrow> bool \<Rightarrow> v01_state \<Rightarrow> v01_state \<Rightarrow> bool" for sines infd_open where
  stop: "v01_point d = V_Top \<Longrightarrow> \<not> running (v01_flags d) \<Longrightarrow> v01_loop sines infd_open d (d\<lparr>v01_point := V_Exit\<rparr>)"
| begin_frame: "v01_point d = V_Top \<Longrightarrow> running (v01_flags d) \<Longrightarrow>
    v01_loop sines infd_open d ((v01_before infd_open evs d)\<lparr>v01_point := V_Draw\<rparr>)"
| draw_frame: "v01_point d = V_Draw \<Longrightarrow> v01_render_frame sines (scene d) (frame_no d) (v01_heap d) h \<Longrightarrow>
    length junk = 1280 \<Longrightarrow> v01_upscale junk fb h = Some h' \<Longrightarrow> i32 (frame_no d + 1) = Some n \<Longrightarrow>
    v01_next_deadline (sleep_until d) = Some nx \<Longrightarrow>
    v01_loop sines infd_open d (d\<lparr>v01_point := V_Top, v01_heap := h', frame_no := n, sleep_until := nx,
      v01_report_frame := (if n - v01_report_frame d \<ge> 300 then n else v01_report_frame d)\<rparr>)"
| signalled: "v01_point d \<noteq> V_Exit \<Longrightarrow> v01_loop sines infd_open d (d\<lparr>v01_flags := v01_on_signal sig (v01_flags d)\<rparr>)"

section \<open>The program\<close>

text \<open>What the program finds: the framebuffer device, its geometry and mapping, the input device, the clock.\<close>

record v01_env =
  fb_opens :: bool
  fb_info :: "(u32 \<times> u32 \<times> u32 \<times> u32) option"
  fb_mapping :: "u32 list option"
  input_opens :: bool
  clock_start :: timespec
  file_opens :: bool

definition v01_memory :: "u32 list \<Rightarrow> heap" where
  "v01_memory screen = (\<lambda>_. [])(low := replicate 57600 0, fb := screen)"

definition v01_start :: "timespec \<Rightarrow> u32 list \<Rightarrow> v01_state" where
  "v01_start now screen =
     \<lparr>v01_point = V_Top, v01_heap = v01_memory screen,
      v01_flags = \<lparr>running = True, next_scene_requested = False\<rparr>, scene = 0, frame_no = 0, manual_hold = 0,
      sleep_until = now, v01_report_frame = 0\<rparr>"

text \<open>
  \<^verbatim>\<open>main\<close>: exit status and, in dump mode, the file that was written. A failure before the loop returns 1
  at once, leaving what is open to the end of the process.
\<close>

inductive v01_main :: "sine_table \<Rightarrow> v01_env \<Rightarrow> string list \<Rightarrow> int \<Rightarrow> u8 list option \<Rightarrow> bool" for sines env where
  dumped: "v01_arguments args default_options = Some opts \<Longrightarrow> dump opts \<noteq> None \<Longrightarrow>
    v01_render_frame sines (dump_scene opts) (dump_frame opts) (v01_memory []) h \<Longrightarrow>
    v01_dump_ppm (file_opens env) h = (status, written) \<Longrightarrow> v01_main sines env args status written"
| no_fb: "v01_arguments args default_options = Some opts \<Longrightarrow> dump opts = None \<Longrightarrow> \<not> fb_opens env \<Longrightarrow>
    v01_main sines env args 1 None"
| no_info: "v01_arguments args default_options = Some opts \<Longrightarrow> dump opts = None \<Longrightarrow> fb_opens env \<Longrightarrow>
    fb_info env = None \<Longrightarrow> v01_main sines env args 1 None"
| wrong_screen: "v01_arguments args default_options = Some opts \<Longrightarrow> dump opts = None \<Longrightarrow> fb_opens env \<Longrightarrow>
    fb_info env = Some (xres, yres, bits, line) \<Longrightarrow>
    xres \<noteq> 1280 \<or> yres \<noteq> 720 \<or> bits \<noteq> 32 \<or> line \<noteq> 1280 * 4 \<Longrightarrow> v01_main sines env args 1 None"
| no_mapping: "v01_arguments args default_options = Some opts \<Longrightarrow> dump opts = None \<Longrightarrow> fb_opens env \<Longrightarrow>
    fb_info env = Some (1280, 720, 32, 1280 * 4) \<Longrightarrow> fb_mapping env = None \<Longrightarrow> v01_main sines env args 1 None"
| ran: "v01_arguments args default_options = Some opts \<Longrightarrow> dump opts = None \<Longrightarrow> fb_opens env \<Longrightarrow>
    fb_info env = Some (1280, 720, 32, 1280 * 4) \<Longrightarrow> fb_mapping env = Some screen \<Longrightarrow> length screen = 921600 \<Longrightarrow>
    (v01_loop sines (input_opens env))\<^sup>*\<^sup>* (v01_start (clock_start env) screen) d \<Longrightarrow> v01_point d = V_Exit \<Longrightarrow>
    v01_main sines env args 0 None"

section \<open>The dump\<close>

text \<open>Nested loops over an interval are one loop over its product.\<close>

lemma concat_grid:
  assumes "0 < (n :: nat)"
  shows "concat (map (\<lambda>i. concat (map (\<lambda>j. f (i * n + j)) [0..<n])) [0..<m]) = concat (map f [0..<m * n])"
proof (induction m)
  case (Suc m)
  have "[0..<Suc m * n] = [0..<m * n] @ map (\<lambda>j. m * n + j) [0..<n]"
    using upt_add_eq_append [of 0 "m * n" n] by (simp add: map_add_upt add.commute)
  with Suc show ?case by (simp add: comp_def)
qed simp

lemma dump_is_screen: "v01_dump_pixels h = concat (map rgb_bytes (upscaled (h low)))"
proof -
  let ?f = "\<lambda>y x. rgb_bytes (h low ! (y * 320 + x))"
  have row: "concat (map (\<lambda>x. concat (map (\<lambda>kx. ?f y x) [0..<4])) [0..<320]) = concat (map (\<lambda>X. ?f y (X div 4)) [0..<1280])" for y
  proof -
    have "concat (map (\<lambda>x. concat (map (\<lambda>kx. ?f y x) [0..<4])) [0..<320]) =
        concat (map (\<lambda>x. concat (map (\<lambda>kx. ?f y ((x * 4 + kx) div 4)) [0..<4])) [0..<320])"
      by (intro arg_cong [where f = concat] map_cong refl) simp
    then show ?thesis using concat_grid [of 4 "\<lambda>X. ?f y (X div 4)" 320] by simp
  qed
  have rows: "concat (map (\<lambda>ky. concat (map (\<lambda>X. ?f y (X div 4)) [0..<1280])) [0..<4]) =
      concat (map (\<lambda>j. ?f y (j mod 1280 div 4)) [0..<5120])" for y
  proof -
    have "concat (map (\<lambda>ky. concat (map (\<lambda>X. ?f y (X div 4)) [0..<1280])) [0..<4]) =
        concat (map (\<lambda>ky. concat (map (\<lambda>X. ?f y ((ky * 1280 + X) mod 1280 div 4)) [0..<1280])) [0..<4])"
      by (intro arg_cong [where f = concat] map_cong refl) simp
    then show ?thesis using concat_grid [of 1280 "\<lambda>j. ?f y (j mod 1280 div 4)" 4] by simp
  qed
  have "concat (map (\<lambda>y. concat (map (\<lambda>j. ?f y (j mod 1280 div 4)) [0..<5120])) [0..<180]) =
      concat (map (\<lambda>y. concat (map (\<lambda>j. ?f ((y * 5120 + j) div 5120) ((y * 5120 + j) mod 1280 div 4)) [0..<5120])) [0..<180])"
  proof (intro arg_cong [where f = concat] map_cong refl)
    fix y j :: nat assume "j \<in> set [0..<5120]"
    moreover have "(y * 5120 + j) mod 1280 = j mod 1280" using mod_mult_self3 [of "y * 4" 1280 j] by (simp add: mult.commute)
    ultimately show "?f y (j mod 1280 div 4) = ?f ((y * 5120 + j) div 5120) ((y * 5120 + j) mod 1280 div 4)" by simp
  qed
  also have "\<dots> = concat (map (\<lambda>j. ?f (j div 5120) (j mod 1280 div 4)) [0..<921600])"
    using concat_grid [of 5120 "\<lambda>j. ?f (j div 5120) (j mod 1280 div 4)" 180] by simp
  finally show ?thesis
    by (simp add: v01_dump_pixels_def Let_def upscaled_def comp_def row rows flip: rgb_bytes_def)
qed

lemma dump_ppm_same: "v01_dump_ppm opens h = dump_ppm opens h" "dump_pixels h = concat (map rgb_bytes (upscaled (h low)))"
proof -
  have e: "v01_dump_pixels h = dump_pixels h" by (simp add: v01_dump_pixels_def dump_pixels_def rgb_bytes_def Let_def)
  then show "v01_dump_ppm opens h = dump_ppm opens h" by (simp add: v01_dump_ppm_def dump_ppm_def)
  show "dump_pixels h = concat (map rgb_bytes (upscaled (h low)))" unfolding e [symmetric] by (rule dump_is_screen)
qed

lemma arguments_same: "v01_arguments args opts = parse_arguments args opts"
  by (induction args opts rule: v01_arguments.induct) (simp_all cong: Option.bind_cong)

text \<open>The frame depends on the logical buffer only.\<close>

lemma inline_local:
  assumes w: "sine_bounded sines" "0 \<le> which" "which < 6" and h: "frame_backed low h" "g low = h low"
    and r: "render_inline sines low_canvas which fr h = Some h'" "render_inline sines low_canvas which fr g = Some g'"
  shows "g' low = h' low"
proof -
  let ?t = "legacy_frame_phase fr"
  let ?F = "fill low 0 57600 (shade (scene_pixel sines which ?t))"
  have rows: "render_legacy_scene sines (Some (rows_context low_canvas 0 180 fr)) which k = Some (?F k)"
    if "frame_backed low k" for k
    using rows_render_fill [OF w, of low_canvas low k 0 180 fr] that by (simp add: low_canvas_def frame_backed_def)
  have g: "frame_backed low g" using h by (simp add: frame_backed_def)
  have f: "?F g low = ?F h low" using h(2) by (simp add: fill_def)
  note d = draws_overlay [OF low_canvas_valid(1) w(1) frame_phase_range, of which fr]
  have "backed low_canvas (?F h)" using h(1) by (simp add: backed_def frame_backed_def low_canvas_def)
  from draws_ignores [OF d this, of "?F g"] f
  have "overlay sines low_canvas which ?t (?F g) =
      map_option (\<lambda>k. (?F g)(low := k low)) (overlay sines low_canvas which ?t (?F h))"
    by (simp add: low_canvas_valid)
  moreover have "overlay sines low_canvas which ?t (?F h) = Some h'" "overlay sines low_canvas which ?t (?F g) = Some g'"
    using r w(2,3) rows [OF h(1)] rows [OF g] by (simp_all add: render_inline_def render_legacy_scene_def Let_def)
  ultimately show ?thesis by simp
qed

lemma dump_mode_picture:
  assumes w: "sine_bounded sines" "0 \<le> dump_scene opts" "dump_scene opts < 6" and d: "dump opts \<noteq> None"
  shows "dump_mode sines opts opens st written \<longleftrightarrow>
    (\<exists>h. render_inline sines low_canvas (dump_scene opts) (of_int (dump_frame opts)) (px_heap (demo_memory [])) = Some h \<and>
       dump_ppm opens h = (st, written))"
proof -
  let ?s = "\<lparr>pool = (fresh_pool 0 180)\<lparr>cart_worker_pool.active := True\<rparr>, objects = {}, workers = [], main = M_Idle,
      mem = demo_memory [], ran = [], mem0 = demo_memory []\<rparr> :: demo_sys"
  have init: "cart_worker_pool_init False 0 180 ok (demo_memory []) = Inr ?s" for ok
    by (simp add: cart_worker_pool_init_def)
  have ok: "demo_ok ?s" "frame_backed low (px_heap (mem ?s))"
    by (simp_all add: demo_ok_def pool_ready_def fresh_pool_def demo_memory_def frame_backed_def buffer_names)
  have out: "render_inline sines low_canvas (dump_scene opts) (of_int (dump_frame opts)) (px_heap (demo_memory []))
      = Some (px_heap (mem s1)) \<and> demo_ok s1 \<and> worker_count (pool s1) = 0"
    if "render_frame sines low_canvas (dump_scene opts) (of_int (dump_frame opts)) ?s s1" for s1
    using frame_outcome [OF w ok, of "of_int (dump_frame opts)" s1] that by (simp add: low_on fresh_pool_def)
  have keeps: "mem s2 = mem s1" if "shutdown_call s1 s2" for s1 s2 :: demo_sys
    using that by cases simp_all
  obtain s1 where s1: "render_frame sines low_canvas (dump_scene opts) (of_int (dump_frame opts)) ?s s1"
    using frame_exists [OF w ok, of "of_int (dump_frame opts)"] by (auto simp: low_on)
  have down: "shutdown_call s1 ((set_main M_Down s1)\<lparr>pool := (pool s1)\<lparr>cart_worker_pool.active := False\<rparr>\<rparr>)"
    using out [OF s1] by (intro shutdown_inline) (auto simp: demo_ok_def pool_ready_def)
  show ?thesis
  proof
    assume "dump_mode sines opts opens st written"
    then show "\<exists>h. render_inline sines low_canvas (dump_scene opts) (of_int (dump_frame opts)) (px_heap (demo_memory [])) = Some h \<and>
        dump_ppm opens h = (st, written)"
      by cases (use init out keeps in fastforce)
  next
    assume "\<exists>h. render_inline sines low_canvas (dump_scene opts) (of_int (dump_frame opts)) (px_heap (demo_memory [])) = Some h \<and>
        dump_ppm opens h = (st, written)"
    then show "dump_mode sines opts opens st written"
      using dump_mode.intros [OF d init s1 down] out [OF s1] by auto
  qed
qed

lemma v01_dump_picture:
  assumes w: "sine_bounded sines" "0 \<le> dump_scene opts" "dump_scene opts < 6" "0 \<le> dump_frame opts" "dump_frame opts < 65536"
    and a: "v01_arguments args default_options = Some opts" "dump opts \<noteq> None"
  shows "v01_main sines env args st written \<longleftrightarrow>
    (\<exists>h. render_inline sines low_canvas (dump_scene opts) (of_int (dump_frame opts)) (v01_memory []) = Some h \<and>
       dump_ppm (file_opens env) h = (st, written))"
proof -
  have "frame_backed low (v01_memory [])" by (simp add: frame_backed_def v01_memory_def buffer_names)
  note f = v01_frame_inline [OF w this]
  show ?thesis
  proof
    assume "v01_main sines env args st written"
    then show "\<exists>h. render_inline sines low_canvas (dump_scene opts) (of_int (dump_frame opts)) (v01_memory []) = Some h \<and>
        dump_ppm (file_opens env) h = (st, written)"
      by cases (use a f in \<open>auto simp: dump_ppm_same(1)\<close>)
  qed (use a v01_main.dumped [of args opts sines _ env st written] f in \<open>auto simp: dump_ppm_same(1)\<close>)
qed



section \<open>The loop\<close>

lemma v01_upscale_screen:
  assumes "length (h low) = 57600" "length (h fb) = 921600" "length junk = 1280"
  obtains h' where "v01_upscale junk fb h = Some h'" "h' fb = upscaled (h low)" "\<And>a. a \<noteq> fb \<Longrightarrow> h' a = h a"
proof -
  let ?h = "h(row_local := junk)"
  have ne: "fb \<noteq> low" "fb \<noteq> row_local" "low \<noteq> row_local" by (simp_all add: buffer_names row_local_def)
  have l: "921600 \<le> length (?h fb)" "57600 \<le> length (?h low)" "1280 \<le> length (?h row_local)"
    using assms ne by simp_all
  obtain h' where h': "cart_presentation_upscale (Some fb) (Some low) (Some row_local) ?h = Some h'"
    "\<And>a. a \<noteq> fb \<Longrightarrow> a \<noteq> row_local \<Longrightarrow> h' a = ?h a" "length (h' fb) = length (?h fb)"
    "\<And>j. j < 921600 \<Longrightarrow> h' fb ! j = ?h low ! (j div 5120 * 320 + j mod 1280 div 4)"
    by (rule upscale_ok [OF l ne]) blast
  have "v01_fill_row y = expand_row low row_local y" for y by (simp add: v01_fill_row_def expand_row_def)
  then have "v01_upscale junk fb h = Some (h'(row_local := h row_local))"
    using h'(1) by (simp add: v01_upscale_def cart_presentation_upscale_def copy_row_def)
  moreover have "h' fb = upscaled (h low)"
    by (rule nth_equalityI) (use h' assms ne in \<open>simp_all add: upscaled_def\<close>)
  ultimately show thesis using that [of "h'(row_local := h row_local)"] h'(2) ne by (metis fun_upd_apply)
qed

definition v01_inv :: "v01_state \<Rightarrow> bool" where
  "v01_inv d \<longleftrightarrow> 0 \<le> scene d \<and> scene d < 6 \<and> 0 \<le> frame_no d \<and> 0 \<le> manual_hold d \<and> manual_hold d \<le> 108000 \<and>
     0 \<le> tv_nsec (sleep_until d) \<and> tv_nsec (sleep_until d) < 1000000000 \<and>
     (frame_no d \<le> 65536 \<longrightarrow> length (v01_heap d low) = 57600 \<and> length (v01_heap d fb) = 921600)"

lemma step_scene: "0 \<le> s \<Longrightarrow> s < 6 \<Longrightarrow> (s + 1) smod 6 = (s + 1) mod (6 :: int)"
  by (simp add: c_quotients)

lemma key_inv: "v01_inv d \<Longrightarrow> v01_inv (v01_key ev d)"
  by (simp add: v01_inv_def v01_key_def step_scene)

lemma keys_inv: "v01_inv d \<Longrightarrow> v01_inv (fold v01_key evs d)"
  by (induction evs arbitrary: d) (simp_all add: key_inv)

lemma before_inv: "v01_inv d \<Longrightarrow> v01_inv (v01_before infd_open evs d)"
proof -
  assume "v01_inv d"
  then have "v01_inv (v01_take_request d)" by (simp add: v01_inv_def v01_take_request_def step_scene)
  then have "v01_inv (v01_schedule (v01_take_request d))"
    by (simp add: v01_inv_def v01_schedule_def c_quotients pos_imp_zdiv_nonneg_iff)
  then have "v01_inv (v01_read_input infd_open evs (v01_schedule (v01_take_request d)))"
    by (simp add: v01_read_input_def keys_inv)
  then show ?thesis by (auto simp: v01_before_def v01_count_hold_def v01_inv_def)
qed

lemma deadline_range:
  assumes "0 \<le> tv_nsec t" "tv_nsec t < 1000000000"
  shows "v01_next_deadline t = Some t' \<Longrightarrow> 0 \<le> tv_nsec t' \<and> tv_nsec t' < 1000000000"
    "in_i32 (tv_sec t + 1) \<Longrightarrow> v01_next_deadline t \<noteq> None"
  using assms by (auto simp: v01_next_deadline_def i32_eq_Some_iff in_i32_def split: if_splits bind_splits)

text \<open>The frame that the loop draws, as long as the frame number is below 65536.\<close>

lemma v01_draw_screen:
  assumes s: "sine_bounded sines" and i: "v01_inv d" and f: "frame_no d < 65536"
  obtains h where "render_inline sines low_canvas (scene d) (of_int (frame_no d)) (v01_heap d) = Some h"
    "\<And>h'. v01_render_frame sines (scene d) (frame_no d) (v01_heap d) h' \<longleftrightarrow> h' = h"
    "length (h low) = 57600" "length (h fb) = 921600"
proof -
  have w: "0 \<le> scene d" "scene d < 6" "0 \<le> frame_no d" and b: "frame_backed low (v01_heap d)"
    using i f by (simp_all add: v01_inv_def frame_backed_def)
  obtain h where h: "render_inline sines low_canvas (scene d) (of_int (frame_no d)) (v01_heap d) = Some h"
    "\<And>a. length (h a) = length (v01_heap d a)"
    by (rule render_inline_defined [OF s w(1,2) b, of "of_int (frame_no d)"]) (simp add: low_on)
  have "v01_render_frame sines (scene d) (frame_no d) (v01_heap d) h' \<longleftrightarrow> h' = h" for h'
    using v01_frame_inline [OF s w f b, of h'] h(1) by auto
  with h that i f show thesis by (simp add: v01_inv_def)
qed

lemma v01_loop_inv:
  assumes s: "sine_bounded sines"
  shows "v01_loop sines infd_open d d' \<Longrightarrow> v01_inv d \<Longrightarrow> v01_inv d'"
proof (induction rule: v01_loop.induct)
  case (begin_frame d evs)
  then show ?case using before_inv [of d infd_open evs] by (simp add: v01_inv_def)
next
  case (draw_frame d h junk h' n nx)
  have n: "n = frame_no d + 1" using draw_frame(5) by (simp add: i32_eq_Some_iff)
  have "length (h' low) = 57600 \<and> length (h' fb) = 921600" if "n \<le> 65536"
  proof -
    have f: "frame_no d < 65536" using n that by simp
    have l: "length (h low) = 57600" "length (h fb) = 921600"
      by (rule v01_draw_screen [OF s draw_frame.prems f]; use draw_frame(2) in simp)+
    show ?thesis
      by (rule v01_upscale_screen [OF l draw_frame(3)]) (use draw_frame(4) l in \<open>simp add: upscaled_def buffer_names\<close>)
  qed
  with draw_frame n deadline_range(1) [OF _ _ draw_frame(6)] show ?case by (simp add: v01_inv_def)
qed (simp_all add: v01_inv_def)

lemma v01_reachable_inv:
  assumes "sine_bounded sines" "length screen = 921600" "0 \<le> tv_nsec now" "tv_nsec now < 1000000000"
    and "(v01_loop sines infd_open)\<^sup>*\<^sup>* (v01_start now screen) d"
  shows "v01_inv d"
  using assms(5)
proof (induction rule: rtranclp_induct)
  case base
  show ?case using assms by (simp add: v01_inv_def v01_start_def v01_memory_def buffer_names)
qed (rule v01_loop_inv [OF assms(1)])

text \<open>
  The first release shows, in every frame below 65536 of every run of its loop, the enlarged
  picture that the current renderer draws for the same scene, frame number and buffers; the scene is
  always one of the six.
\<close>

theorem v01_shows_current_pictures:
  assumes "sine_bounded sines" "length screen = 921600" "0 \<le> tv_nsec now" "tv_nsec now < 1000000000"
    and "(v01_loop sines infd_open)\<^sup>*\<^sup>* (v01_start now screen) d" "frame_no d < 65536"
    and "v01_point d = V_Draw" "v01_loop sines infd_open d d'" "v01_point d' = V_Top"
  shows "0 \<le> scene d \<and> scene d < 6 \<and> frame_no d' = frame_no d + 1 \<and>
    (\<exists>h. render_inline sines low_canvas (scene d) (of_int (frame_no d)) (v01_heap d) = Some h \<and>
         v01_heap d' low = h low \<and> v01_heap d' fb = upscaled (h low))"
proof -
  note i = v01_reachable_inv [OF assms(1-5)]
  obtain h where h: "render_inline sines low_canvas (scene d) (of_int (frame_no d)) (v01_heap d) = Some h"
    "\<And>h'. v01_render_frame sines (scene d) (frame_no d) (v01_heap d) h' \<longleftrightarrow> h' = h"
    "length (h low) = 57600" "length (h fb) = 921600" by (rule v01_draw_screen [OF assms(1) i assms(6)]) blast
  from assms(7-9) obtain junk h' where st: "length junk = 1280" "v01_upscale junk fb h = Some h'"
    "frame_no d' = frame_no d + 1" "v01_heap d' = h'"
    by (auto elim!: v01_loop.cases simp: h(2) i32_eq_Some_iff)
  have "h' fb = upscaled (h low) \<and> h' low = h low"
    by (rule v01_upscale_screen [OF h(3,4) st(1)]) (use st(2) in \<open>simp add: buffer_names\<close>)
  with h(1) st i show ?thesis by (auto simp: v01_inv_def)
qed

lemma v01_draw_possible:
  assumes "sine_bounded sines" "v01_inv d" "frame_no d < 65536" "v01_point d = V_Draw" "in_i32 (tv_sec (sleep_until d) + 1)"
  obtains d' where "v01_loop sines infd_open d d'" "v01_point d' = V_Top" "frame_no d' = frame_no d + 1"
    "scene d' = scene d" "v01_flags d' = v01_flags d" "manual_hold d' = manual_hold d"
proof -
  obtain h where h: "v01_render_frame sines (scene d) (frame_no d) (v01_heap d) h" "length (h low) = 57600" "length (h fb) = 921600"
    by (rule v01_draw_screen [OF assms(1-3)]) blast
  obtain h' where u: "v01_upscale (replicate 1280 0) fb h = Some h'"
    by (rule v01_upscale_screen [OF h(2,3), of "replicate 1280 0"]) simp_all
  obtain nx where nx: "v01_next_deadline (sleep_until d) = Some nx"
    using deadline_range(2) [OF _ _ assms(5)] assms(2) by (auto simp: v01_inv_def)
  have "i32 (frame_no d + 1) = Some (frame_no d + 1)" using assms(2,3) by (simp add: v01_inv_def in_i32_def)
  from v01_loop.draw_frame [OF assms(4) h(1) _ u this nx, of infd_open] that show thesis by simp
qed

text \<open>The first frame of a run in which a key is pressed, for the examples.\<close>

abbreviation (input) press_a :: v01_event where "press_a \<equiv> \<lparr>ev_type = 1, ev_code = 30, ev_value = 1\<rparr>"

definition first_frame :: v01_state where
  "first_frame = (v01_before True [press_a] (v01_start \<lparr>tv_sec = 7, tv_nsec = 0\<rparr> (replicate 921600 0)))\<lparr>v01_point := V_Draw\<rparr>"

lemma first_frame_run:
  "(v01_loop flat_sines True)\<^sup>*\<^sup>* (v01_start \<lparr>tv_sec = 7, tv_nsec = 0\<rparr> (replicate 921600 0)) first_frame"
  unfolding first_frame_def by (intro r_into_rtranclp begin_frame) (simp_all add: v01_start_def)

lemma first_frame_fields:
  "scene first_frame = 1" "frame_no first_frame = 0" "manual_hold first_frame = 239"
  "v01_flags first_frame = \<lparr>running = True, next_scene_requested = False\<rparr>"
  "sleep_until first_frame = \<lparr>tv_sec = 7, tv_nsec = 0\<rparr>" "v01_point first_frame = V_Draw"
  by (simp_all add: first_frame_def v01_start_def v01_before_def v01_take_request_def v01_schedule_def v01_read_input_def v01_key_def
      v01_count_hold_def c_quotients)

lemma first_frame_drawn:
  obtains d where "v01_loop flat_sines True first_frame d" "v01_point d = V_Top" "frame_no d = 1" "scene d = 1"
    "v01_flags d = \<lparr>running = True, next_scene_requested = False\<rparr>" "manual_hold d = 239"
proof -
  have "v01_inv first_frame" by (rule v01_reachable_inv [OF flat_sines_bounded _ _ _ first_frame_run]) simp_all
  then show thesis
    by (rule v01_draw_possible [OF flat_sines_bounded, of first_frame True]) (simp_all add: first_frame_fields that in_i32_def)
qed

theorem v01_shows_current_pictures_witness:
  "\<exists>d'. v01_loop flat_sines True first_frame d' \<and> (\<exists>h. render_inline flat_sines low_canvas 1 (of_int 0) (v01_heap first_frame) = Some h \<and>
     v01_heap d' fb = upscaled (h low))"
proof -
  obtain d' where d': "v01_loop flat_sines True first_frame d'" "v01_point d' = V_Top" by (rule first_frame_drawn)
  from v01_shows_current_pictures [OF flat_sines_bounded _ _ _ first_frame_run _ _ d']
  show ?thesis using d'(1) by (auto simp: first_frame_fields)
qed

text \<open>
  Claim C39. The first release has no limit on scene changes: in any running state of its loop in which
  a scene is held, one key press makes the very next picture that of the next scene, and the state
  after it is again such a state. With a press per frame every picture is a hard cut, thirty a
  second, which is what the rate limit of the current runtime rules out.
\<close>

theorem v01_cuts_every_frame:
  assumes "sine_bounded sines" "length screen = 921600" "0 \<le> tv_nsec now" "tv_nsec now < 1000000000"
    and "(v01_loop sines True)\<^sup>*\<^sup>* (v01_start now screen) d" "frame_no d < 65536"
    and "v01_point d = V_Top" "running (v01_flags d)" "\<not> next_scene_requested (v01_flags d)" "0 < manual_hold d"
    and "in_i32 (tv_sec (sleep_until d) + 1)" "k \<noteq> KEY_ESC_CODE" "k \<noteq> KEY_Q_CODE"
  shows "\<exists>d1 d2. d1 = (v01_before True [\<lparr>ev_type = 1, ev_code = k, ev_value = 1\<rparr>] d)\<lparr>v01_point := V_Draw\<rparr> \<and>
    v01_loop sines True d d1 \<and> v01_loop sines True d1 d2 \<and> v01_point d2 = V_Top \<and> frame_no d2 = frame_no d + 1 \<and>
    scene d2 = (scene d + 1) mod 6 \<and> scene d2 \<noteq> scene d \<and>
    running (v01_flags d2) \<and> \<not> next_scene_requested (v01_flags d2) \<and> 0 < manual_hold d2"
proof -
  let ?d1 = "(v01_before True [\<lparr>ev_type = 1, ev_code = k, ev_value = 1\<rparr>] d)\<lparr>v01_point := V_Draw\<rparr>"
  note i = v01_reachable_inv [OF assms(1-5)]
  have go: "v01_loop sines True d ?d1" by (rule begin_frame [OF assms(7,8)])
  have b: "scene ?d1 = (scene d + 1) mod 6" "frame_no ?d1 = frame_no d" "v01_flags ?d1 = v01_flags d"
    "manual_hold ?d1 = 239" "sleep_until ?d1 = sleep_until d"
    using i assms(9,10,12,13)
    by (simp_all add: v01_before_def v01_take_request_def v01_schedule_def v01_read_input_def v01_key_def
        v01_count_hold_def v01_inv_def step_scene)
  obtain d2 where d2: "v01_loop sines True ?d1 d2" "v01_point d2 = V_Top" "frame_no d2 = frame_no ?d1 + 1"
    "scene d2 = scene ?d1" "v01_flags d2 = v01_flags ?d1" "manual_hold d2 = manual_hold ?d1"
    by (rule v01_draw_possible [OF assms(1) v01_loop_inv [OF assms(1) go i], of True]) (use b assms(6,11) in simp_all)
  have "(scene d + 1) mod 6 \<noteq> scene d" using i by (cases "scene d = 5") (auto simp: v01_inv_def)
  with go d2 b assms(8,9) show ?thesis by (intro exI [of _ ?d1] exI [of _ d2]) simp
qed

theorem v01_cuts_every_frame_witness:
  "\<exists>d d1 d2. v01_loop flat_sines True first_frame d \<and> scene d = 1 \<and> v01_loop flat_sines True d d1 \<and>
     v01_loop flat_sines True d1 d2 \<and> scene d2 = 2 \<and> frame_no d2 = frame_no d + 1"
proof -
  obtain d where d: "v01_loop flat_sines True first_frame d" "v01_point d = V_Top" "frame_no d = 1" "scene d = 1"
    "v01_flags d = \<lparr>running = True, next_scene_requested = False\<rparr>" "manual_hold d = 239"
    by (rule first_frame_drawn)
  have "sleep_until d = \<lparr>tv_sec = 7, tv_nsec = 33333333\<rparr>"
    using d(1,2) first_frame_fields
    by (auto elim!: v01_loop.cases simp: v01_next_deadline_def i32_eq_Some_iff split: if_splits bind_splits)
  moreover have "(v01_loop flat_sines True)\<^sup>*\<^sup>* (v01_start \<lparr>tv_sec = 7, tv_nsec = 0\<rparr> (replicate 921600 0)) d"
    using first_frame_run d(1) by (rule rtranclp.rtrancl_into_rtrancl)
  note v01_cuts_every_frame [OF flat_sines_bounded _ _ _ this, of 30]
  ultimately obtain d1 d2 where "v01_loop flat_sines True d d1" "v01_loop flat_sines True d1 d2" "scene d2 = 2"
    "frame_no d2 = frame_no d + 1"
    using d by (auto simp: in_i32_def)
  with d show ?thesis by (intro exI [of _ d] exI [of _ d1] exI [of _ d2]) simp
qed

end
