(* ===== verification/Input_Default.thy ===== *)
theory Input_Default
  imports Input_Session
begin

text \<open>
  The operation table of the input reader on the device (\<^verbatim>\<open>cart_input_default_ops\<close> in
  \<^verbatim>\<open>cart/src/input_evdev.c\<close>): the seven operations over \<^verbatim>\<open>open\<close>, \<^verbatim>\<open>close\<close>, \<^verbatim>\<open>read\<close>
  and \<^verbatim>\<open>ioctl\<close>, and \<^verbatim>\<open>cart_input_init\<close>, which starts a session with that table. The kernel
  is a parameter: its calls and the two request macros of its header. The theorems show that the
  table keeps every promise the reader relies on, so that what \<open>Input_Session\<close> proves of
  any table holds on the device.
\<close>

section \<open>The kernel\<close>

text \<open>
  \<open>k_ioctl f request buffer w\<close> is the result of the call and the content of the buffer behind it.
  The flags of \<^verbatim>\<open>open\<close> are the same in every call of the reader and are not an argument.
\<close>

record 'w kernel =
  k_open :: "string \<Rightarrow> 'w \<Rightarrow> int \<times> 'w"
  k_close :: "int \<Rightarrow> 'w \<Rightarrow> 'w"
  k_read :: "int \<Rightarrow> nat \<Rightarrow> 'w \<Rightarrow> read_result \<times> 'w"
  k_ioctl :: "int \<Rightarrow> u32 \<Rightarrow> u8 list \<Rightarrow> 'w \<Rightarrow> int \<times> u8 list"
  EVIOCGNAME :: "nat \<Rightarrow> u32"
  EVIOCGABS :: "nat \<Rightarrow> u32"

text \<open>
  What is relied on: descriptors are allocated and freed, a read returns no more than it was asked
  for, and an \<^verbatim>\<open>ioctl\<close> writes within the object it is given.
\<close>

definition kernel_ok :: "'w kernel \<Rightarrow> ('w \<Rightarrow> int set) \<Rightarrow> bool" where
  "kernel_ok k opened \<longleftrightarrow>
     (\<forall>p w f w'. k_open k p w = (f, w') \<longrightarrow>
        (if 0 \<le> f then f \<notin> opened w \<and> opened w' = insert f (opened w) else opened w' = opened w)) \<and>
     (\<forall>f w. opened (k_close k f w) = opened w - {f}) \<and>
     (\<forall>f n w r w'. k_read k f n w = (r, w') \<longrightarrow> opened w' = opened w \<and> (\<forall>bs. r = Got bs \<longrightarrow> length bs \<le> n)) \<and>
     (\<forall>f req buf w. length (snd (k_ioctl k f req buf w)) = length buf)"

section \<open>The operations\<close>

text \<open>The request number of an evdev query, put together by hand.\<close>

definition evreq :: "nat \<Rightarrow> nat \<Rightarrow> u32" where
  "evreq nr bytes = push_bit 30 2 OR push_bit 16 (of_nat bytes AND 0x3FFF) OR push_bit 8 0x45 OR of_nat nr"

definition default_open :: "'w kernel \<Rightarrow> string \<Rightarrow> 'w \<Rightarrow> int \<times> 'w" where
  "default_open k path w = k_open k path w"

definition default_close :: "'w kernel \<Rightarrow> int \<Rightarrow> 'w \<Rightarrow> 'w" where
  "default_close k f w = k_close k f w"

definition default_read :: "'w kernel \<Rightarrow> int \<Rightarrow> nat \<Rightarrow> 'w \<Rightarrow> read_result \<times> 'w" where
  "default_read k f n w = k_read k f n w"

text \<open>
  \<open>junk n\<close> is what the \<open>n\<close> bytes of an automatic object hold before anything is stored there. The
  result is the returned count and the C string in the caller's array.
\<close>

definition default_ioctl_name :: "'w kernel \<Rightarrow> (nat \<Rightarrow> u8 list) \<Rightarrow> int \<Rightarrow> nat \<Rightarrow> 'w \<Rightarrow> int \<times> string" where
  "default_ioctl_name k junk f out_size w =
     (if out_size = 0 then (- 1, c_string (junk out_size))
      else case k_ioctl k f (EVIOCGNAME k (out_size - 1)) (junk out_size) w of (written, out) \<Rightarrow>
        if written < 0 then (- 1, c_string out)
        else let written = (if nat written \<ge> out_size then int out_size - 1 else written);
                 out = out[nat written := 0]
             in (if out ! 0 = 0 then 0 else written, c_string out))"

definition default_ioctl_key_state :: "'w kernel \<Rightarrow> int \<Rightarrow> nat \<Rightarrow> 'w \<Rightarrow> u8 list option" where
  "default_ioctl_key_state k f bytes w =
     (case k_ioctl k f (evreq 0x18 bytes) (replicate bytes 0) w of
        (status, buffer) \<Rightarrow> if status < 0 then None else Some buffer)"

definition default_ioctl_bit :: "'w kernel \<Rightarrow> int \<Rightarrow> nat \<Rightarrow> nat \<Rightarrow> 'w \<Rightarrow> u8 list option" where
  "default_ioctl_bit k f ty bytes w =
     (case k_ioctl k f (evreq (0x20 + ty) bytes) (replicate bytes 0) w of
        (status, buffer) \<Rightarrow> if status < 0 then None else Some buffer)"

text \<open>\<^verbatim>\<open>struct input_absinfo\<close>: six 32-bit signed numbers, little endian on the target.\<close>

definition absinfo_field :: "u8 list \<Rightarrow> nat \<Rightarrow> int" where
  "absinfo_field b i = sint (le32 (b ! (4 * i)) (b ! (4 * i + 1)) (b ! (4 * i + 2)) (b ! (4 * i + 3)))"

definition default_ioctl_abs :: "'w kernel \<Rightarrow> (nat \<Rightarrow> u8 list) \<Rightarrow> int \<Rightarrow> nat \<Rightarrow> 'w \<Rightarrow> absinfo option" where
  "default_ioctl_abs k junk f axis w =
     (case k_ioctl k f (EVIOCGABS k axis) (junk 24) w of (status, info) \<Rightarrow>
        if status < 0 then None
        else Some \<lparr>abs_value = absinfo_field info 0, minimum = absinfo_field info 1,
          maximum = absinfo_field info 2, fuzz = absinfo_field info 3, flat = absinfo_field info 4,
          resolution = absinfo_field info 5\<rparr>)"

definition cart_input_default_ops :: "'w kernel \<Rightarrow> (nat \<Rightarrow> u8 list) \<Rightarrow> 'w cart_input_ops" where
  "cart_input_default_ops k junk =
     \<lparr>op_open = default_open k, op_close = default_close k, op_read = default_read k,
      ioctl_name = default_ioctl_name k junk, ioctl_key_state = default_ioctl_key_state k,
      ioctl_bit = default_ioctl_bit k, ioctl_abs = default_ioctl_abs k junk\<rparr>"

definition cart_input_init ::
    "bool \<Rightarrow> 'w kernel \<Rightarrow> (nat \<Rightarrow> u8 list) \<Rightarrow> (string \<Rightarrow> int + string list) \<Rightarrow> (string \<Rightarrow> string option)
     \<Rightarrow> string \<Rightarrow> string option \<Rightarrow> string option \<Rightarrow> cart_input \<Rightarrow> 'w \<Rightarrow> (int \<times> cart_input \<times> 'w) option" where
  "cart_input_init input_is_null k junk dir file uninit sys_class_input dev_input inp w =
     (if input_is_null then Some (- 1, inp, w)
      else cart_input_init_ex False (Some (cart_input_default_ops k junk)) dir file uninit
        sys_class_input dev_input inp w)"

section \<open>The request numbers\<close>

text \<open>The number has four fields: direction 2 (read), the size in 14 bits, the letter E and the query.\<close>

lemma or_low:
  assumes "unat b < 2 ^ n"
  shows "unat (push_bit n a OR b) = unat (push_bit n a) + unat (b :: u32)"
proof -
  have "take_bit n b = b" using assms by (metis take_bit_nat_eq_self unsigned_take_bit_eq word_unat_eq_iff)
  then have "push_bit n a AND b = 0" by (metis (no_types) bit_eqI bit_and_iff bit_push_bit_iff bit_take_bit_iff bit_0_eq bot_apply bot_bool_def not_le)
  then have "unat (push_bit n a) AND unat b = 0" by (metis unsigned_and_eq unsigned_0)
  then show ?thesis by (simp add: unsigned_or_eq disjunctive_add_eq_or)
qed

lemma evreq_fields:
  assumes "nr < 256"
  shows "unat (evreq nr bytes) = 2 * 2 ^ 30 + (bytes mod 2 ^ 14) * 2 ^ 16 + 0x45 * 2 ^ 8 + nr"
proof -
  define s where "s = bytes mod 2 ^ 14"
  have s: "s < 2 ^ 14" by (simp add: s_def)
  have "take_bit 14 bytes = s" by (simp add: s_def take_bit_eq_mod)
  then have "take_bit 14 (of_nat bytes :: u32) = of_nat s" by (metis take_bit_of_nat)
  then have size: "(of_nat bytes AND 0x3FFF :: u32) = of_nat s" by (simp add: take_bit_eq_mask mask_eq_exp_minus_1)
  have nr: "unat (of_nat nr :: u32) = nr" using assms by (simp add: unat_of_nat)
  have low: "unat (push_bit 8 0x45 OR of_nat nr :: u32) = 0x4500 + nr"
    using or_low [where b = "of_nat nr" and n = 8 and a = "0x45"] assms by (simp add: nr)
  have "unat (push_bit 16 (of_nat s) :: u32) = s * 2 ^ 16" using s by (simp add: push_bit_eq_mult unat_word_ariths unat_of_nat)
  then have mid: "unat (push_bit 16 (of_nat s) OR (push_bit 8 0x45 OR of_nat nr) :: u32) = s * 2 ^ 16 + 0x4500 + nr"
    using or_low [where b = "push_bit 8 0x45 OR of_nat nr" and n = 16 and a = "of_nat s"] assms unfolding low by simp
  have "evreq nr bytes = push_bit 30 2 OR (push_bit 16 (of_nat s) OR (push_bit 8 0x45 OR of_nat nr))"
    by (simp only: evreq_def size or.assoc)
  then show ?thesis
    using or_low [where b = "push_bit 16 (of_nat s) OR (push_bit 8 0x45 OR of_nat nr)" and n = 30 and a = 2] s assms unfolding mid by (simp add: s_def)
qed

lemma evreq_number:
  assumes "nr < 256" "n < 2 ^ 14"
  shows "evreq nr n = word_of_nat (2 * 2 ^ 30 + n * 2 ^ 16 + 0x45 * 2 ^ 8 + nr)"
  using evreq_fields [OF assms(1), of n] assms(2) by (metis mod_less of_nat_unat ucast_id)

section \<open>The promises of the table\<close>

lemma sint_le32: "in_i32 (sint (x :: u32))"
  using sint_greater_eq [of x] sint_lt [of x] by (simp add: in_i32_def)

lemma default_device_ops:
  assumes "kernel_ok k opened"
  shows "device_ops (cart_input_default_ops k junk) opened"
  using assms unfolding device_ops_def fd_ops_def kernel_ok_def cart_input_default_ops_def
  by (auto simp: default_open_def default_close_def default_read_def default_ioctl_abs_def absinfo_field_def sint_le32
      split: prod.splits if_splits)

lemma default_bits_fill:
  assumes "kernel_ok k opened"
  shows "default_ioctl_key_state k f n w = Some bs \<Longrightarrow> length bs = n"
    "default_ioctl_bit k f ty n w = Some bs \<Longrightarrow> length bs = n"
proof -
  have l: "length (snd (k_ioctl k f req buf w)) = length buf" for req buf using assms by (simp add: kernel_ok_def)
  show "default_ioctl_key_state k f n w = Some bs \<Longrightarrow> length bs = n"
    using l [of "evreq 0x18 n" "replicate n 0"] by (auto simp: default_ioctl_key_state_def split: prod.splits if_splits)
  show "default_ioctl_bit k f ty n w = Some bs \<Longrightarrow> length bs = n"
    using l [of "evreq (0x20 + ty) n" "replicate n 0"] by (auto simp: default_ioctl_bit_def split: prod.splits if_splits)
qed

lemma c_string_short: "i < length bs \<Longrightarrow> bs ! i = 0 \<Longrightarrow> length (c_string bs) \<le> i"
  unfolding c_string_def length_map by (metis (mono_tags, lifting) leI nth_length_takeWhile nth_mem set_takeWhileD takeWhile_nth linorder_not_less)

lemma c_string_empty: "bs \<noteq> [] \<Longrightarrow> c_string bs = [] \<longleftrightarrow> bs ! 0 = 0"
  by (cases bs) (auto simp: c_string_def)

lemma default_name_fits:
  assumes k: "kernel_ok k opened" and j: "length (junk n) = n"
    and r: "default_ioctl_name k junk f n w = (got, name)" "0 \<le> got"
  shows "int (length name) \<le> got \<and> got < int n \<and> (got = 0 \<longleftrightarrow> name = [])"
proof -
  obtain written out where o: "k_ioctl k f (EVIOCGNAME k (n - 1)) (junk n) w = (written, out)" by fastforce
  have n: "n \<noteq> 0" and w: "0 \<le> written" using r by (auto simp: default_ioctl_name_def o [unfolded One_nat_def] Let_def split: if_splits)
  have "length (snd (k_ioctl k f (EVIOCGNAME k (n - 1)) (junk n) w)) = length (junk n)"
    using k unfolding kernel_ok_def by blast
  then have l: "length out = n" using j o by simp
  define at where "at = (if n \<le> nat written then n - 1 else nat written)"
  let ?out = "out[at := 0]"
  have at: "at < length ?out" using n l by (auto simp: at_def)
  have "length (c_string ?out) \<le> at" using c_string_short [OF at] at by simp
  moreover have "c_string ?out = [] \<longleftrightarrow> ?out ! 0 = 0" by (rule c_string_empty) (use at in auto)
  moreover have "nat (int n - 1) = n - 1" using n by simp
  then have "got = (if ?out ! 0 = 0 then 0 else int at)" "name = c_string ?out"
    using r n w by (auto simp: default_ioctl_name_def o [unfolded One_nat_def] at_def Let_def nat_le_iff of_nat_diff split: if_splits)
  ultimately show ?thesis using at l n by (cases "at = 0") auto
qed

lemma init_session:
  "cart_input_init False k junk dir file uninit (Some sys) (Some dev) inp0 w0 = Some (n, inp, w) \<Longrightarrow>
   session (cart_input_default_ops k junk) w0 inp w"
  by (rule started) (simp add: cart_input_init_def)

section \<open>What the probes see\<close>

text \<open>
  The documented answer of an evdev device to the bitmap query of an event type: as many bytes of the
  device's bitmap as the size field of the request allows. \<open>caps f ty\<close> is the bitmap, \<open>None\<close> when the
  descriptor does not answer.
\<close>

definition evdev_bitmaps :: "'w kernel \<Rightarrow> (int \<Rightarrow> nat \<Rightarrow> u8 list option) \<Rightarrow> bool" where
  "evdev_bitmaps k caps \<longleftrightarrow>
     (\<forall>f ty n buf w. ty < 32 \<longrightarrow> n < 2 ^ 14 \<longrightarrow> length buf = n \<longrightarrow>
        k_ioctl k f (word_of_nat (2 * 2 ^ 30 + n * 2 ^ 16 + 0x45 * 2 ^ 8 + (0x20 + ty))) buf w =
          (case caps f ty of None \<Rightarrow> (- 1, buf)
           | Some bits \<Rightarrow> (int (min n (length bits)), take n bits @ drop (length bits) buf)))"

lemma default_bitmap:
  assumes "evdev_bitmaps k caps" "ty < 32" "n < 2 ^ 14"
  shows "default_ioctl_bit k f ty n w = map_option (\<lambda>bits. take n bits @ replicate (n - length bits) 0) (caps f ty)"
  using assms evreq_number [of "0x20 + ty" n] by (simp add: default_ioctl_bit_def evdev_bitmaps_def split: option.splits)

text \<open>A code inside the queried range is tested as in the device's own bitmap.\<close>

lemma bit_test_padded: "c < 8 * n \<Longrightarrow> bit_test (take n bits @ replicate (n - length bits) 0) c = bit_test bits c"
  by (auto simp: bit_test_def nth_append less_mult_imp_div_less mult.commute)

lemma count_padded:
  "\<forall>c\<in>set codes. c < 8 * n \<Longrightarrow> count_bits (take n bits @ replicate (n - length bits) 0) codes = count_bits bits codes"
  unfolding count_bits_def by (intro foldl_cong) (auto simp: bit_test_padded)

text \<open>
  Claim C18. On the device the probes see the device's own capabilities: the request numbers put together
  by hand are the bitmap queries of the kernel, the buffers are large enough for every code that is
  tested, and what the kernel leaves unwritten counts as absent. A device is a game pad exactly when its
  bitmaps have four of the buttons and two of the stick axes, and an action keyboard exactly when it has
  Escape or Q.
\<close>

theorem probes_see_the_device:
  assumes "evdev_bitmaps k caps"
  shows "(probe_is_gamepad (cart_input_default_ops k junk) f w \<longleftrightarrow>
      (\<exists>keys axes. caps f 1 = Some keys \<and> caps f 3 = Some axes \<and>
        4 \<le> count_bits keys gamepad_buttons \<and> 2 \<le> count_bits axes stick_codes)) \<and>
    (probe_is_action_keyboard (cart_input_default_ops k junk) f w \<longleftrightarrow>
      (\<exists>keys. caps f 1 = Some keys \<and> (bit_test keys 1 \<or> bit_test keys 16)))"
proof (intro conjI)
  have "\<forall>c\<in>set gamepad_buttons. c < 8 * 96" "\<forall>c\<in>set stick_codes. c < 8 * 8"
    by (simp_all add: gamepad_buttons_def stick_codes_def)
  note count = this [THEN count_padded]
  note bitmap = default_bitmap [OF assms]
  show "probe_is_gamepad (cart_input_default_ops k junk) f w \<longleftrightarrow>
      (\<exists>keys axes. caps f 1 = Some keys \<and> caps f 3 = Some axes \<and>
        4 \<le> count_bits keys gamepad_buttons \<and> 2 \<le> count_bits axes stick_codes)"
    by (auto simp: probe_is_gamepad_def cart_input_default_ops_def bitmap count split: option.splits)
  show "probe_is_action_keyboard (cart_input_default_ops k junk) f w \<longleftrightarrow>
      (\<exists>keys. caps f 1 = Some keys \<and> (bit_test keys 1 \<or> bit_test keys 16))"
    by (auto simp: probe_is_action_keyboard_def cart_input_default_ops_def bitmap bit_test_padded split: option.splits)
qed

text \<open>A keyboard: every descriptor answers the key bitmap query, with Escape only.\<close>

definition kbd_caps :: "int \<Rightarrow> nat \<Rightarrow> u8 list option" where
  "kbd_caps f ty = (if ty = 1 then Some [2] else None)"

definition kbd_kernel :: "(int list) kernel" where
  "kbd_kernel = \<lparr>k_open = (\<lambda>p w. (fresh_fd w, fresh_fd w # w)), k_close = (\<lambda>f w. removeAll f w),
     k_read = (\<lambda>f n w. (Fail 11, w)),
     k_ioctl = (\<lambda>f req buf w. let r = unat req in
        if r div 2 ^ 30 = 2 \<and> r div 2 ^ 8 mod 2 ^ 8 = 0x45 \<and> 0x20 \<le> r mod 2 ^ 8 \<and> r mod 2 ^ 8 < 0x40
        then case kbd_caps f (r mod 2 ^ 8 - 0x20) of None \<Rightarrow> (- 1, buf)
          | Some bits \<Rightarrow> let n = r div 2 ^ 16 mod 2 ^ 14 in
              let got = take (min n (length buf)) bits in (int (length got), got @ drop (length got) buf)
        else (- 1, buf)),
     EVIOCGNAME = evreq 6, EVIOCGABS = (\<lambda>axis. evreq (0x40 + axis) 24)\<rparr>"

lemma kbd_kernel_ok: "kernel_ok kbd_kernel set"
  using fresh_fd by (auto simp: kernel_ok_def kbd_kernel_def Let_def split: option.splits)

lemma request_decodes:
  fixes n ty :: nat
  assumes "n < 16384" "ty < 32"
  defines "r \<equiv> 2147483648 + n * 65536 + 17664 + (32 + ty)"
  shows "r div 1073741824 = 2" "r div 256 mod 256 = 69" "r mod 256 = 32 + ty" "r div 65536 mod 16384 = n" "r < 4294967296"
proof -
  have r: "r = (32 + ty) + (69 + (32768 + n) * 256) * 256" by (simp add: r_def algebra_simps)
  have "r mod 256 = (32 + ty) mod 256" unfolding r by (rule mod_mult_self1)
  then show "r mod 256 = 32 + ty" using assms(2) by simp
  have "r div 256 = 69 + (32768 + n) * 256 + (32 + ty) div 256" unfolding r by (rule div_mult_self1) simp
  then have q: "r div 256 = 69 + (32768 + n) * 256" using assms(2) by simp
  then show "r div 256 mod 256 = 69" by simp
  have h: "r div 65536 = 32768 + n" using q div_mult2_eq [of r 256 256] by simp
  then show "r div 65536 mod 16384 = n" using assms(1) mod_mult_self1 [of n 2 16384] by (simp add: add.commute)
  show "r div 1073741824 = 2" using h div_mult2_eq [of r 65536 16384] assms(1) by simp
  show "r < 4294967296" using assms by simp
qed

lemma unat_small: "m < 4294967296 \<Longrightarrow> unat (word_of_nat m :: u32) = m"
  by (simp add: unat_of_nat)

lemma kbd_bitmaps: "evdev_bitmaps kbd_kernel kbd_caps"
  unfolding evdev_bitmaps_def
proof (intro allI impI)
  fix f and ty n :: nat and buf :: "u8 list" and w
  assume a: "ty < 32" "n < (2 :: nat) ^ 14" "length buf = n"
  define r where "r = 2147483648 + n * 65536 + 17664 + (32 + ty)"
  have "n < 16384" using a(2) by simp
  note d = request_decodes [OF this a(1), folded r_def]
  have r: "2 * 2 ^ 30 + n * 2 ^ 16 + 0x45 * 2 ^ 8 + (0x20 + ty) = r" by (simp add: r_def)
  have "r mod 256 - 32 = ty" using d(3) by simp
  then have "k_ioctl kbd_kernel f (word_of_nat r) buf w =
      (case kbd_caps f ty of None \<Rightarrow> (- 1, buf)
       | Some bits \<Rightarrow> let got = take n bits in (int (length got), got @ drop (length got) buf))"
    using a(1,3) by (simp add: kbd_kernel_def Let_def unat_small [OF d(5)] d(1-4) cong: option.case_cong)
  then show "k_ioctl kbd_kernel f (word_of_nat (2 * 2 ^ 30 + n * 2 ^ 16 + 0x45 * 2 ^ 8 + (0x20 + ty))) buf w =
      (case kbd_caps f ty of None \<Rightarrow> (- 1, buf)
       | Some bits \<Rightarrow> (int (min n (length bits)), take n bits @ drop (length bits) buf))"
    unfolding r using a(3) by (auto simp: min_def split: option.splits)
qed

theorem probes_see_the_device_witness:
  "probe_is_action_keyboard (cart_input_default_ops kbd_kernel (\<lambda>n. replicate n 7)) 3 [3] \<and>
   \<not> probe_is_gamepad (cart_input_default_ops kbd_kernel (\<lambda>n. replicate n 7)) 3 [3]"
proof -
  have "bit_test [2] 1" by (simp add: bit_test_def bit_iff_odd)
  with probes_see_the_device [OF kbd_bitmaps, of "\<lambda>n. replicate n 7" 3 "[3]"] show ?thesis by (auto simp: kbd_caps_def)
qed

end
