(* ===== verification/Demo_Program.thy ===== *)
theory Demo_Program
  imports Demo_Loop Input_Default
begin

text \<open>
  The demo program from its start to its exit (\<^verbatim>\<open>main\<close> in \<^verbatim>\<open>cart/src/pstv-demo-cart.c\<close>): the
  command line, dump mode, the framebuffer, the start of the input reader, of the worker pool and
  of the runtime with the failure path of each, the main loop of \<open>Demo_Loop\<close>, and the release of
  what was acquired. The framebuffer driver and the kernel are parameters.
\<close>

section \<open>Resources\<close>

text \<open>The descriptors live in the world of the kernel; the mappings of the framebuffer are counted.\<close>

record 'w process =
  world :: 'w
  mappings :: int

record 'w framebuffer_env =
  vscreeninfo :: "int \<Rightarrow> 'w \<Rightarrow> (u32 \<times> u32 \<times> u32) option"
  fscreeninfo :: "int \<Rightarrow> 'w \<Rightarrow> u32 option"
  fb_pixels :: "int \<Rightarrow> 'w \<Rightarrow> u32 list option"

definition mmap_screen :: "'w framebuffer_env \<Rightarrow> int \<Rightarrow> 'w process \<Rightarrow> (u32 list \<times> 'w process) option" where
  "mmap_screen env f p = map_option (\<lambda>screen. (screen, p\<lparr>mappings := mappings p + 1\<rparr>)) (fb_pixels env f (world p))"

definition munmap_screen :: "'w process \<Rightarrow> 'w process" where
  "munmap_screen p = p\<lparr>mappings := mappings p - 1\<rparr>"

definition close_screen :: "'w kernel \<Rightarrow> int \<Rightarrow> 'w process \<Rightarrow> 'w process" where
  "close_screen k f p = p\<lparr>world := k_close k f (world p)\<rparr>"

text \<open>The release of input, mapping and descriptor that ends the loop and every late failure path.\<close>

definition release_screen_and_input ::
    "'w cart_input_ops \<Rightarrow> 'w kernel \<Rightarrow> int \<Rightarrow> cart_input \<Rightarrow> 'w process \<Rightarrow> 'w process" where
  "release_screen_and_input ops k f inp p =
     close_screen k f (munmap_screen (p\<lparr>world := snd (cart_input_shutdown ops (Some inp) (world p))\<rparr>))"

section \<open>The program\<close>

datatype exit_point = No_Framebuffer | No_Screen_Info | Wrong_Screen | No_Mapping | No_Clock | No_Pool | No_Runtime | Loop_Ended

record 'w demo_exit =
  exit_point :: exit_point
  exit_status :: int
  exit_process :: "'w process"
  exit_pool :: "demo_sys option"

text \<open>
  Lines 184 to 188: \<open>open_screen\<close> gives the point of failure, or the descriptor, the pixels and the
  process with the mapping.
\<close>

definition open_screen ::
    "'w kernel \<Rightarrow> 'w framebuffer_env \<Rightarrow> 'w process \<Rightarrow> (exit_point \<times> 'w process) + (int \<times> u32 list \<times> 'w process)" where
  "open_screen k env p =
     (case k_open k ''/dev/fb0'' (world p) of (f, w) \<Rightarrow>
        let p = p\<lparr>world := w\<rparr>
        in if f < 0 then Inl (No_Framebuffer, p)
           else case vscreeninfo env f w of
             None \<Rightarrow> Inl (No_Screen_Info, p)
           | Some (xres, yres, bits_per_pixel) \<Rightarrow>
               (case fscreeninfo env f w of
                  None \<Rightarrow> Inl (No_Screen_Info, p)
                | Some line_length \<Rightarrow>
                    if \<not> screen_ok xres yres bits_per_pixel line_length then Inl (Wrong_Screen, p)
                    else case mmap_screen env f p of
                      None \<Rightarrow> Inl (No_Mapping, p)
                    | Some (screen, p) \<Rightarrow> Inr (f, screen, p)))"

text \<open>
  Live mode, lines 183 to 318. The clock, the success of the pool's allocations and thread creations,
  the schedule and the loop's environment are chosen by the rules.
\<close>

inductive live_main ::
    "nat \<Rightarrow> 'w kernel \<Rightarrow> (nat \<Rightarrow> u8 list) \<Rightarrow> 'w framebuffer_env \<Rightarrow> sine_table \<Rightarrow> 'w process \<Rightarrow> 'w demo_exit \<Rightarrow> bool"
  for fuel k junk env sines p where
  no_screen: "open_screen k env p = Inl (point, p1) \<Longrightarrow>
    live_main fuel k junk env sines p \<lparr>exit_point = point, exit_status = 1, exit_process = p1, exit_pool = None\<rparr>"
| no_clock: "open_screen k env p = Inr (f, screen, p1) \<Longrightarrow>
    cart_input_init False k junk dir file uninit (Some ''/sys/class/input'') (Some ''/dev/input'') inp0 (world p1) = Some (n, inp, w) \<Longrightarrow>
    monotonic_now_ns False None = None \<Longrightarrow>
    live_main fuel k junk env sines p \<lparr>exit_point = No_Clock, exit_status = 1,
      exit_process = release_screen_and_input (cart_input_default_ops k junk) k f inp (p1\<lparr>world := w\<rparr>), exit_pool = None\<rparr>"
| no_pool: "open_screen k env p = Inr (f, screen, p1) \<Longrightarrow>
    cart_input_init False k junk dir file uninit (Some ''/sys/class/input'') (Some ''/dev/input'') inp0 (world p1) = Some (n, inp, w) \<Longrightarrow>
    monotonic_now_ns False (Some t) = Some now \<Longrightarrow>
    cart_worker_pool_init False 4 180 ok (demo_memory screen) = Inr s0 \<Longrightarrow> internal_step\<^sup>*\<^sup>* s0 s \<Longrightarrow> main s = M_Failed \<Longrightarrow>
    live_main fuel k junk env sines p \<lparr>exit_point = No_Pool, exit_status = 1,
      exit_process = release_screen_and_input (cart_input_default_ops k junk) k f inp (p1\<lparr>world := w\<rparr>), exit_pool = Some s\<rparr>"
| no_runtime: "open_screen k env p = Inr (f, screen, p1) \<Longrightarrow>
    cart_input_init False k junk dir file uninit (Some ''/sys/class/input'') (Some ''/dev/input'') inp0 (world p1) = Some (n, inp, w) \<Longrightarrow>
    monotonic_now_ns False (Some t) = Some now \<Longrightarrow>
    cart_worker_pool_init False 4 180 ok (demo_memory screen) = Inr s0 \<Longrightarrow> internal_step\<^sup>*\<^sup>* s0 s \<Longrightarrow> main s = M_Idle \<Longrightarrow>
    cart_runtime_init False cart_scene_count now (1000000000 div 30) (8 * 1000000000) 500000000 = (status, r) \<Longrightarrow> status \<noteq> 0 \<Longrightarrow>
    live_main fuel k junk env sines p \<lparr>exit_point = No_Runtime, exit_status = 1,
      exit_process = release_screen_and_input (cart_input_default_ops k junk) k f inp (p1\<lparr>world := w\<rparr>), exit_pool = Some s\<rparr>"
| loop_ended: "open_screen k env p = Inr (f, screen, p1) \<Longrightarrow>
    demo_start (cart_input_default_ops k junk) (world p1) d0 \<Longrightarrow> px_heap (mem (sys d0)) fb = screen \<Longrightarrow>
    (demo_step fuel (cart_input_default_ops k junk) sines)\<^sup>*\<^sup>* d0 d \<Longrightarrow> pc d = L_Exit \<Longrightarrow>
    shutdown_call (sys d) s1 \<Longrightarrow> internal_step\<^sup>*\<^sup>* s1 s2 \<Longrightarrow> main s2 = M_Down \<Longrightarrow>
    live_main fuel k junk env sines p \<lparr>exit_point = Loop_Ended, exit_status = 0,
      exit_process = release_screen_and_input (cart_input_default_ops k junk) k f (input d) (p1\<lparr>world := dev d\<rparr>), exit_pool = Some s2\<rparr>"

text \<open>The whole program: exit status, process and, in dump mode, the file.\<close>

inductive demo_main ::
    "nat \<Rightarrow> 'w kernel \<Rightarrow> (nat \<Rightarrow> u8 list) \<Rightarrow> 'w framebuffer_env \<Rightarrow> sine_table \<Rightarrow> bool \<Rightarrow> string list \<Rightarrow> 'w process
     \<Rightarrow> int \<Rightarrow> 'w process \<Rightarrow> u8 list option \<Rightarrow> bool"
  for fuel k junk env sines file_opens args p where
  dumped: "parse_arguments args default_options = Some opts \<Longrightarrow> dump opts \<noteq> None \<Longrightarrow>
    dump_mode sines opts file_opens st written \<Longrightarrow> demo_main fuel k junk env sines file_opens args p st p written"
| lived: "parse_arguments args default_options = Some opts \<Longrightarrow> dump opts = None \<Longrightarrow> live_main fuel k junk env sines p e \<Longrightarrow>
    demo_main fuel k junk env sines file_opens args p (exit_status e) (exit_process e) None"

section \<open>The pool keeps its workers\<close>

lemma internal_count:
  assumes "internal_step\<^sup>*\<^sup>* s s'"
  shows "main s' = M_Failed \<or> main s' = M_Down \<or> worker_count (pool s') = worker_count (pool s)"
  using assms
proof (induction rule: rtranclp_induct)
  case (step y z)
  from step.hyps(2) show ?case unfolding internal_step_def
  proof
    assume "worker_step y z"
    then show ?thesis using step.IH by cases (auto simp: pass_start_def pass_stop_def)
  next
    assume "main_step y z"
    then show ?thesis using step.IH by cases (auto simp: pass_start_def pass_stop_def)
  qed
qed simp

lemma frame_count: "render_frame sines c which fr s s' \<Longrightarrow> worker_count (pool s') = worker_count (pool s)"
proof (induction rule: render_frame.induct)
  case (pooled sc f s s1 s2 m)
  from pooled(4) have "worker_count (pool s1) = worker_count (pool s)" by cases auto
  with internal_count [OF pooled(5)] pooled(6) show ?case by simp
qed auto

lemma show_count:
  assumes "show_frame sines d d'"
  shows "worker_count (pool (sys d')) = worker_count (pool (sys d))"
  using assms
proof cases
  case (1 d1 d2 h)
  have "worker_count (pool (sys d1)) = worker_count (pool (sys d))"
    using 1(2) by cases (auto simp: render_scene_into_def dest!: frame_count)
  moreover have "worker_count (pool (sys d2)) = worker_count (pool (sys d1))"
    using 1(3) by cases (auto dest!: frame_count)
  ultimately show ?thesis using 1(1) by (simp add: count_picture_def Let_def)
qed

lemma reachable_workers:
  "demo_reachable fuel ops sines w0 d \<Longrightarrow> sine_bounded sines \<Longrightarrow> worker_count (pool (sys d)) = 4"
proof (induction rule: demo_reachable.induct)
  case (1 d)
  from 1(1) show ?case
  proof cases
    case (1 xres yres bpp line screen dir fl uninit inp0 n inp w t now ok s0 s r)
    have "worker_count (pool s0) = 4"
      using 1(6) by (auto simp: cart_worker_pool_init_def fresh_pool_def split: prod.splits bool.splits)
    with internal_count [OF 1(7)] 1(1,8) show ?thesis by simp
  qed
next
  case (2 d d')
  have "demo_inv d" by (rule reachable_demo_inv [OF 2(1,4)])
  from loop_step_cases [OF this 2(2)] show ?case
    using 2(3,4) by (auto simp: steps_runtime_def dest!: show_count)
qed

section \<open>The input of the loop is a session\<close>

lemma poll_input_session:
  assumes "session ops w0 (input d) (dev d)" "poll_input fuel ops d = Some d'"
  shows "session ops w0 (input d') (dev d')"
proof -
  obtain st polled fr inp w where p: "cart_input_poll fuel ops False True (Some (input d)) (dev d) = Some (st, polled, fr, inp, w)"
    using assms(2) by (auto simp: poll_input_def split: option.splits)
  then obtain inp1 where inp: "inp = Some inp1" by (auto simp: cart_input_poll_def split: option.splits)
  have s: "session ops w0 inp1 w" by (rule session.polled [OF assms(1) p [unfolded inp]])
  show ?thesis
  proof (cases "st = 0")
    case True
    with assms(2) p s show ?thesis by (auto simp: poll_input_def inp handle_action_def)
  next
    case False
    obtain inp2 w2 where sh: "cart_input_shutdown ops (Some inp1) w = (Some inp2, w2)" by (simp add: cart_input_shutdown_def)
    from session.shut [OF s sh] False assms(2) p sh show ?thesis by (auto simp: poll_input_def inp)
  qed
qed

lemma show_frame_keeps:
  assumes "show_frame sines d d'"
  shows "input d' = input d" "dev d' = dev d" "flags d' = flags d"
proof -
  have "input d' = input d \<and> dev d' = dev d \<and> flags d' = flags d" using assms
  proof cases
    case (1 d1 d2 h)
    have "input d1 = input d \<and> dev d1 = dev d \<and> flags d1 = flags d" using 1(2) by cases auto
    moreover have "input d2 = input d1 \<and> dev d2 = dev d1 \<and> flags d2 = flags d1" using 1(3) by cases auto
    ultimately show ?thesis using 1(1) by (simp add: count_picture_def Let_def)
  qed
  then show "input d' = input d" "dev d' = dev d" "flags d' = flags d" by simp_all
qed

lemma reachable_session: "demo_reachable fuel ops sines w0 d \<Longrightarrow> session ops w0 (input d) (dev d)"
proof (induction rule: demo_reachable.induct)
  case (1 d)
  then show ?case by cases (auto intro: started)
next
  case (2 d d')
  from 2(2) show ?case
  proof cases
    case (tick now r d1)
    have "session ops w0 (input d1) (dev d1)"
      by (rule poll_input_session [OF _ tick(5)]) (use 2(3) in \<open>simp add: take_request_def\<close>)
    with tick(1) show ?thesis by simp
  qed (use 2(3) in \<open>auto simp: show_frame_keeps\<close>)
qed

section \<open>The shutdown of the pool\<close>

lemma ready_shutdown:
  assumes "pool_ready s" "worker_count (pool s) \<noteq> 0"
  shows "\<exists>s1. shutdown_call s s1"
    and "shutdown_call s s1 \<Longrightarrow> pool_inv s1 \<and> main s1 = M_ShutAtStart"
proof -
  show "\<exists>s1. shutdown_call s s1"
    by (rule exI, rule shutdown_flag) (use assms in \<open>simp_all add: pool_ready_def\<close>)
  show "shutdown_call s s1 \<Longrightarrow> pool_inv s1 \<and> main s1 = M_ShutAtStart"
    using assms by (auto elim!: shutdown_call.cases simp: pool_ready_def pool_inv_def main_inv_def Let_def)
qed

definition in_shutdown :: "('s, 'w) pool_sys \<Rightarrow> bool" where
  "in_shutdown s \<longleftrightarrow> pool_inv s \<and> (main s = M_ShutAtStart \<or> main s = M_ShutWait \<or> (\<exists>n. main s = M_Join n) \<or> main s = M_Down)"

lemma shutdown_step:
  assumes st: "internal_step s s'" and i: "in_shutdown s"
  shows "in_shutdown s'"
proof -
  have "pool_inv s'" using internal_step_inv [OF st] i by (simp add: in_shutdown_def)
  moreover have "main s' = M_ShutAtStart \<or> main s' = M_ShutWait \<or> (\<exists>n. main s' = M_Join n) \<or> main s' = M_Down"
    using st unfolding internal_step_def
  proof
    assume "worker_step s s'"
    then show ?thesis using i by cases (auto simp: in_shutdown_def pass_start_def pass_stop_def)
  next
    assume "main_step s s'"
    then show ?thesis using i by cases (auto simp: in_shutdown_def pass_start_def pass_stop_def)
  qed
  ultimately show ?thesis by (simp add: in_shutdown_def)
qed

lemma shutdown_run: "internal_step\<^sup>*\<^sup>* s s' \<Longrightarrow> in_shutdown s \<Longrightarrow> in_shutdown s'"
  by (induction rule: rtranclp_induct) (auto intro: shutdown_step)

lemma shutdown_jobs: "in_shutdown s \<Longrightarrow> jobs_defined s"
  using main_of_worker [of s _ W_Run] unfolding in_shutdown_def jobs_defined_def pool_inv_def at_def by fastforce

lemma shutdown_returns:
  assumes "in_shutdown s"
  shows "\<exists>s'. internal_step\<^sup>*\<^sup>* s s' \<and> main s' = M_Down"
  using assms
proof (induction s rule: wf_induct_rule [OF wf_pool_order])
  case (1 s)
  show ?case
  proof (cases "main s = M_Down")
    case False
    have inv: "pool_inv s" using "1.prems" by (simp add: in_shutdown_def)
    have "\<not> at_rest s" using False "1.prems" by (auto simp: at_rest_def in_shutdown_def)
    then obtain s1 where st: "internal_step s s1" using pool_progress [OF inv _ shutdown_jobs [OF "1.prems"]] by blast
    from "1.IH" [OF internal_step_decreases [OF st inv] shutdown_step [OF st "1.prems"]] st
    show ?thesis by (meson converse_rtranclp_into_rtranclp)
  qed blast
qed

lemma down_clean: "pool_inv s \<Longrightarrow> main s = M_Down \<or> main s = M_Failed \<Longrightarrow> set (workers s) \<subseteq> {W_None, W_Exited} \<and> objects s = {}"
  by (auto simp: pool_inv_def main_inv_def Let_def)

section \<open>What the program leaves behind\<close>

lemma steps_reachable:
  "(demo_step fuel ops sines)\<^sup>*\<^sup>* d0 d \<Longrightarrow> demo_start ops w0 d0 \<Longrightarrow> demo_reachable fuel ops sines w0 d"
  by (induction rule: rtranclp_induct) (auto intro: demo_reachable.intros)

lemma exit_shutdown:
  assumes "sine_bounded sines" "demo_reachable fuel ops sines w0 d"
  shows "\<exists>s1. shutdown_call (sys d) s1" and "shutdown_call (sys d) s1 \<Longrightarrow> in_shutdown s1"
proof -
  have "pool_ready (sys d)" using reachable_demo_inv [OF assms(2,1)] by (simp add: demo_inv_def demo_ok_def)
  moreover have "worker_count (pool (sys d)) \<noteq> 0" using reachable_workers [OF assms(2,1)] by simp
  ultimately show "\<exists>s1. shutdown_call (sys d) s1" "shutdown_call (sys d) s1 \<Longrightarrow> in_shutdown s1"
    using ready_shutdown [of "sys d"] by (auto simp: in_shutdown_def)
qed

lemma exit_run:
  assumes "sine_bounded sines" "open_screen k env p = Inr (f, screen, p1)"
    and "demo_start (cart_input_default_ops k junk) (world p1) d0" "px_heap (mem (sys d0)) fb = screen"
    and "(demo_step fuel (cart_input_default_ops k junk) sines)\<^sup>*\<^sup>* d0 d" "pc d = L_Exit"
  shows "\<exists>e. live_main fuel k junk env sines p e \<and> exit_status e = 0 \<and> exit_point e = Loop_Ended"
proof -
  note sh = exit_shutdown [OF assms(1) steps_reachable [OF assms(5,3)]]
  obtain s1 s2 where s: "shutdown_call (sys d) s1" "internal_step\<^sup>*\<^sup>* s1 s2" "main s2 = M_Down"
    using sh shutdown_returns by blast
  from loop_ended [OF assms(2-6) s] show ?thesis by force
qed

lemma open_screen_world:
  assumes "kernel_ok k opened"
  shows "open_screen k env p = Inr (f, screen, p1) \<Longrightarrow>
      f \<notin> opened (world p) \<and> opened (world p1) = insert f (opened (world p)) \<and> mappings p1 = mappings p + 1"
    and "open_screen k env p = Inl (point, p1) \<Longrightarrow> mappings p1 = mappings p \<and>
      (if point = No_Framebuffer then opened (world p1) = opened (world p)
       else \<exists>f. f \<notin> opened (world p) \<and> opened (world p1) = insert f (opened (world p)))"
  using assms unfolding kernel_ok_def open_screen_def mmap_screen_def
  by (auto simp: Let_def split: prod.splits if_splits option.splits) (metis linorder_not_less)+

lemma release_world:
  assumes k: "kernel_ok k opened" and s: "session (cart_input_default_ops k junk) (world p1) inp w"
    and o: "f \<notin> B" "opened (world p1) = insert f B"
  shows "opened (world (release_screen_and_input (cart_input_default_ops k junk) k f inp (p1\<lparr>world := w\<rparr>))) = B"
    "mappings (release_screen_and_input (cart_input_default_ops k junk) k f inp (p1\<lparr>world := w\<rparr>)) = mappings p1 - 1"
proof -
  let ?ops = "cart_input_default_ops k junk"
  obtain inp' w' where sh: "cart_input_shutdown ?ops (Some inp) w = (Some inp', w')" by (simp add: cart_input_shutdown_def)
  note ops = default_device_ops [OF k, of junk]
  have "opened w' = insert f B" using shutdown_sound [OF ops session_sound [OF s ops] sh] o by simp
  then have "opened (k_close k f w') = B" using k o by (simp add: kernel_ok_def)
  then show "opened (world (release_screen_and_input ?ops k f inp (p1\<lparr>world := w\<rparr>))) = B"
    "mappings (release_screen_and_input ?ops k f inp (p1\<lparr>world := w\<rparr>)) = mappings p1 - 1"
    by (simp_all add: release_screen_and_input_def close_screen_def munmap_screen_def sh)
qed


text \<open>
  Claim C15. Leaving the main loop always ends the program: at the end of the loop the pool's shutdown can
  be called, under every schedule of the workers it goes on until every thread has been joined, and a
  complete run of the program with the status 0 exists.
\<close>

theorem demo_exit_returns:
  assumes "sine_bounded sines" "open_screen k env p = Inr (f, screen, p1)"
    and "demo_start (cart_input_default_ops k junk) (world p1) d0" "px_heap (mem (sys d0)) fb = screen"
    and "(demo_step fuel (cart_input_default_ops k junk) sines)\<^sup>*\<^sup>* d0 d" "pc d = L_Exit"
  shows "(\<exists>e. live_main fuel k junk env sines p e \<and> exit_status e = 0) \<and>
    (\<forall>s1. shutdown_call (sys d) s1 \<longrightarrow>
       (\<nexists>run. run 0 = s1 \<and> (\<forall>i. internal_step (run i) (run (Suc i)))) \<and>
       (\<forall>s. internal_step\<^sup>*\<^sup>* s1 s \<longrightarrow> main s \<noteq> M_Down \<longrightarrow> (\<exists>s'. internal_step s s')))"
proof (intro conjI allI impI)
  note r = steps_reachable [OF assms(5,3)]
  note sh = exit_shutdown [OF assms(1) r]
  from exit_run [OF assms] show "\<exists>e. live_main fuel k junk env sines p e \<and> exit_status e = 0" by blast
  fix s1 assume "shutdown_call (sys d) s1"
  then have i: "in_shutdown s1" by (rule sh(2))
  then have "pool_inv s1" by (simp add: in_shutdown_def)
  with no_infinite_internal show "\<nexists>run. run 0 = s1 \<and> (\<forall>i. internal_step (run i) (run (Suc i)))" by metis
  fix s assume "internal_step\<^sup>*\<^sup>* s1 s" "main s \<noteq> M_Down"
  with shutdown_run [OF this(1) i] pool_progress [of s] shutdown_jobs [of s] show "\<exists>s'. internal_step s s'"
    by (auto simp: in_shutdown_def at_rest_def)
qed

lemma stopped_step:
  assumes "demo_step fuel ops sines d d'" "\<not> running (flags d)"
  shows "\<not> running (flags d')" "pc d \<noteq> L_Show \<Longrightarrow> pc d' \<noteq> L_Show"
  using assms by (cases; auto simp: show_frame_keeps on_signal_def)+

text \<open>
  A request to stop is prompt: once a signal or the quit action has cleared the running flag,
  nothing sets it again and the loop shows at most one more picture, the one it was about to show.
\<close>

theorem stop_is_prompt:
  assumes "demo_run fuel ops sines d n d'" "\<not> running (flags d)"
  shows "\<not> running (flags d') \<and> n \<le> (if pc d = L_Show then 1 else 0)"
proof -
  have "\<not> running (flags d') \<and> n + (if pc d' = L_Show then 1 else 0) \<le> (if pc d = L_Show then 1 else (0 :: nat))"
    using assms
  proof (induction rule: demo_run.induct)
    case (2 n d1 d2)
    note s = stopped_step [OF 2(2)]
    show ?case
    proof (cases "pc d1 = L_Show")
      case True
      with 2(3,4) s(1) show ?thesis by (cases "pc d = L_Show") auto
    next
      case False
      with 2(3,4) s show ?thesis by simp
    qed
  qed simp
  then show ?thesis by (simp split: if_splits)
qed

section \<open>Connections only go away\<close>

text \<open>Each slot keeps its descriptor or is empty afterwards.\<close>

abbreviation sheds :: "int list \<Rightarrow> int list \<Rightarrow> bool" where
  "sheds \<equiv> list_all2 (\<lambda>f f'. f' = f \<or> f' < 0)"

lemma sheds_refl: "sheds fs fs"
  by (simp add: list_all2_refl)

lemma sheds_trans: "sheds a b \<Longrightarrow> sheds b c \<Longrightarrow> sheds a c"
  by (rule list_all2_trans) auto

lemma source_fds:
  assumes "\<And>s. fd (g s) = fd s"
  shows "map fd (source (upd_source i g inp)) = map fd (source inp)"
proof (cases "i < length (source inp)")
  case True
  then have "(map fd (source inp))[i := fd (source inp ! i)] = map fd (source inp)" by (simp add: list_update_same_conv)
  with assms show ?thesis by (simp add: map_update)
qed (simp add: list_update_beyond)

lemma resync_fd: "fd (resync_axes ops w axes s) = fd s"
  by (induction axes arbitrary: s) (auto split: option.splits)

lemma consume_fds: "map fd (source (consume_event ops w i ev inp)) = map fd (source inp)"
proof -
  have state: "map fd (source (upd_source i (\<lambda>s. s\<lparr>src_state := x\<rparr>) inp1)) = map fd (source inp1)" for x inp1
    by (rule source_fds) simp
  have raw: "map fd (source (upd_source i (\<lambda>s. s\<lparr>last_raw := (last_raw s)[slot := v]\<rparr>) inp)) = map fd (source inp)" for slot v
    by (rule source_fds) simp
  have keys: "map fd (source (upd_source i (\<lambda>s. s\<lparr>held_keys := held_after c v (held_keys s)\<rparr>) inp)) = map fd (source inp)" for c v
    by (rule source_fds) simp
  have key: "map fd (source (process_key_event i c v inp)) = map fd (source inp)" for c v
    using keys [of c v] by (simp add: process_key_event_def enqueue_action_def Let_def)
  have sync: "map fd (source (resync_after_desync ops w i inp)) = map fd (source inp)"
    unfolding resync_after_desync_def by (rule source_fds) (simp add: resync_source_def resync_fd split: option.splits)
  show ?thesis unfolding consume_event_def Let_def
    by (simp only: state raw key sync split: if_split option.split) simp
qed

lemma drain_fds: "map fd (source (snd (drain ops w i p inp))) = map fd (source inp)"
proof (induction ops w i p inp rule: drain.induct)
  case (1 ops w i p inp)
  show ?case
  proof (cases "16 \<le> part_len p")
    case True
    obtain b q where "take_event p = (b, q)" by fastforce
    with 1 [OF True this [symmetric]] True show ?thesis by (subst drain.simps) (simp add: consume_fds)
  qed (simp add: drain.simps)
qed

lemma drain_slot_fds: "map fd (source (drain_slot ops w i inp)) = map fd (source inp)"
  using drain_fds [of ops w i "partial inp ! i" inp] by (auto simp add: drain_slot_def split: prod.splits)

lemma update_sheds: "fd s < 0 \<Longrightarrow> sheds (map fd ss) (map fd (ss[i := s]))"
  by (cases "i < length ss") (auto simp: list_all2_conv_all_nth nth_list_update)

lemma disconnect_sheds: "handle_disconnect ops i inp w = (inp', w') \<Longrightarrow> sheds (map fd (source inp)) (map fd (source inp'))"
  by (auto simp: handle_disconnect_def Let_def intro!: update_sheds)

lemma pump_sheds: "pump_source fuel ops i inp w = Some (inp', w') \<Longrightarrow> sheds (map fd (source inp)) (map fd (source inp'))"
proof (induction fuel arbitrary: inp w)
  case (Suc fuel)
  from Suc.prems show ?case
  proof (cases rule: pump_cases)
    case (1 bs w1)
    from Suc.IH [OF 1(2)] show ?thesis by (simp add: drain_slot_fds)
  next
    case (2 e w1)
    from disconnect_sheds [OF 2(2)] show ?thesis by (simp add: drain_slot_fds)
  next
    case (3 w1)
    from Suc.IH [OF 3(2)] show ?thesis by (simp add: drain_slot_fds)
  next
    case 4
    then show ?thesis by (simp add: drain_slot_fds sheds_refl)
  qed
qed simp

lemma poll_sources_sheds:
  "poll_sources fuel ops is inp w = Some (inp', w') \<Longrightarrow> sheds (map fd (source inp)) (map fd (source inp'))"
proof (induction "is" arbitrary: inp w)
  case (Cons i "is")
  show ?case
  proof (cases "fd (source inp ! i) < 0 \<or> src_state (source inp ! i) = CART_INPUT_DESYNC")
    case True
    with Cons show ?thesis by simp
  next
    case False
    with Cons.prems obtain inp1 w1 where r: "pump_source fuel ops i inp w = Some (inp1, w1)"
      "poll_sources fuel ops is inp1 w1 = Some (inp', w')" by (auto split: bind_splits)
    from sheds_trans [OF pump_sheds [OF r(1)] Cons.IH [OF r(2)]] show ?thesis .
  qed
qed (simp add: sheds_refl)

lemma poll_sheds:
  assumes "cart_input_poll fuel ops False want_frame (Some inp) w = Some (st, a, fr, Some inp', w')"
  shows "sheds (map fd (source inp)) (map fd (source inp'))"
proof -
  obtain inp1 w1 q where "poll_sources fuel ops [0..<4] inp w = Some (inp1, w1)" "inp' = inp1\<lparr>pending := q\<rparr>"
    using assms by (auto simp: cart_input_poll_def poll_body_def Let_def split: option.splits bind_splits prod.splits if_splits)
  from poll_sources_sheds [OF this(1)] this(2) show ?thesis by simp
qed

lemma shutdown_sheds:
  "cart_input_shutdown ops (Some inp) w = (Some inp', w') \<Longrightarrow> sheds (map fd (source inp)) (map fd (source inp'))"
  by (auto simp: cart_input_shutdown_def reset_source_def list_all2_conv_all_nth)

lemma poll_input_sheds:
  assumes "poll_input fuel ops d = Some d'"
  shows "sheds (map fd (source (input d))) (map fd (source (input d')))"
proof -
  obtain st polled fr inp w where p: "cart_input_poll fuel ops False True (Some (input d)) (dev d) = Some (st, polled, fr, inp, w)"
    using assms by (auto simp: poll_input_def split: option.splits)
  then obtain inp1 where inp: "inp = Some inp1" by (auto simp: cart_input_poll_def split: option.splits)
  note s = poll_sheds [OF p [unfolded inp]]
  obtain inp2 w2 where sh: "cart_input_shutdown ops (Some inp1) w = (Some inp2, w2)" by (simp add: cart_input_shutdown_def)
  from sheds_trans [OF s shutdown_sheds [OF sh]] s assms p sh show ?thesis
    by (auto simp: poll_input_def inp handle_action_def split: if_splits)
qed

lemma step_sheds:
  assumes "demo_step fuel ops sines d d'"
  shows "sheds (map fd (source (input d))) (map fd (source (input d')))"
  using assms
proof cases
  case (tick now r d1)
  from poll_input_sheds [OF tick(5)] tick(1) show ?thesis by (simp add: take_request_def split: if_splits)
qed (auto simp: show_frame_keeps sheds_refl)

text \<open>
  Claim C16. The demo never connects a device after its start: along any run of the loop, whatever is
  plugged in and whatever the devices do, a slot that is empty stays empty, and one that is not keeps
  its descriptor until it is empty for good. (The interface describes a rescan about every two
  seconds; nothing in the program calls it.)
\<close>

theorem no_device_connects_later:
  assumes "(demo_step fuel ops sines)\<^sup>*\<^sup>* d d'"
  shows "length (source (input d')) = length (source (input d)) \<and>
    (\<forall>i < length (source (input d)). fd (source (input d') ! i) = fd (source (input d) ! i) \<or> fd (source (input d') ! i) < 0)"
proof -
  have "sheds (map fd (source (input d))) (map fd (source (input d')))"
    using assms by (induction rule: rtranclp_induct) (auto intro: sheds_refl sheds_trans step_sheds)
  then show ?thesis by (auto simp: list_all2_conv_all_nth)
qed

section \<open>A concrete run\<close>

text \<open>A screen of the expected shape, no input directory, and an interrupt before the first frame.\<close>

abbreviation black :: "u32 list" where
  "black \<equiv> replicate 921600 0"

definition black_env :: "'w framebuffer_env" where
  "black_env = \<lparr>vscreeninfo = (\<lambda>f w. Some (1280, 720, 32)), fscreeninfo = (\<lambda>f w. Some 5120), fb_pixels = (\<lambda>f w. Some black)\<rparr>"

definition idle_state :: "'w \<Rightarrow> 'w demo" where
  "idle_state w = \<lparr>pc = L_Top, sys = started_pool (demo_memory black), runtime = first_runtime,
     transition = zero_transition, displayed_scene = scene_index first_runtime, input = zero_input, dev = w,
     flags = \<lparr>running = True, next_scene_requested = False\<rparr>, now_ns = 0,
     rendered_frames = 0, report_frame = 0, report_start_ns = 0\<rparr>"

lemma idle_start: "demo_start ops w (idle_state w)"
proof -
  obtain s0 where s0: "cart_worker_pool_init False 4 180 (\<lambda>_. True) (demo_memory black) = Inr s0"
    "internal_step\<^sup>*\<^sup>* s0 (started_pool (demo_memory black))" using pool_starts by blast
  have r: "cart_runtime_init False cart_scene_count 0 (1000000000 div 30) (8 * 1000000000) 500000000 = (0, Some first_runtime)"
    by (simp add: first_runtime_def cart_runtime_init_def)
  show ?thesis unfolding idle_state_def
    by (rule demo_start.intros [OF _ _ _ _ s0 _ r, where xres = 1280 and yres = 720 and bpp = 32 and line = 5120
          and dir = "\<lambda>_. Inl 2" and inp0 = zero_input and t = "\<lparr>tv_sec = 0, tv_nsec = 0\<rparr>"])
      (simp_all add: screen_ok_def cart_input_init_ex_def discover_pass_def ENOENT_def monotonic_now_ns_def started_pool_def)
qed

definition stopped_state :: "'w \<Rightarrow> 'w demo" where
  "stopped_state w = (idle_state w)\<lparr>flags := on_signal 2 (flags (idle_state w))\<rparr>"

lemma idle_stops:
  "(demo_step fuel ops sines)\<^sup>*\<^sup>* (idle_state w) ((stopped_state w)\<lparr>pc := L_Exit\<rparr>)"
proof -
  have "demo_step fuel ops sines (idle_state w) (stopped_state w)"
    unfolding stopped_state_def by (rule signalled) (simp add: idle_state_def)
  moreover have "demo_step fuel ops sines (stopped_state w) ((stopped_state w)\<lparr>pc := L_Exit\<rparr>)"
    by (rule stop) (simp_all add: stopped_state_def idle_state_def on_signal_def)
  ultimately show ?thesis by (meson converse_rtranclp_into_rtranclp r_into_rtranclp)
qed

lemma black_opens: "open_screen kbd_kernel black_env \<lparr>world = [], mappings = 0\<rparr> = Inr (3, black, \<lparr>world = [3], mappings = 1\<rparr>)"
  by (simp add: open_screen_def kbd_kernel_def fresh_fd_def black_env_def mmap_screen_def screen_ok_def)

lemma black_screen: "px_heap (mem (sys (idle_state w))) fb = black"
  by (simp add: idle_state_def started_pool_def demo_memory_def)

lemma stopped_exit: "pc ((stopped_state w)\<lparr>pc := L_Exit\<rparr>) = L_Exit"
  by simp


theorem demo_exit_returns_witness:
  "\<exists>e. live_main 1 kbd_kernel (\<lambda>n. replicate n 0) black_env flat_sines \<lparr>world = [], mappings = 0\<rparr> e \<and> exit_status e = 0"
proof -
  let ?ops = "cart_input_default_ops kbd_kernel (\<lambda>n. replicate n 0)"
  have "demo_start ?ops (world \<lparr>world = [3], mappings = 1\<rparr>) (idle_state [3])" using idle_start [of ?ops "[3]"] by simp
  from demo_exit_returns [OF flat_sines_bounded black_opens this black_screen idle_stops stopped_exit] show ?thesis by blast
qed

theorem stop_is_prompt_witness:
  "\<exists>d'. demo_run 1 kbd_ops flat_sines (stopped_state []) 0 d' \<and> pc d' = L_Exit \<and> \<not> running (flags d')"
proof -
  have "demo_step 1 kbd_ops flat_sines (stopped_state []) ((stopped_state [])\<lparr>pc := L_Exit\<rparr>)"
    by (rule stop) (simp_all add: stopped_state_def idle_state_def on_signal_def)
  from demo_run.intros(2) [OF demo_run.intros(1) this]
  have r: "demo_run 1 kbd_ops flat_sines (stopped_state []) 0 ((stopped_state [])\<lparr>pc := L_Exit\<rparr>)" by simp
  have "\<not> running (flags (stopped_state []))" by (simp add: stopped_state_def on_signal_def)
  from stop_is_prompt [OF r this] r show ?thesis by (intro exI [of _ "(stopped_state [])\<lparr>pc := L_Exit\<rparr>"]) simp
qed

lemma idle_input: "input (idle_state w) = zero_input"
  by (simp add: idle_state_def)

lemma zero_slot: "fd (source zero_input ! 0) < 0" "0 < length (source zero_input)"
  by (simp_all add: zero_input_def reset_source_def)

theorem no_device_connects_later_witness:
  "\<exists>d'. (demo_step 1 kbd_ops flat_sines)\<^sup>*\<^sup>* (idle_state []) d' \<and> pc d' = L_Exit \<and> fd (source (input d') ! 0) < 0"
proof -
  let ?start = "idle_state ([] :: int list)" and ?d = "(stopped_state ([] :: int list))\<lparr>pc := L_Exit\<rparr>"
  have s: "(demo_step 1 kbd_ops flat_sines)\<^sup>*\<^sup>* ?start ?d" by (rule idle_stops)
  have i: "fd (source (input ?start) ! 0) < 0" "0 < length (source (input ?start))"
    unfolding idle_input by (rule zero_slot)+
  have "fd (source (input ?d) ! 0) < 0"
    using no_device_connects_later [OF s, THEN conjunct2, THEN spec, THEN mp, OF i(2)] i(1) by (elim disjE) simp_all
  with s stopped_exit show ?thesis by (intro exI conjI)
qed

end
