(* ===== verification/Stale_Input.thy ===== *)
theory Stale_Input
  imports Input_Evdev
begin

text \<open>
  The earlier input reader (\<^verbatim>\<open>cart/src/input.c\<close>). It is no longer part of the build: its structure has the
  members \<open>fd\<close>, \<open>path\<close> and \<open>name\<close> and its poll two arguments, as in the header of its time. It looks
  for one device, by the text files of the sysfs tree, and keeps one descriptor. Modelled are the text
  helpers, discovery, poll and close; \<^verbatim>\<open>CART_INPUT_PATH_MAX\<close>, which no header defines any more, is the
  parameter \<open>path_max\<close>. Directory, files and system calls are parameters.
\<close>

section \<open>Text helpers\<close>

definition stale_path_join :: "nat \<Rightarrow> string \<Rightarrow> string \<Rightarrow> string option" where
  "stale_path_join output_size left right =
     (let written = left @ ''/'' @ right in if length written \<ge> output_size then None else Some written)"

text \<open>\<^verbatim>\<open>fgets\<close> with room for \<open>n\<close> characters: it stops behind the first newline.\<close>

fun fgets_text :: "nat \<Rightarrow> string \<Rightarrow> string" where
  "fgets_text 0 s = []"
| "fgets_text (Suc n) [] = []"
| "fgets_text (Suc n) (c # s) = (if c = CHR 0x0A then [c] else c # fgets_text n s)"

text \<open>
  A file that opens is its contents and whether closing it succeeds; a file that does not open or
  cannot be read is \<open>None\<close>.
\<close>

type_synonym text_files = "string \<Rightarrow> (string \<times> bool) option"

definition drop_last :: "char \<Rightarrow> string \<Rightarrow> string" where
  "drop_last ch s = (if s \<noteq> [] \<and> last s = ch then butlast s else s)"

definition read_line :: "text_files \<Rightarrow> string \<Rightarrow> nat \<Rightarrow> string option" where
  "read_line files path output_size =
     (if output_size < 2 then None
      else case files path of
        None \<Rightarrow> None
      | Some (content, closes) \<Rightarrow>
          let got = fgets_text (output_size - 1) content;
              out = drop_last (CHR 0x0D) (drop_last (CHR 0x0A) (c_str got))
          in if got = [] then None
             else if drop (length got) content \<noteq> [] then None
             else if \<not> closes then None
             else Some out)"

definition event_number :: "string \<Rightarrow> nat option" where
  "event_number name =
     (if take 5 name \<noteq> ''event'' then None
      else let digits = drop 5 name
           in if digits = [] then None
              else if \<not> list_all is_digit digits then None
              else case strtou 32 digits of
                (parsed, erange, rest) \<Rightarrow> if erange \<or> rest \<noteq> [] \<or> int parsed > INT_MAX then None else Some parsed)"

definition hex_value :: "char \<Rightarrow> nat option" where
  "hex_value ch =
     (let v = of_char ch
      in if 48 \<le> v \<and> v \<le> 57 then Some (v - 48)
         else if 97 \<le> v \<and> v \<le> 102 then Some (v - 97 + 10)
         else if 65 \<le> v \<and> v \<le> 70 then Some (v - 65 + 10)
         else None)"

text \<open>The scan of \<^verbatim>\<open>capability_has_bit\<close>, from the last character to the first.\<close>

fun capability_scan :: "string \<Rightarrow> nat \<Rightarrow> nat \<Rightarrow> bool" where
  "capability_scan [] b nibble = False"
| "capability_scan (ch # rest) b nibble =
     (if is_space ch then capability_scan rest b nibble
      else case hex_value ch of
        None \<Rightarrow> False
      | Some v \<Rightarrow> if nibble = b div 4 then v AND push_bit (b mod 4) 1 \<noteq> 0 else capability_scan rest b (Suc nibble))"

definition capability_has_bit :: "string \<Rightarrow> nat \<Rightarrow> bool" where
  "capability_has_bit s b = capability_scan (rev s) b 0"

abbreviation (input) BTN_A_BIT :: nat where "BTN_A_BIT \<equiv> 304"
abbreviation (input) BTN_START_BIT :: nat where "BTN_START_BIT \<equiv> 315"
abbreviation (input) BTN_DPAD_UP_BIT :: nat where "BTN_DPAD_UP_BIT \<equiv> 544"
abbreviation (input) KEY_ESC_BIT :: nat where "KEY_ESC_BIT \<equiv> 1"
abbreviation (input) KEY_Q_BIT :: nat where "KEY_Q_BIT \<equiv> 16"
abbreviation (input) EV_KEY_BIT :: nat where "EV_KEY_BIT \<equiv> 1"

definition candidate_rank :: "string \<Rightarrow> string \<Rightarrow> string \<Rightarrow> int" where
  "candidate_rank name phys key_capabilities =
     (if phys = VITA_BUTTONS_PHYS then 4
      else if name = VITA_BUTTONS_NAME then 3
      else if capability_has_bit key_capabilities BTN_A_BIT \<or> capability_has_bit key_capabilities BTN_DPAD_UP_BIT \<or>
              capability_has_bit key_capabilities BTN_START_BIT then 2
      else if capability_has_bit key_capabilities KEY_ESC_BIT \<or> capability_has_bit key_capabilities KEY_Q_BIT then 1
      else 0)"

section \<open>Discovery\<close>

record stale_input =
  in_fd :: int
  in_path :: string
  in_name :: string

text \<open>The locals of the scan: the best device so far.\<close>

record best_device =
  best_fd :: int
  best_rank :: int
  best_number :: nat
  best_path :: string
  best_name :: string

definition no_device :: best_device where
  "no_device = \<lparr>best_fd = - 1, best_rank = 0, best_number = 4294967295, best_path = [], best_name = []\<rparr>"

text \<open>
  A directory that opens: its entries, \<^verbatim>\<open>errno\<close> after the last \<^verbatim>\<open>readdir\<close> (0 at the end of the
  directory) and the error of \<^verbatim>\<open>closedir\<close> (0 for none). The system calls work on a state \<open>'w\<close> of the
  descriptor table.
\<close>

record directory =
  entries :: "string list"
  scan_errno :: int
  closedir_errno :: int

record 'w sys_calls =
  sys_open :: "string \<Rightarrow> 'w \<Rightarrow> int \<times> 'w"
  sys_close :: "int \<Rightarrow> 'w \<Rightarrow> 'w"

text \<open>What the sysfs files say of one entry: rank, number, name and device path of a candidate.\<close>

definition sysfs_candidate ::
    "nat \<Rightarrow> text_files \<Rightarrow> string \<Rightarrow> string \<Rightarrow> string \<Rightarrow> (int \<times> nat \<times> string \<times> string) option" where
  "sysfs_candidate path_max files sys_class_input dev_input d_name = do {
     num \<leftarrow> event_number d_name;
     event_path \<leftarrow> stale_path_join path_max sys_class_input d_name;
     device_path \<leftarrow> stale_path_join path_max event_path ''device'';
     metadata_path \<leftarrow> stale_path_join path_max device_path ''capabilities/ev'';
     capabilities \<leftarrow> read_line files metadata_path 256;
     if \<not> capability_has_bit capabilities EV_KEY_BIT then None
     else do {
       metadata_path \<leftarrow> stale_path_join path_max device_path ''name'';
       name \<leftarrow> read_line files metadata_path CART_INPUT_NAME_MAX;
       let phys = (case stale_path_join path_max device_path ''phys'' of
                     None \<Rightarrow> []
                   | Some metadata_path \<Rightarrow> (case read_line files metadata_path CART_INPUT_NAME_MAX of None \<Rightarrow> [] | Some p \<Rightarrow> p));
       metadata_path \<leftarrow> stale_path_join path_max device_path ''capabilities/key'';
       key_capabilities \<leftarrow> read_line files metadata_path 256;
       let rank = candidate_rank name phys key_capabilities;
       if rank = 0 then None
       else do {
         event_path \<leftarrow> stale_path_join path_max dev_input d_name;
         Some (rank, num, name, event_path)
       }
     }
   }"

text \<open>
  One round of the loop. The test against the best device precedes the path of the device node in the
  code; both lead to \<^verbatim>\<open>continue\<close>, so their order does not matter.
\<close>

definition discover_entry ::
    "nat \<Rightarrow> text_files \<Rightarrow> 'w sys_calls \<Rightarrow> string \<Rightarrow> string \<Rightarrow> string \<Rightarrow> best_device \<times> 'w \<Rightarrow> best_device \<times> 'w" where
  "discover_entry path_max files calls sys_class_input dev_input d_name bw =
     (case bw of (best, w) \<Rightarrow>
        case sysfs_candidate path_max files sys_class_input dev_input d_name of
          None \<Rightarrow> (best, w)
        | Some (rank, num, name, event_path) \<Rightarrow>
            if rank < best_rank best \<or> (rank = best_rank best \<and> num \<ge> best_number best) then (best, w)
            else case sys_open calls event_path w of (f, w) \<Rightarrow>
              if f < 0 then (best, w)
              else (\<lparr>best_fd = f, best_rank = rank, best_number = num, best_path = event_path, best_name = name\<rparr>,
                    if best_fd best \<ge> 0 then sys_close calls (best_fd best) w else w))"

definition discover_scan ::
    "nat \<Rightarrow> text_files \<Rightarrow> 'w sys_calls \<Rightarrow> string \<Rightarrow> string \<Rightarrow> string list \<Rightarrow> 'w \<Rightarrow> best_device \<times> 'w" where
  "discover_scan path_max files calls sys_class_input dev_input names w =
     fold (discover_entry path_max files calls sys_class_input dev_input) names (no_device, w)"

text \<open>
  \<^verbatim>\<open>cart_input_discover\<close>: the status, the new contents of \<open>*input\<close> (\<open>None\<close> if the arguments were
  refused) and the descriptor table. \<open>opened\<close> is the result of \<^verbatim>\<open>opendir\<close>, with \<^verbatim>\<open>errno\<close> on the left.
\<close>

definition cart_input_discover ::
    "nat \<Rightarrow> text_files \<Rightarrow> 'w sys_calls \<Rightarrow> bool \<Rightarrow> string option \<Rightarrow> string option \<Rightarrow> int + directory \<Rightarrow> 'w \<Rightarrow>
     int \<times> stale_input option \<times> 'w" where
  "cart_input_discover path_max files calls input_is_null sys_class_input dev_input opened w =
     (if input_is_null \<or> sys_class_input = None \<or> dev_input = None then (- 1, None, w)
      else let input = \<lparr>in_fd = - 1, in_path = [], in_name = []\<rparr> in
        case opened of
          Inl e \<Rightarrow> (if e = ENOENT then 0 else - 1, Some input, w)
        | Inr dir \<Rightarrow>
            case discover_scan path_max files calls (the sys_class_input) (the dev_input) (entries dir) w of (best, w) \<Rightarrow>
              let err = (if scan_errno dir = 0 \<and> closedir_errno dir \<noteq> 0 then closedir_errno dir else scan_errno dir)
              in if err \<noteq> 0 then (- 1, Some input, if best_fd best \<ge> 0 then sys_close calls (best_fd best) w else w)
                 else if best_fd best < 0 then (0, Some input, w)
                 else (1, Some \<lparr>in_fd = best_fd best, in_path = best_path best, in_name = best_name best\<rparr>, w))"

section \<open>Poll and close\<close>

text \<open>
  What the successive calls of \<^verbatim>\<open>read\<close> return: a whole event, another number of bytes, or an error. The
  loop consumes results until it returns; if it needs more than there are, it is still reading
  (\<open>None\<close>).
\<close>

datatype event_read = R_Event u16 u16 int | R_Bytes nat | R_Errno int

abbreviation (input) EINTR_NO :: int where "EINTR_NO \<equiv> 4"
abbreviation (input) EAGAIN_NO :: int where "EAGAIN_NO \<equiv> 11"

fun stale_drain :: "event_read list \<Rightarrow> cart_input_action \<Rightarrow> (int \<times> cart_input_action \<times> event_read list) option" where
  "stale_drain [] action = None"
| "stale_drain (R_Event ty code v # rs) action =
     (if ty \<noteq> 1 \<or> v \<noteq> 1 then stale_drain rs action
      else if code = 1 \<or> code = 16 then Some (0, CART_INPUT_QUIT, rs)
      else stale_drain rs CART_INPUT_NEXT)"
| "stale_drain (R_Bytes n # rs) action = (if n = 0 then Some (0, action, rs) else Some (- 1, action, rs))"
| "stale_drain (R_Errno e # rs) action =
     (if e = EINTR_NO then stale_drain rs action
      else if e = EAGAIN_NO then Some (0, action, rs)
      else Some (- 1, action, rs))"

definition stale_poll ::
    "stale_input option \<Rightarrow> bool \<Rightarrow> event_read list \<Rightarrow> (int \<times> cart_input_action option \<times> event_read list) option" where
  "stale_poll input action_is_null rs =
     (if input = None \<or> action_is_null then Some (- 1, None, rs)
      else if in_fd (the input) < 0 then Some (0, Some CART_INPUT_NONE, rs)
      else map_option (\<lambda>(st, a, rest). (st, Some a, rest)) (stale_drain rs CART_INPUT_NONE))"

definition cart_input_close :: "'w sys_calls \<Rightarrow> stale_input option \<Rightarrow> 'w \<Rightarrow> stale_input option \<times> 'w" where
  "cart_input_close calls input w =
     (case input of
        None \<Rightarrow> (None, w)
      | Some i \<Rightarrow> (Some \<lparr>in_fd = - 1, in_path = [], in_name = []\<rparr>, if in_fd i \<ge> 0 then sys_close calls (in_fd i) w else w))"

section \<open>The capability text\<close>

text \<open>The number a text of hexadecimal digits denotes.\<close>

definition hex_number :: "string \<Rightarrow> nat" where
  "hex_number s = foldl (\<lambda>n ch. 16 * n + the (hex_value ch)) 0 s"

lemma hex_value_lt: "hex_value ch = Some v \<Longrightarrow> v < 16"
  by (auto simp: hex_value_def Let_def split: if_splits)

lemma bit_hex_digit:
  assumes "v < 16"
  shows "bit (16 * m + v) k = (if k < 4 then bit v k else bit (m :: nat) (k - 4))"
proof (cases "k < 4")
  case True
  then have "(2 :: nat) ^ k * 2 ^ (4 - k) = 16" by (simp flip: power_add)
  then have "16 * m + v = v + 2 ^ k * (2 ^ (4 - k) * m)" by (metis add.commute mult.assoc)
  then have "(16 * m + v) div 2 ^ k = 2 ^ (4 - k) * m + v div 2 ^ k" by (simp only:) simp
  with True show ?thesis by (simp add: bit_iff_odd)
next
  case False
  then have "(2 :: nat) ^ k = 16 * 2 ^ (k - 4)" using power_add [of "2 :: nat" 4 "k - 4"] by simp
  then have "(16 * m + v) div 2 ^ k = (16 * m + v) div 16 div 2 ^ (k - 4)" by (simp only: div_mult2_eq)
  with assms False show ?thesis by (simp add: bit_iff_odd)
qed

abbreviation hex_text :: "string \<Rightarrow> bool" where
  "hex_text s \<equiv> list_all (\<lambda>ch. is_space ch \<or> hex_value ch \<noteq> None) s"

lemma capability_scan_number:
  "hex_text s \<Longrightarrow> nibble \<le> b div 4 \<Longrightarrow>
   capability_scan (rev s) b nibble = bit (hex_number (filter (\<lambda>ch. \<not> is_space ch) s)) (b - 4 * nibble)"
proof (induction s arbitrary: nibble rule: rev_induct)
  case Nil
  then show ?case by (simp add: hex_number_def)
next
  case (snoc ch s)
  show ?case
  proof (cases "is_space ch")
    case True
    with snoc show ?thesis by simp
  next
    case False
    then obtain v where v: "hex_value ch = Some v" "v < 16" using snoc.prems(1) hex_value_lt by auto
    have n: "hex_number (filter (\<lambda>ch. \<not> is_space ch) (s @ [ch])) = 16 * hex_number (filter (\<lambda>ch. \<not> is_space ch) s) + v"
      using False v by (simp add: hex_number_def)
    show ?thesis
    proof (cases "nibble = b div 4")
      case True
      then have "b - 4 * nibble = b mod 4" by (simp add: minus_mult_div_eq_mod)
      moreover have "bit v (b mod 4) = (v AND push_bit (b mod 4) 1 \<noteq> 0)" by (rule bit_iff_and_push_bit_not_eq_0)
      ultimately show ?thesis using True False v n by (simp add: bit_hex_digit)
    next
      case more: False
      then have "Suc nibble \<le> b div 4" using snoc.prems(2) by simp
      moreover from this have "4 * Suc nibble \<le> b" by presburger
      moreover from this have "b - 4 * nibble - 4 = b - 4 * Suc nibble" "\<not> b - 4 * nibble < 4" by simp_all
      ultimately show ?thesis
        using False v n more snoc.IH [of "Suc nibble"] snoc.prems(1) by (simp add: bit_hex_digit)
    qed
  qed
qed

text \<open>
  The capability test reads its text as one hexadecimal number from which the white space has
  been removed, and tests the given bit of that number. So it is the bitmap's bit when every
  word after the first has all its digits.
\<close>

theorem capability_reads_one_number:
  assumes "hex_text s"
  shows "capability_has_bit s b = bit (hex_number (filter (\<lambda>ch. \<not> is_space ch) s)) b"
  using capability_scan_number [OF assms, of 0 b] by (simp add: capability_has_bit_def)

text \<open>
  Two 32-bit words as the kernel prints them, without leading zeros in the second: bit 32 is set, and
  the test finds it at position 4.
\<close>

theorem capability_reads_one_number_witness:
  "\<not> capability_has_bit ''1 0'' 32 \<and> capability_has_bit ''1 0'' 4 \<and> capability_has_bit ''1 00000000'' 32"
proof -
  have "hex_number ''10'' = 16" "hex_number ''100000000'' = 4294967296"
    by (simp_all add: hex_number_def hex_value_def)
  then show ?thesis
    using capability_reads_one_number [of "''1 0''" 32] capability_reads_one_number [of "''1 0''" 4]
      capability_reads_one_number [of "''1 00000000''" 32]
    by (simp add: is_space_def hex_value_def bit_iff_odd)
qed

section \<open>Discovery keeps the best device\<close>

text \<open>
  What discovery relies on: \<open>opened w\<close> is the set of open descriptors; an open that succeeds returns a
  new one and a close removes one; whether a device node can be opened depends on its path only
  (\<open>openable\<close>).
\<close>

definition fd_calls :: "'w sys_calls \<Rightarrow> ('w \<Rightarrow> int set) \<Rightarrow> (string \<Rightarrow> bool) \<Rightarrow> bool" where
  "fd_calls calls opened openable \<longleftrightarrow>
     (\<forall>p w f w'. sys_open calls p w = (f, w') \<longrightarrow> (0 \<le> f \<longleftrightarrow> openable p) \<and>
        (if 0 \<le> f then f \<notin> opened w \<and> opened w' = insert f (opened w) else opened w' = opened w)) \<and>
     (\<forall>f w. opened (sys_close calls f w) = opened w - {f})"

text \<open>The descriptors during the scan, and what has been chosen among the entries \<open>names\<close>.\<close>

definition stale_scan_fds :: "('w \<Rightarrow> int set) \<Rightarrow> int set \<Rightarrow> best_device \<times> 'w \<Rightarrow> bool" where
  "stale_scan_fds opened B bw \<longleftrightarrow> (case bw of (best, w) \<Rightarrow>
     if best_fd best < 0 then best = no_device \<and> opened w = B
     else best_fd best \<notin> B \<and> opened w = insert (best_fd best) B)"

definition scan_choice ::
    "(string \<Rightarrow> bool) \<Rightarrow> (string \<Rightarrow> (int \<times> nat \<times> string \<times> string) option) \<Rightarrow> string set \<Rightarrow> best_device \<Rightarrow> bool" where
  "scan_choice openable cand names best \<longleftrightarrow>
     (if best_fd best < 0 then \<forall>d \<in> names. \<forall>r n nm p. cand d = Some (r, n, nm, p) \<longrightarrow> \<not> openable p
      else (\<exists>d \<in> names. cand d = Some (best_rank best, best_number best, best_name best, best_path best)) \<and>
           openable (best_path best) \<and>
           (\<forall>d \<in> names. \<forall>r n nm p. cand d = Some (r, n, nm, p) \<longrightarrow> openable p \<longrightarrow>
              r < best_rank best \<or> r = best_rank best \<and> best_number best \<le> n))"

lemma candidate_bounds:
  assumes "sysfs_candidate path_max files sys dev d = Some (r, n, nm, p)"
  shows "0 < r" "n < 4294967295"
proof -
  from assms obtain num name phys keys where
    c: "event_number d = Some num" "n = num" "r = candidate_rank name phys keys" "r \<noteq> 0"
    by (auto simp: sysfs_candidate_def Let_def split: bind_splits if_splits)
  show "0 < r" using c(3,4) unfolding candidate_rank_def by (simp split: if_splits)
  show "n < 4294967295" using c(1,2)
    by (auto simp: event_number_def Let_def split: if_splits prod.splits)
qed

text \<open>The outcomes of a round: nothing changes for a reason, or the entry becomes the best device.\<close>

lemma discover_entry_cases:
  assumes calls: "fd_calls calls opened openable"
  obtains
    (keep) w' where "discover_entry path_max files calls sys dev d (best, w) = (best, w')" "opened w' = opened w"
      "\<And>r n nm p. sysfs_candidate path_max files sys dev d = Some (r, n, nm, p) \<Longrightarrow>
         \<not> openable p \<or> r < best_rank best \<or> r = best_rank best \<and> best_number best \<le> n"
  | (replace) f r n nm p w' where "sysfs_candidate path_max files sys dev d = Some (r, n, nm, p)" "openable p"
      "r > best_rank best \<or> r = best_rank best \<and> n < best_number best" "0 \<le> f" "f \<notin> opened w"
      "opened w' = (if best_fd best \<ge> 0 then insert f (opened w) - {best_fd best} else insert f (opened w))"
      "discover_entry path_max files calls sys dev d (best, w) =
         (\<lparr>best_fd = f, best_rank = r, best_number = n, best_path = p, best_name = nm\<rparr>, w')"
proof (cases "sysfs_candidate path_max files sys dev d")
  case None
  then show thesis by (intro keep [of w]) (simp_all add: discover_entry_def)
next
  case (Some c)
  obtain r n nm p where cd: "sysfs_candidate path_max files sys dev d = Some (r, n, nm, p)"
    using Some by (metis prod.exhaust)
  obtain f w' where o: "sys_open calls p w = (f, w')" by fastforce
  with calls have f: "0 \<le> f \<longleftrightarrow> openable p"
    "if 0 \<le> f then f \<notin> opened w \<and> opened w' = insert f (opened w) else opened w' = opened w"
    and cl: "\<And>g v. opened (sys_close calls g v) = opened v - {g}"
    unfolding fd_calls_def by blast+
  show thesis
  proof (cases "r < best_rank best \<or> (r = best_rank best \<and> n \<ge> best_number best)")
    case True
    with cd show thesis by (intro keep [of w]) (auto simp: discover_entry_def)
  next
    case better: False
    show thesis
    proof (cases "f < 0")
      case True
      with cd better o f show thesis by (intro keep [of w']) (auto simp: discover_entry_def)
    next
      case False
      with cd better o f cl show thesis
        by (intro replace [of r n nm p f "if best_fd best \<ge> 0 then sys_close calls (best_fd best) w' else w'"])
          (auto simp: discover_entry_def)
    qed
  qed
qed

lemma discover_entry_inv:
  assumes calls: "fd_calls calls opened openable" and i: "stale_scan_fds opened B bw"
    and c: "scan_choice openable (sysfs_candidate path_max files sys dev) names (fst bw)"
  shows "stale_scan_fds opened B (discover_entry path_max files calls sys dev d bw) \<and>
    scan_choice openable (sysfs_candidate path_max files sys dev) (insert d names)
      (fst (discover_entry path_max files calls sys dev d bw))"
proof -
  obtain best w where bw: "bw = (best, w)" by fastforce
  from calls show ?thesis
  proof (cases rule: discover_entry_cases [where path_max = path_max and files = files and sys = sys and dev = dev
        and d = d and best = best and w = w])
    case (keep w')
    have "\<not> openable p" if "best_fd best < 0" "sysfs_candidate path_max files sys dev d = Some (r, n, nm, p)" for r n nm p
      using keep(3) [OF that(2)] candidate_bounds [OF that(2)] i that(1) by (auto simp: stale_scan_fds_def bw no_device_def)
    with keep i c show ?thesis unfolding bw by (auto simp: stale_scan_fds_def scan_choice_def)
  next
    case (replace f r n nm p w')
    have "stale_scan_fds opened B (discover_entry path_max files calls sys dev d bw)"
      using replace(4-7) i unfolding bw by (auto simp: stale_scan_fds_def split: if_splits)
    moreover have "r' < r \<or> r' = r \<and> n \<le> n'"
      if "d' \<in> names" "sysfs_candidate path_max files sys dev d' = Some (r', n', nm', p')" "openable p'" for d' r' n' nm' p'
      using c that replace(3) unfolding bw scan_choice_def by (fastforce split: if_splits)
    ultimately show ?thesis
      using replace(1,2,4,7) unfolding bw scan_choice_def by auto
  qed
qed

lemma discover_scan_inv:
  assumes "fd_calls calls opened openable"
  shows "stale_scan_fds opened (opened w) (discover_scan path_max files calls sys dev names w) \<and>
    scan_choice openable (sysfs_candidate path_max files sys dev) (set names) (fst (discover_scan path_max files calls sys dev names w))"
proof (induction names rule: rev_induct)
  case Nil
  show ?case by (simp add: discover_scan_def stale_scan_fds_def scan_choice_def no_device_def)
next
  case (snoc d names)
  with discover_entry_inv [OF assms, of "opened w" "discover_scan path_max files calls sys dev names w" path_max files sys dev "set names" d]
  show ?case by (simp add: discover_scan_def)
qed

text \<open>
  Claim C17. Discovery of the earlier reader, for every directory and all sysfs files: it returns 1 exactly
  when the scan ends without an error and some candidate's device node can be opened; then
  exactly one descriptor is open that was not open before, it is the one stored, and it belongs
  to a candidate of the highest rank among those that can be opened and, among these, of the
  lowest event number. In every other case no descriptor stays open and the stored one is -1.
\<close>

theorem stale_discovery_keeps_best:
  assumes "fd_calls calls opened openable"
    and "cart_input_discover path_max files calls False (Some sys) (Some dev) dir w = (st, inp, w')"
  shows "(st = 1 \<longleftrightarrow> (\<exists>d. dir = Inr d \<and> scan_errno d = 0 \<and> closedir_errno d = 0 \<and>
       (\<exists>e \<in> set (entries d). \<exists>r n nm p. sysfs_candidate path_max files sys dev e = Some (r, n, nm, p) \<and> openable p))) \<and>
    (if st = 1
     then \<exists>f e r n nm p. inp = Some \<lparr>in_fd = f, in_path = p, in_name = nm\<rparr> \<and> f \<notin> opened w \<and> opened w' = insert f (opened w) \<and>
       e \<in> set (entries (projr dir)) \<and> sysfs_candidate path_max files sys dev e = Some (r, n, nm, p) \<and> openable p \<and>
       (\<forall>e' \<in> set (entries (projr dir)). \<forall>r' n' nm' p'.
          sysfs_candidate path_max files sys dev e' = Some (r', n', nm', p') \<and> openable p' \<longrightarrow> r' < r \<or> r' = r \<and> n \<le> n')
     else opened w' = opened w \<and> inp = Some \<lparr>in_fd = - 1, in_path = [], in_name = []\<rparr>)"
proof (cases dir)
  case (Inl e)
  with assms(2) show ?thesis by (auto simp: cart_input_discover_def split: if_splits)
next
  case (Inr d)
  obtain best w1 where sc: "discover_scan path_max files calls sys dev (entries d) w = (best, w1)" by fastforce
  note inv = discover_scan_inv [OF assms(1), of w path_max files sys dev "entries d", unfolded sc fst_conv]
  have cl: "opened (sys_close calls (best_fd best) w1) = opened w1 - {best_fd best}"
    using assms(1) by (simp add: fd_calls_def)
  show ?thesis
  proof (cases "scan_errno d = 0 \<and> closedir_errno d = 0 \<and> 0 \<le> best_fd best")
    case True
    then have r: "st = 1" "inp = Some \<lparr>in_fd = best_fd best, in_path = best_path best, in_name = best_name best\<rparr>" "w' = w1"
      using assms(2) Inr sc by (auto simp: cart_input_discover_def)
    have "best_fd best \<notin> opened w" "opened w1 = insert (best_fd best) (opened w)"
      using inv True by (auto simp: stale_scan_fds_def)
    with r inv True Inr show ?thesis unfolding scan_choice_def by simp blast
  next
    case False
    then have "st \<noteq> 1" "inp = Some \<lparr>in_fd = - 1, in_path = [], in_name = []\<rparr>" "opened w' = opened w"
      using assms(2) Inr sc inv cl by (auto simp: cart_input_discover_def stale_scan_fds_def Let_def split: if_splits)
    with inv False Inr show ?thesis unfolding scan_choice_def by auto
  qed
qed

text \<open>Two keyboards of which only the second can be opened, for the example.\<close>

lemma fgets_text_all: "length s \<le> n \<Longrightarrow> CHR 0x0A \<notin> set s \<Longrightarrow> fgets_text n s = s"
  by (induction n s rule: fgets_text.induct) auto

lemma read_line_plain:
  assumes "files p = Some (s, True)" "s \<noteq> []" "length s < n" "set s \<inter> {CHR 0x00, CHR 0x0A, CHR 0x0D} = {}"
  shows "read_line files p n = Some s"
proof -
  have "c_str s = s" unfolding c_str_def using assms(4) by (intro takeWhile_eq_all_conv [THEN iffD2]) auto
  moreover have "last s \<in> set s" using assms(2) by simp
  then have "last s \<noteq> CHR 0x0A" "last s \<noteq> CHR 0x0D" using assms(4) by auto
  moreover have "fgets_text (n - 1) s = s" using assms(3,4) by (intro fgets_text_all) auto
  moreover have "\<not> n < 2" using assms(2,3) by (cases s) auto
  ultimately show ?thesis using assms by (simp add: read_line_def drop_last_def)
qed

definition list_calls :: "(int list) sys_calls" where
  "list_calls = \<lparr>sys_open = (\<lambda>p w. if p = ''/d/event7'' then (fresh_fd w, fresh_fd w # w) else (- 1, w)),
     sys_close = (\<lambda>f w. removeAll f w)\<rparr>"

definition kbd_files :: text_files where
  "kbd_files p = (if p = ''/s/event7/device/capabilities/ev'' \<or> p = ''/s/event3/device/capabilities/ev'' then Some (''3'', True)
     else if p = ''/s/event7/device/capabilities/key'' \<or> p = ''/s/event3/device/capabilities/key'' then Some (''2'', True)
     else if p = ''/s/event7/device/name'' \<or> p = ''/s/event3/device/name'' then Some (''kbd'', True) else None)"

lemma kbd_reads:
  "p = ''/s/event7/device/capabilities/ev'' \<or> p = ''/s/event3/device/capabilities/ev'' \<Longrightarrow> read_line kbd_files p 256 = Some ''3''"
  "p = ''/s/event7/device/capabilities/key'' \<or> p = ''/s/event3/device/capabilities/key'' \<Longrightarrow> read_line kbd_files p 256 = Some ''2''"
  "p = ''/s/event7/device/name'' \<or> p = ''/s/event3/device/name'' \<Longrightarrow> read_line kbd_files p 128 = Some ''kbd''"
  "p = ''/s/event7/device/phys'' \<or> p = ''/s/event3/device/phys'' \<Longrightarrow> read_line kbd_files p 128 = None"
  by (auto intro!: read_line_plain simp: kbd_files_def) (auto simp: read_line_def kbd_files_def)

lemma kbd_rank: "candidate_rank ''kbd'' [] ''2'' = 1" "capability_has_bit ''3'' 1"
  by (simp_all add: candidate_rank_def VITA_BUTTONS_PHYS_def VITA_BUTTONS_NAME_def capability_has_bit_def is_space_def
      hex_value_def push_bit_eq_mult and_exp_eq_0_iff_not_bit bit_iff_odd)

lemma kbd_numbers: "event_number ''event7'' = Some 7" "event_number ''event3'' = Some 3" "event_number ''mice'' = None"
  by (simp_all add: event_number_def is_digit_def strtou_def is_space_def num_val_def digit_val_def)

lemma kbd_candidates:
  "sysfs_candidate 256 kbd_files ''/s'' ''/d'' ''event7'' = Some (1, 7, ''kbd'', ''/d/event7'')"
  "sysfs_candidate 256 kbd_files ''/s'' ''/d'' ''event3'' = Some (1, 3, ''kbd'', ''/d/event3'')"
  "sysfs_candidate 256 kbd_files ''/s'' ''/d'' ''mice'' = None"
  using kbd_rank by (simp_all add: sysfs_candidate_def kbd_numbers stale_path_join_def kbd_reads)

lemma list_fd_calls: "fd_calls list_calls set (\<lambda>p. p = ''/d/event7'')"
  using fresh_fd by (auto simp: fd_calls_def list_calls_def)

theorem stale_discovery_keeps_best_witness:
  "\<exists>f. cart_input_discover 256 kbd_files list_calls False (Some ''/s'') (Some ''/d'')
        (Inr \<lparr>entries = [''mice'', ''event3'', ''event7''], scan_errno = 0, closedir_errno = 0\<rparr>) [3]
      = (1, Some \<lparr>in_fd = f, in_path = ''/d/event7'', in_name = ''kbd''\<rparr>, [f, 3]) \<and> f \<noteq> 3"
proof -
  let ?dir = "Inr \<lparr>entries = [''mice'', ''event3'', ''event7''], scan_errno = 0, closedir_errno = 0\<rparr> :: int + directory"
  obtain st inp w' where d: "cart_input_discover 256 kbd_files list_calls False (Some ''/s'') (Some ''/d'') ?dir [3] = (st, inp, w')"
    by (metis prod.exhaust)
  have w: "w' = [fresh_fd [3], 3]"
    using d fresh_fd(2) [of "[3]"] by (auto simp: cart_input_discover_def discover_scan_def discover_entry_def kbd_candidates list_calls_def
        no_device_def Let_def)
  from stale_discovery_keeps_best [OF list_fd_calls d] have "st = 1"
    "\<exists>f. inp = Some \<lparr>in_fd = f, in_path = ''/d/event7'', in_name = ''kbd''\<rparr> \<and> f \<noteq> 3 \<and> set w' = {f, 3}"
    by (auto simp: kbd_candidates split: if_splits)
  with w d show ?thesis by (auto simp: kbd_candidates)
qed

section \<open>Poll\<close>

text \<open>Results after which the loop reads again, and key presses that select the next scene.\<close>

fun reads_on :: "event_read \<Rightarrow> bool" where
  "reads_on (R_Event ty code v) = (\<not> (ty = 1 \<and> v = 1 \<and> (code = 1 \<or> code = 16)))"
| "reads_on (R_Bytes n) = False"
| "reads_on (R_Errno e) = (e = EINTR_NO)"

fun is_press :: "event_read \<Rightarrow> bool" where
  "is_press (R_Event ty code v) = (ty = 1 \<and> v = 1)"
| "is_press r = False"

text \<open>
  The poll ends at the first result that does not make it read on: at a press of Escape or Q with
  the quit action, otherwise with the next-scene action if any key was pressed before; the status
  is -1 for a short read or an error other than an interrupted or an empty read.
\<close>

lemma stale_drain_result:
  assumes "list_all reads_on pre" "\<not> reads_on r"
  shows "stale_drain (pre @ r # rest) a =
    (if is_press r then Some (0, CART_INPUT_QUIT, rest)
     else Some (if r = R_Bytes 0 \<or> r = R_Errno EAGAIN_NO then 0 else - 1,
                if list_ex is_press pre then CART_INPUT_NEXT else a, rest))"
  using assms
proof (induction pre arbitrary: a)
  case Nil
  then show ?case by (cases r) auto
next
  case (Cons q pre)
  then show ?case by (cases q) auto
qed

lemma stale_drain_waits: "list_all reads_on rs \<Longrightarrow> stale_drain rs a = None"
proof (induction rs arbitrary: a)
  case (Cons r rs)
  then show ?case by (cases r) auto
qed simp

text \<open>
  A poll of the earlier reader returns exactly when a result arrives that ends its loop, after
  consuming the results up to that one and no more; a press of Escape or Q wins over everything before
  it, otherwise any number of presses collapses into one request for the next scene.
\<close>

theorem stale_poll_result:
  assumes "0 \<le> in_fd i"
  shows "(stale_poll (Some i) False rs = None \<longleftrightarrow> list_all reads_on rs) \<and>
    (\<forall>pre r rest. rs = pre @ r # rest \<and> list_all reads_on pre \<and> \<not> reads_on r \<longrightarrow>
       stale_poll (Some i) False rs = Some (if is_press r \<or> r = R_Bytes 0 \<or> r = R_Errno EAGAIN_NO then 0 else - 1,
         Some (if is_press r then CART_INPUT_QUIT else if list_ex is_press pre then CART_INPUT_NEXT else CART_INPUT_NONE), rest))"
proof (intro conjI allI impI)
  have u: "stale_poll (Some i) False rs = map_option (\<lambda>(st, a, rest). (st, Some a, rest)) (stale_drain rs CART_INPUT_NONE)"
    using assms by (simp add: stale_poll_def)
  show "stale_poll (Some i) False rs = None \<longleftrightarrow> list_all reads_on rs"
  proof
    assume n: "stale_poll (Some i) False rs = None"
    show "list_all reads_on rs"
    proof (rule ccontr)
      assume "\<not> list_all reads_on rs"
      then have "\<exists>r \<in> set rs. \<not> reads_on r" by (simp add: list_all_iff)
      from split_list_first_prop [OF this] obtain pre r rest where
        "rs = pre @ r # rest" "list_all reads_on pre" "\<not> reads_on r" by (auto simp: list_all_iff)
      with stale_drain_result [of pre r rest CART_INPUT_NONE] n u show False by (simp split: if_splits)
    qed
  qed (simp add: u stale_drain_waits)
  fix pre r rest assume "rs = pre @ r # rest \<and> list_all reads_on pre \<and> \<not> reads_on r"
  with stale_drain_result [of pre r rest CART_INPUT_NONE] u
  show "stale_poll (Some i) False rs = Some (if is_press r \<or> r = R_Bytes 0 \<or> r = R_Errno EAGAIN_NO then 0 else - 1,
      Some (if is_press r then CART_INPUT_QUIT else if list_ex is_press pre then CART_INPUT_NEXT else CART_INPUT_NONE), rest)"
    by simp
qed

theorem stale_poll_result_witness:
  "stale_poll (Some \<lparr>in_fd = 4, in_path = [], in_name = []\<rparr>) False [R_Event 1 30 1, R_Errno 4, R_Errno 11]
     = Some (0, Some CART_INPUT_NEXT, [])"
proof -
  have "0 \<le> in_fd \<lparr>in_fd = 4, in_path = [], in_name = []\<rparr>" by simp
  from stale_poll_result [OF this, THEN conjunct2, rule_format, of _ "[R_Event 1 30 1, R_Errno 4]" "R_Errno 11" "[]"]
  show ?thesis by simp
qed

end
