(* ===== verification/Bitmap.thy ===== *)
theory Bitmap
  imports C_Text
begin

text \<open>
  The screenshot of the framebuffer server (\<^verbatim>\<open>toolkit/share/vita-fbserve.c\<close>): every fourth
  pixel of every fourth row of the 1280 by 720 framebuffer as a 24-bit Windows bitmap, rows bottom
  up and channels in the order blue, green, red. The static byte arrays are lists; a store outside
  an array is undefined behaviour, the value \<open>None\<close>. The decoder is the specification: it reads a
  24-bit bitmap the way the format is documented, from the sizes and offsets in its header.
\<close>

abbreviation (input) FB_WIDTH :: nat where "FB_WIDTH \<equiv> 1280"
abbreviation (input) FB_HEIGHT :: nat where "FB_HEIGHT \<equiv> 720"
abbreviation (input) FB_BPP :: nat where "FB_BPP \<equiv> 4"
abbreviation (input) FB_SCALE :: nat where "FB_SCALE \<equiv> 4"
abbreviation (input) IMAGE_WIDTH :: nat where "IMAGE_WIDTH \<equiv> 320"
abbreviation (input) IMAGE_HEIGHT :: nat where "IMAGE_HEIGHT \<equiv> 180"
abbreviation (input) FB_BYTES :: nat where "FB_BYTES \<equiv> 3686400"
abbreviation (input) BMP_ROW_BYTES :: nat where "BMP_ROW_BYTES \<equiv> 960"
abbreviation (input) BMP_BYTES :: nat where "BMP_BYTES \<equiv> 172854"

section \<open>Stores into byte arrays\<close>

definition put_bytes :: "nat \<Rightarrow> u8 list \<Rightarrow> u8 list \<Rightarrow> u8 list option" where
  "put_bytes d bs buf =
     (if d + length bs \<le> length buf then Some (take d buf @ bs @ drop (d + length bs) buf) else None)"

definition put_u16 :: "nat \<Rightarrow> u16 \<Rightarrow> u8 list \<Rightarrow> u8 list option" where
  "put_u16 d v = put_bytes d [ucast (v AND 0xff), ucast (drop_bit 8 v)]"

definition put_u32 :: "nat \<Rightarrow> u32 \<Rightarrow> u8 list \<Rightarrow> u8 list option" where
  "put_u32 d v = put_bytes d [ucast (v AND 0xff), ucast (drop_bit 8 v AND 0xff),
     ucast (drop_bit 16 v AND 0xff), ucast (drop_bit 24 v)]"

definition get_byte :: "nat \<Rightarrow> u8 list \<Rightarrow> u8 option" where
  "get_byte i buf = (if i < length buf then Some (buf ! i) else None)"

section \<open>The bitmap\<close>

definition put_bitmap_header :: "u8 list \<Rightarrow> u8 list option" where
  "put_bitmap_header b = do {
     b \<leftarrow> put_bytes 0 [0x42] b;
     b \<leftarrow> put_bytes 1 [0x4d] b;
     b \<leftarrow> put_u32 2 (of_nat BMP_BYTES) b;
     b \<leftarrow> put_u32 10 54 b;
     b \<leftarrow> put_u32 14 40 b;
     b \<leftarrow> put_u32 18 (of_nat IMAGE_WIDTH) b;
     b \<leftarrow> put_u32 22 (of_nat IMAGE_HEIGHT) b;
     b \<leftarrow> put_u16 26 1 b;
     b \<leftarrow> put_u16 28 24 b;
     b \<leftarrow> put_u32 34 (of_nat (BMP_ROW_BYTES * IMAGE_HEIGHT)) b;
     b \<leftarrow> put_u32 38 2835 b;
     put_u32 42 2835 b
   }"

text \<open>One pixel: three stores at the advancing destination.\<close>

definition put_pixel :: "u8 list \<Rightarrow> nat \<Rightarrow> u8 list \<times> nat \<Rightarrow> (u8 list \<times> nat) option" where
  "put_pixel framebuffer source = (\<lambda>(b, destination). do {
     v \<leftarrow> get_byte (source + 2) framebuffer;
     b \<leftarrow> put_bytes destination [v] b;
     v \<leftarrow> get_byte (source + 1) framebuffer;
     b \<leftarrow> put_bytes (destination + 1) [v] b;
     v \<leftarrow> get_byte source framebuffer;
     b \<leftarrow> put_bytes (destination + 2) [v] b;
     Some (b, destination + 3)
   })"

definition put_bitmap_row :: "u8 list \<Rightarrow> int \<Rightarrow> u8 list \<Rightarrow> u8 list option" where
  "put_bitmap_row framebuffer y b =
     (let source_y = IMAGE_HEIGHT - 1 - nat y; destination = 54 + nat y * BMP_ROW_BYTES
      in map_option fst (for_int 0 (int IMAGE_WIDTH) (\<lambda>x.
           put_pixel framebuffer ((source_y * FB_SCALE * FB_WIDTH + nat x * FB_SCALE) * FB_BPP))
         (b, destination)))"

definition build_bitmap :: "u8 list \<Rightarrow> u8 list option" where
  "build_bitmap framebuffer = do {
     b \<leftarrow> put_bitmap_header (replicate BMP_BYTES 0);
     for_int 0 (int IMAGE_HEIGHT) (put_bitmap_row framebuffer) b
   }"

section \<open>The decoder\<close>

definition get_u16 :: "nat \<Rightarrow> u8 list \<Rightarrow> nat" where
  "get_u16 i b = unat (b ! i) + 256 * unat (b ! (i + 1))"

definition get_u32 :: "nat \<Rightarrow> u8 list \<Rightarrow> nat" where
  "get_u32 i b = get_u16 i b + 65536 * get_u16 (i + 2) b"

text \<open>
  The pixels of a 24-bit bitmap, top row first, each as red, green, blue; rows are stored from the
  bottom and padded to a multiple of four bytes.
\<close>

definition decode_bmp :: "u8 list \<Rightarrow> (nat \<times> nat \<times> u8 list list) option" where
  "decode_bmp b =
     (if length b < 54 \<or> b ! 0 \<noteq> 0x42 \<or> b ! 1 \<noteq> 0x4d \<or> get_u32 2 b \<noteq> length b \<or>
         get_u32 14 b < 40 \<or> get_u16 26 b \<noteq> 1 \<or> get_u16 28 b \<noteq> 24 \<or> get_u32 30 b \<noteq> 0 then None
      else let w = get_u32 18 b; h = get_u32 22 b; stride = (3 * w + 3) div 4 * 4; start = get_u32 10 b
        in if length b < start + stride * h then None
           else Some (w, h, map (\<lambda>i. let p = start + (h - 1 - i div w) * stride + 3 * (i mod w)
                                    in [b ! (p + 2), b ! (p + 1), b ! p]) [0..<w * h]))"

section \<open>Correctness\<close>

lemma put_bytes_append:
  "length a = d \<Longrightarrow> length bs \<le> length c \<Longrightarrow> put_bytes d bs (a @ c) = Some (a @ bs @ drop (length bs) c)"
  by (simp add: put_bytes_def)

text \<open>Stores that stay within the first \<open>n\<close> bytes do not see what follows.\<close>

definition within :: "nat \<Rightarrow> (u8 list \<Rightarrow> u8 list option) \<Rightarrow> bool" where
  "within n f \<longleftrightarrow> (\<forall>a a' c. length a = n \<longrightarrow> f a = Some a' \<longrightarrow> length a' = n \<and> f (a @ c) = Some (a' @ c))"

lemma within_put: "d + length bs \<le> n \<Longrightarrow> within n (put_bytes d bs)"
  by (auto simp: within_def put_bytes_def)

lemma within_bind: "within n f \<Longrightarrow> within n g \<Longrightarrow> within n (\<lambda>b. Option.bind (f b) g)"
  unfolding within_def bind_eq_Some_conv
  by (intro allI impI, elim exE conjE) (metis (no_types, lifting))

definition bmp_header :: "u8 list" where
  "bmp_header = [0x42, 0x4d, 0x36, 0xa3, 2, 0, 0, 0, 0, 0, 54, 0, 0, 0, 40, 0, 0, 0, 64, 1, 0, 0, 180, 0, 0, 0,
     1, 0, 24, 0, 0, 0, 0, 0, 0, 0xa3, 2, 0, 0x13, 0xb, 0, 0, 0x13, 0xb, 0, 0, 0, 0, 0, 0, 0, 0, 0, 0]"

lemma header_fields:
  "put_u32 d 172854 = put_bytes d [0x36, 0xa3, 2, 0]" "put_u32 d 54 = put_bytes d [54, 0, 0, 0]"
  "put_u32 d 40 = put_bytes d [40, 0, 0, 0]" "put_u32 d 320 = put_bytes d [64, 1, 0, 0]"
  "put_u32 d 180 = put_bytes d [180, 0, 0, 0]" "put_u32 d 172800 = put_bytes d [0, 0xa3, 2, 0]"
  "put_u32 d 2835 = put_bytes d [0x13, 0xb, 0, 0]" "put_u16 d 1 = put_bytes d [1, 0]" "put_u16 d 24 = put_bytes d [24, 0]"
  by (simp_all add: put_u32_def put_u16_def)

lemma replicate_54: "replicate 54 (0 :: u8) =
    [0, 0, 0, 0, 0, 0, 0, 0, 0, 0, 0, 0, 0, 0, 0, 0, 0, 0, 0, 0, 0, 0, 0, 0, 0, 0, 0,
     0, 0, 0, 0, 0, 0, 0, 0, 0, 0, 0, 0, 0, 0, 0, 0, 0, 0, 0, 0, 0, 0, 0, 0, 0, 0, 0]"
  by (simp add: numeral_eq_Suc)

lemma header_54: "put_bitmap_header (replicate 54 0) = Some bmp_header"
  by (simp add: put_bitmap_header_def header_fields put_bytes_def bmp_header_def replicate_54)

lemma header_within: "within 54 put_bitmap_header"
  unfolding put_bitmap_header_def put_u32_def put_u16_def
  by (intro within_bind within_put) simp_all

lemma bitmap_header: "put_bitmap_header (replicate BMP_BYTES 0) = Some (bmp_header @ replicate 172800 0)"
proof -
  have "replicate 172854 (0 :: u8) = replicate 54 0 @ replicate 172800 0"
    using replicate_add [of 54 172800 "0 :: u8"] by simp
  moreover have "length (replicate 54 (0 :: u8)) = 54" by simp
  ultimately show ?thesis using header_within header_54 unfolding within_def by metis
qed

definition source_of :: "nat \<Rightarrow> nat" where
  "source_of n = ((179 - n div 320) * 4 * 1280 + n mod 320 * 4) * 4"

definition bmp_pixel :: "u8 list \<Rightarrow> nat \<Rightarrow> u8 list" where
  "bmp_pixel framebuffer n =
     [framebuffer ! (source_of n + 2), framebuffer ! (source_of n + 1), framebuffer ! source_of n]"

text \<open>The bitmap after \<open>n\<close> pixels.\<close>

definition bmp_after :: "u8 list \<Rightarrow> nat \<Rightarrow> u8 list" where
  "bmp_after framebuffer n =
     bmp_header @ concat (map (bmp_pixel framebuffer) [0..<n]) @ replicate (172800 - 3 * n) 0"

lemma length_bmp_header [simp]: "length bmp_header = 54"
  by (simp add: bmp_header_def)

lemma length_bmp_pixels [simp]: "length (concat (map (bmp_pixel f) [0..<n])) = 3 * n"
  by (induction n) (simp_all add: bmp_pixel_def)

lemma source_in: "n < 57600 \<Longrightarrow> source_of n + 2 < FB_BYTES"
proof -
  have "(a * 4 * 1280 + b * 4) * 4 + 2 < FB_BYTES" if "a \<le> 179" "b < 320" for a b :: nat using that by simp
  from this [of "179 - n div 320" "n mod 320"] show ?thesis by (simp add: source_of_def)
qed

lemma put_pixel_split:
  assumes "get_byte s f = Some w" "get_byte (s + 1) f = Some v" "get_byte (s + 2) f = Some u" "length a = d"
  shows "put_pixel f s (a @ u0 # v0 # w0 # c, d) = Some (a @ [u, v, w] @ c, d + 3)"
  unfolding put_pixel_def prod.case assms(1-3) using assms(4) by (simp add: put_bytes_def)

lemma put_pixel_after:
  assumes "length framebuffer = FB_BYTES" "n < 57600"
  shows "put_pixel framebuffer (source_of n) (bmp_after framebuffer n, 54 + 3 * n) =
    Some (bmp_after framebuffer (Suc n), 54 + 3 * n + 3)"
proof -
  let ?a = "bmp_header @ concat (map (bmp_pixel framebuffer) [0..<n])" and ?r = "replicate (172800 - 3 * Suc n) (0 :: u8)"
  have "172800 - 3 * n = Suc (Suc (Suc (172800 - 3 * Suc n)))" using assms(2) by simp
  then have b: "bmp_after framebuffer n = ?a @ 0 # 0 # 0 # ?r" by (simp add: bmp_after_def)
  have c: "bmp_after framebuffer (Suc n) = ?a @ bmp_pixel framebuffer n @ ?r" by (simp add: bmp_after_def)
  have g: "get_byte (source_of n + k) framebuffer = Some (framebuffer ! (source_of n + k))" if "k \<le> 2" for k
    using source_in [OF assms(2)] that assms(1) by (simp add: get_byte_def)
  have "length ?a = 54 + 3 * n" by simp
  from put_pixel_split [OF g [of 0, unfolded add_0_right] g g this]
  show ?thesis unfolding b c bmp_pixel_def by simp
qed

lemma put_row_after:
  assumes "length framebuffer = FB_BYTES" "0 \<le> y" "y < 180"
  shows "put_bitmap_row framebuffer y (bmp_after framebuffer (nat y * 320)) =
    Some (bmp_after framebuffer (nat (y + 1) * 320))"
proof -
  let ?S = "\<lambda>x. (bmp_after framebuffer (nat y * 320 + nat x), 54 + 3 * (nat y * 320 + nat x))"
  have "for_int 0 320 (\<lambda>x. put_pixel framebuffer (((180 - 1 - nat y) * 4 * 1280 + nat x * 4) * 4)) (?S 0) = Some (?S 320)"
  proof (rule for_int_trace)
    fix x :: int assume x: "0 \<le> x" "x < 320"
    let ?n = "nat y * 320 + nat x"
    have n: "?n < 57600" using x assms by linarith
    have "?n div 320 = nat y" "?n mod 320 = nat x" using x by (simp_all add: div_nat_eqI)
    then have s: "((180 - 1 - nat y) * 4 * 1280 + nat x * 4) * 4 = source_of ?n" by (simp add: source_of_def)
    have "nat y * 320 + nat (x + 1) = Suc ?n" using x by simp
    then show "put_pixel framebuffer (((180 - 1 - nat y) * 4 * 1280 + nat x * 4) * 4) (?S x) = Some (?S (x + 1))"
      unfolding s using put_pixel_after [OF assms(1) n] by simp
  qed simp
  moreover have "nat (y + 1) * 320 = nat y * 320 + 320" using assms by simp
  moreover have "?S 0 = (bmp_after framebuffer (nat y * 320), 54 + nat y * 960)" by simp
  ultimately show ?thesis unfolding put_bitmap_row_def Let_def of_nat_numeral by (simp only: option.map fst_conv) simp
qed

lemma build_bitmap_eq:
  assumes "length framebuffer = FB_BYTES"
  shows "build_bitmap framebuffer = Some (bmp_header @ concat (map (bmp_pixel framebuffer) [0..<57600]))"
proof -
  have "bmp_header @ replicate 172800 0 = bmp_after framebuffer (nat 0 * 320)" by (simp add: bmp_after_def)
  moreover have "for_int 0 180 (put_bitmap_row framebuffer) (bmp_after framebuffer (nat 0 * 320)) =
      Some (bmp_after framebuffer (nat 180 * 320))"
    by (rule for_int_trace [where S = "\<lambda>y. bmp_after framebuffer (nat y * 320)"])
      (simp_all add: put_row_after [OF assms])
  ultimately show ?thesis by (simp add: build_bitmap_def bitmap_header bmp_after_def)
qed

lemma nth_concat_threes:
  "(\<And>i. length (f i) = 3) \<Longrightarrow> i < n \<Longrightarrow> k < 3 \<Longrightarrow> concat (map f [0..<n]) ! (3 * i + k) = f i ! k"
proof (induction n)
  case (Suc n)
  have "length (concat (map f [0..<n])) = 3 * n" by (induction n) (simp_all add: Suc.prems(1))
  with Suc show ?case by (cases "i = n") (simp_all add: nth_append)
qed simp

text \<open>The pixel of the framebuffer that the image shows at \<open>i\<close>, counted by rows from the top.\<close>

definition sampled :: "u8 list \<Rightarrow> nat \<Rightarrow> u8 list" where
  "sampled framebuffer i =
     (let p = (i div 320 * 4 * 1280 + i mod 320 * 4) * 4
      in [framebuffer ! p, framebuffer ! (p + 1), framebuffer ! (p + 2)])"

lemma bmp_pixel_sampled:
  assumes "i < 57600"
  shows "bmp_pixel f ((179 - i div 320) * 320 + i mod 320) = rev (sampled f i)"
proof -
  have "((179 - i div 320) * 320 + i mod 320) div 320 = 179 - i div 320"
    "((179 - i div 320) * 320 + i mod 320) mod 320 = i mod 320" by (simp_all add: div_nat_eqI)
  moreover have "179 - (179 - i div 320) = i div 320" using assms by linarith
  ultimately show ?thesis by (simp add: bmp_pixel_def sampled_def source_of_def Let_def)
qed

lemma decode_build:
  assumes "length framebuffer = FB_BYTES"
  obtains b where "build_bitmap framebuffer = Some b" "length b = BMP_BYTES"
    "decode_bmp b = Some (320, 180, map (sampled framebuffer) [0..<57600])"
proof
  let ?px = "concat (map (bmp_pixel framebuffer) [0..<57600])" and ?b = "bmp_header @ concat (map (bmp_pixel framebuffer) [0..<57600])"
  show "build_bitmap framebuffer = Some ?b" by (rule build_bitmap_eq [OF assms])
  show l: "length ?b = BMP_BYTES" by simp
  have h: "?b ! k = bmp_header ! k" if "k < 54" for k using that by (simp add: nth_append)
  have f: "?b ! 0 = 0x42" "?b ! 1 = 0x4d" "get_u32 2 ?b = 172854" "get_u32 14 ?b = 40" "get_u16 26 ?b = 1"
    "get_u16 28 ?b = 24" "get_u32 30 ?b = 0" "get_u32 18 ?b = 320" "get_u32 22 ?b = 180" "get_u32 10 ?b = 54"
    by (simp_all add: get_u32_def get_u16_def h bmp_header_def)
  have px: "?b ! (54 + (180 - 1 - i div 320) * 960 + 3 * (i mod 320) + k) = rev (sampled framebuffer i) ! k"
    if "i < 57600" "k < 3" for i k
  proof -
    let ?n = "(179 - i div 320) * 320 + i mod 320"
    have n: "?n < 57600" using mod_less_divisor [of 320 i] by linarith
    have e: "54 + (180 - 1 - i div 320) * 960 + 3 * (i mod 320) + k = 54 + (3 * ?n + k)" by simp
    have "?px ! (3 * ?n + k) = bmp_pixel framebuffer ?n ! k"
      by (rule nth_concat_threes [OF _ n that(2)]) (simp add: bmp_pixel_def)
    then show ?thesis unfolding e bmp_pixel_sampled [OF that(1)] nth_append by simp
  qed
  have "[?b ! (54 + (180 - 1 - i div 320) * 960 + 3 * (i mod 320) + 2),
      ?b ! (54 + (180 - 1 - i div 320) * 960 + 3 * (i mod 320) + 1),
      ?b ! (54 + (180 - 1 - i div 320) * 960 + 3 * (i mod 320))] = sampled framebuffer i" if "i < 57600" for i
    using px [OF that, of 0] px [OF that, of 1] px [OF that, of 2] by (simp add: sampled_def Let_def)
  then show "decode_bmp ?b = Some (320, 180, map (sampled framebuffer) [0..<57600])"
    unfolding decode_bmp_def f l Let_def by simp
qed

end
