(* ===== verification/Fbserve.thy ===== *)
theory Fbserve
  imports Bitmap "HOL-Library.Sublist"
begin

text \<open>
  The framebuffer server (\<^verbatim>\<open>toolkit/share/vita-fbserve.c\<close>): option parsing, the transfers
  over the client socket and the framebuffer device, the HTTP request handler and the accept loop.
  The kernel is a parameter: a record of the system calls on an arbitrary world. A call may be
  interrupted any number of times, so the loops take fuel and \<open>None\<close> means that it ran out (or that
  the kernel returned more than it was asked for, which overruns a buffer).
\<close>

section \<open>System calls\<close>

datatype io_read = Bytes "u8 list" | ReadErrno int
datatype io_count = Count nat | CountErrno int

record 'w serve_os =
  os_open :: "string \<Rightarrow> 'w \<Rightarrow> int \<times> 'w"
  os_close :: "int \<Rightarrow> 'w \<Rightarrow> 'w"
  os_read :: "int \<Rightarrow> nat \<Rightarrow> 'w \<Rightarrow> io_read \<times> 'w"
  os_recv :: "int \<Rightarrow> nat \<Rightarrow> 'w \<Rightarrow> io_read \<times> 'w"
  os_send :: "int \<Rightarrow> u8 list \<Rightarrow> 'w \<Rightarrow> io_count \<times> 'w"
  os_accept :: "int \<Rightarrow> 'w \<Rightarrow> (int + int) \<times> 'w"
  os_socket :: "'w \<Rightarrow> int \<times> 'w"
  os_reuse :: "int \<Rightarrow> 'w \<Rightarrow> int \<times> 'w"
  os_inet :: "string \<Rightarrow> bool"
  os_bind :: "int \<Rightarrow> string \<Rightarrow> u16 \<Rightarrow> 'w \<Rightarrow> int \<times> 'w"
  os_listen :: "int \<Rightarrow> nat \<Rightarrow> 'w \<Rightarrow> int \<times> 'w"

abbreviation (input) FB_EINTR :: int where "FB_EINTR \<equiv> 4"

section \<open>Options\<close>

definition parse_port :: "string \<Rightarrow> u16 option" where
  "parse_port t =
     (case strtou 32 t of (value, erange, rest) \<Rightarrow>
        if erange \<or> rest = t \<or> rest \<noteq> [] \<or> value = 0 \<or> value > 65535 then None else Some (of_nat value))"

record serve_options =
  opt_device :: string
  opt_bind :: string
  opt_port :: u16
  opt_machine :: bool
  opt_once :: bool

definition default_serve_options :: serve_options where
  "default_serve_options = \<lparr>opt_device = ''/dev/fb0'', opt_bind = ''127.0.0.1'', opt_port = 8080,
     opt_machine = False, opt_once = False\<rparr>"

text \<open>The loop over the arguments: \<open>Inl\<close> is the exit status of an early return.\<close>

fun serve_arguments :: "string list \<Rightarrow> serve_options \<Rightarrow> int + serve_options" where
  "serve_arguments [] o' = Inr o'"
| "serve_arguments (a # rest) o' =
     (if a = ''--device'' \<or> a = ''--bind'' \<or> a = ''--listen'' \<or> a = ''--port'' then
        (case rest of
           [] \<Rightarrow> Inl 2
         | v # rest \<Rightarrow>
             if a = ''--device'' then serve_arguments rest (o'\<lparr>opt_device := v\<rparr>)
             else if a = ''--port'' then
               (case parse_port v of None \<Rightarrow> Inl 2 | Some p \<Rightarrow> serve_arguments rest (o'\<lparr>opt_port := p\<rparr>))
             else serve_arguments rest (o'\<lparr>opt_bind := v\<rparr>))
      else if a = ''--machine'' then serve_arguments rest (o'\<lparr>opt_machine := True\<rparr>)
      else if a = ''--once'' then serve_arguments rest (o'\<lparr>opt_once := True\<rparr>)
      else if a = ''--help'' \<or> a = ''-h'' then Inl 0
      else Inl 2)"

section \<open>Transfers\<close>

fun send_all :: "nat \<Rightarrow> 'w serve_os \<Rightarrow> int \<Rightarrow> u8 list \<Rightarrow> 'w \<Rightarrow> (int \<times> 'w) option" where
  "send_all 0 os client bytes w = (if bytes = [] then Some (0, w) else None)"
| "send_all (Suc fuel) os client bytes w =
     (if bytes = [] then Some (0, w)
      else case os_send os client bytes w of
        (CountErrno e, w) \<Rightarrow> if e = FB_EINTR then send_all fuel os client bytes w else Some (- 1, w)
      | (Count n, w) \<Rightarrow> if n = 0 then Some (- 1, w) else send_all fuel os client (drop n bytes) w)"

text \<open>The static arrays of the program.\<close>

record serve_mem =
  framebuffer :: "u8 list"
  bitmap :: "u8 list"

fun fill_frame :: "nat \<Rightarrow> 'w serve_os \<Rightarrow> int \<Rightarrow> nat \<Rightarrow> u8 list \<Rightarrow> 'w \<Rightarrow> (int \<times> u8 list \<times> 'w) option" where
  "fill_frame 0 os fd offset buf w = (if offset < FB_BYTES then None else Some (0, buf, w))"
| "fill_frame (Suc fuel) os fd offset buf w =
     (if offset < FB_BYTES then
        case os_read os fd (FB_BYTES - offset) w of
          (ReadErrno e, w) \<Rightarrow> if e = FB_EINTR then fill_frame fuel os fd offset buf w else Some (- 1, buf, w)
        | (Bytes bs, w) \<Rightarrow>
            if bs = [] then Some (- 1, buf, w)
            else do { buf \<leftarrow> put_bytes offset bs buf; fill_frame fuel os fd (offset + length bs) buf w }
      else Some (0, buf, w))"

definition read_frame :: "nat \<Rightarrow> 'w serve_os \<Rightarrow> string \<Rightarrow> u8 list \<Rightarrow> 'w \<Rightarrow> (int \<times> u8 list \<times> 'w) option" where
  "read_frame fuel os device buf w =
     (case os_open os device w of (fd, w) \<Rightarrow>
        if fd < 0 then Some (- 1, buf, w)
        else do { (r, buf, w) \<leftarrow> fill_frame fuel os fd 0 buf w; Some (r, buf, os_close os fd w) })"

section \<open>Responses\<close>

definition CRLF :: string where "CRLF = [CHR 0x0D, CHR 0x0A]"

definition response_header :: "nat \<Rightarrow> string \<Rightarrow> string \<Rightarrow> nat \<Rightarrow> u8 list" where
  "response_header status reason content_type n =
     bytes_of (''HTTP/1.0 '' @ dec status @ '' '' @ reason @ CRLF @ ''Content-Type: '' @ content_type @ CRLF @
       ''Content-Length: '' @ dec n @ CRLF @ ''Connection: close'' @ CRLF @ CRLF)"

definition send_response ::
    "nat \<Rightarrow> 'w serve_os \<Rightarrow> int \<Rightarrow> nat \<Rightarrow> string \<Rightarrow> string \<Rightarrow> u8 list \<Rightarrow> 'w \<Rightarrow> (int \<times> 'w) option" where
  "send_response fuel os client status reason content_type body w =
     (let header = response_header status reason content_type (length body)
      in if length header \<ge> 512 then Some (- 1, w)
         else do {
           (r, w) \<leftarrow> send_all fuel os client header w;
           if r < 0 then Some (- 1, w) else send_all fuel os client body w
         })"

abbreviation (input) TEXT_PLAIN :: string where "TEXT_PLAIN \<equiv> ''text/plain; charset=utf-8''"

text \<open>A response with a fixed line of text; its outcome is ignored.\<close>

definition send_text :: "nat \<Rightarrow> 'w serve_os \<Rightarrow> int \<Rightarrow> nat \<Rightarrow> string \<Rightarrow> string \<Rightarrow> 'w \<Rightarrow> 'w option" where
  "send_text fuel os client status reason line w =
     map_option snd (send_response fuel os client status reason TEXT_PLAIN (bytes_of (line @ [CHR 0x0A])) w)"

section \<open>Requests\<close>

text \<open>\<^verbatim>\<open>strstr(text, part) != NULL\<close>.\<close>

fun strstr :: "string \<Rightarrow> string \<Rightarrow> bool" where
  "strstr [] part = (part = [])"
| "strstr (c # cs) part = (take (length part) (c # cs) = part \<or> strstr cs part)"

definition head_complete :: "u8 list \<Rightarrow> bool" where
  "head_complete request =
     (strstr (c_string request) (CRLF @ CRLF) \<or> strstr (c_string request) [CHR 0x0A, CHR 0x0A])"

text \<open>The receive loop: \<open>None\<close> inside is the early \<^verbatim>\<open>return 0\<close>.\<close>

abbreviation (input) REQUEST_BYTES :: nat where "REQUEST_BYTES \<equiv> 4096"

fun recv_request :: "nat \<Rightarrow> 'w serve_os \<Rightarrow> int \<Rightarrow> u8 list \<Rightarrow> 'w \<Rightarrow> (u8 list option \<times> 'w) option" where
  "recv_request 0 os client request w =
     (if length request < REQUEST_BYTES then None else Some (Some request, w))"
| "recv_request (Suc fuel) os client request w =
     (if length request < REQUEST_BYTES then
        case os_recv os client (REQUEST_BYTES - length request) w of
          (ReadErrno e, w) \<Rightarrow> if e = FB_EINTR then recv_request fuel os client request w else Some (None, w)
        | (Bytes bs, w) \<Rightarrow>
            if bs = [] then Some (None, w)
            else if REQUEST_BYTES - length request < length bs then None
            else if head_complete (request @ bs) then Some (Some (request @ bs), w)
            else recv_request fuel os client (request @ bs) w
      else Some (Some request, w))"

text \<open>
  \<^verbatim>\<open>%ns\<close> of \<^verbatim>\<open>sscanf\<close>: white space is skipped, then up to \<open>n\<close> other characters are taken.
  A conversion that finds no character has used up the text, so the third one succeeds exactly when
  all three do.
\<close>

definition scan_word :: "nat \<Rightarrow> string \<Rightarrow> string \<times> string" where
  "scan_word n s =
     (let s = dropWhile is_space s; word = take n (takeWhile (\<lambda>c. \<not> is_space c) s) in (word, drop (length word) s))"

definition scan_request :: "string \<Rightarrow> (string \<times> string \<times> string) option" where
  "scan_request s =
     (let (meth, s) = scan_word 15 s; (path, s) = scan_word 127 s; (version, s) = scan_word 15 s
      in if version = [] then None else Some (meth, path, version))"

definition handle_request ::
    "nat \<Rightarrow> 'w serve_os \<Rightarrow> int \<Rightarrow> string \<Rightarrow> serve_mem \<Rightarrow> 'w \<Rightarrow> (int \<times> serve_mem \<times> 'w) option" where
  "handle_request fuel os client device m w = do {
     (request, w) \<leftarrow> recv_request fuel os client [] w;
     case request of
       None \<Rightarrow> Some (0, m, w)
     | Some request \<Rightarrow>
         if length request = REQUEST_BYTES then do {
           w \<leftarrow> send_text fuel os client 413 ''Payload Too Large'' ''request too large'' w;
           Some (1, m, w)
         } else case scan_request (c_string request) of
           None \<Rightarrow> do {
             w \<leftarrow> send_text fuel os client 400 ''Bad Request'' ''bad request'' w;
             Some (1, m, w)
           }
         | Some (meth, path, version) \<Rightarrow>
             if meth \<noteq> ''GET'' then do {
               w \<leftarrow> send_text fuel os client 405 ''Method Not Allowed'' ''GET only'' w;
               Some (1, m, w)
             } else if path = ''/health'' then do {
               w \<leftarrow> send_text fuel os client 200 ''OK'' (''status=ok'' @ [CHR 0x0A] @ ''read_only=1'') w;
               Some (1, m, w)
             } else if path \<noteq> ''/'' \<and> path \<noteq> ''/frame.bmp'' then do {
               w \<leftarrow> send_text fuel os client 404 ''Not Found'' ''not found'' w;
               Some (1, m, w)
             } else do {
               (r, buf, w) \<leftarrow> read_frame fuel os device (framebuffer m) w;
               if r < 0 then do {
                 w \<leftarrow> send_text fuel os client 503 ''Service Unavailable''
                   ''framebuffer read failed'' w;
                 Some (1, m\<lparr>framebuffer := buf\<rparr>, w)
               } else do {
                 b \<leftarrow> build_bitmap buf;
                 (r, w) \<leftarrow> send_response fuel os client 200 ''OK'' ''image/bmp'' b w;
                 Some (1, m\<lparr>framebuffer := buf, bitmap := b\<rparr>, w)
               }
             }
   }"

text \<open>The accept loop, with the number of rounds it may take as its own fuel; the result is the exit status.\<close>

fun serve :: "nat \<Rightarrow> nat \<Rightarrow> 'w serve_os \<Rightarrow> serve_options \<Rightarrow> int \<Rightarrow> serve_mem \<Rightarrow> 'w \<Rightarrow> (int \<times> serve_mem \<times> 'w) option" where
  "serve 0 fuel os o' server m w = None"
| "serve (Suc rounds) fuel os o' server m w =
     (case os_accept os server w of
        (Inl e, w) \<Rightarrow>
          if e = FB_EINTR then serve rounds fuel os o' server m w
          else Some (1, m, os_close os server w)
      | (Inr client, w) \<Rightarrow> do {
          (r, m, w) \<leftarrow> handle_request fuel os client (opt_device o') m w;
          let w = os_close os client w;
          if r \<noteq> 0 \<and> opt_once o' then Some (0, m, os_close os server w)
          else serve rounds fuel os o' server m w
        })"

text \<open>The lines of \<^verbatim>\<open>--machine\<close>, and the program from its arguments to its exit status.\<close>

definition startup_lines :: "serve_options \<Rightarrow> string list" where
  "startup_lines o' = [''schema=1'', ''bind='' @ opt_bind o', ''port='' @ dec (unat (opt_port o')),
     ''device='' @ opt_device o', ''width=320'', ''height=180'', ''scale=4'', ''read_only=1'']"

definition start_server :: "'w serve_os \<Rightarrow> serve_options \<Rightarrow> 'w \<Rightarrow> (int + int) \<times> 'w" where
  "start_server os o' w =
     (let (server, w) = os_socket os w in
      if server < 0 then (Inl 1, w)
      else let (r, w) = os_reuse os server w in
      if r < 0 then (Inl 1, os_close os server w)
      else if \<not> os_inet os (opt_bind o') then (Inl 2, os_close os server w)
      else let (r, w) = os_bind os server (opt_bind o') (opt_port o') w in
      if r < 0 then (Inl 1, os_close os server w)
      else let (r, w) = os_listen os server 4 w in
      if r < 0 then (Inl 1, os_close os server w)
      else (Inr server, w))"

definition serve_main ::
    "nat \<Rightarrow> nat \<Rightarrow> 'w serve_os \<Rightarrow> string list \<Rightarrow> 'w \<Rightarrow> (int \<times> string list \<times> 'w) option" where
  "serve_main rounds fuel os args w =
     (case serve_arguments args default_serve_options of
        Inl status \<Rightarrow> Some (status, [], w)
      | Inr o' \<Rightarrow>
          case start_server os o' w of
            (Inl status, w) \<Rightarrow> Some (status, [], w)
          | (Inr server, w) \<Rightarrow> do {
              (status, m, w) \<leftarrow> serve rounds fuel os o' server
                 \<lparr>framebuffer = replicate FB_BYTES 0, bitmap = replicate BMP_BYTES 0\<rparr> w;
              Some (status, if opt_machine o' then startup_lines o' else [], w)
            })"

section \<open>The kernel\<close>

text \<open>
  What the server relies on: the system calls move bytes and nothing else. \<open>rx\<close>, \<open>tx\<close> and \<open>dv\<close> are
  the bytes received from and sent to clients and those read from the device; a call returns at most
  what it was asked for; and only finitely many interruptions are ahead (\<open>patience\<close>).
\<close>

record traffic =
  rx :: "u8 list"
  tx :: "u8 list"
  dv :: "u8 list"

definition serve_kernel :: "'w serve_os \<Rightarrow> ('w \<Rightarrow> traffic) \<Rightarrow> ('w \<Rightarrow> nat) \<Rightarrow> bool" where
  "serve_kernel os view patience \<longleftrightarrow>
     (\<forall>path w. view (snd (os_open os path w)) = view w \<and> patience (snd (os_open os path w)) \<le> patience w) \<and>
     (\<forall>fd w. view (os_close os fd w) = view w \<and> patience (os_close os fd w) \<le> patience w) \<and>
     (\<forall>fd n bs w w'. os_read os fd n w = (Bytes bs, w') \<longrightarrow>
        length bs \<le> n \<and> view w' = (view w)\<lparr>dv := dv (view w) @ bs\<rparr> \<and> patience w' \<le> patience w) \<and>
     (\<forall>fd n e w w'. os_read os fd n w = (ReadErrno e, w') \<longrightarrow>
        view w' = view w \<and> patience w' \<le> patience w \<and> (e = FB_EINTR \<longrightarrow> patience w' < patience w)) \<and>
     (\<forall>fd n bs w w'. os_recv os fd n w = (Bytes bs, w') \<longrightarrow>
        length bs \<le> n \<and> view w' = (view w)\<lparr>rx := rx (view w) @ bs\<rparr> \<and> patience w' \<le> patience w) \<and>
     (\<forall>fd n e w w'. os_recv os fd n w = (ReadErrno e, w') \<longrightarrow>
        view w' = view w \<and> patience w' \<le> patience w \<and> (e = FB_EINTR \<longrightarrow> patience w' < patience w)) \<and>
     (\<forall>fd bs n w w'. os_send os fd bs w = (Count n, w') \<longrightarrow>
        n \<le> length bs \<and> view w' = (view w)\<lparr>tx := tx (view w) @ take n bs\<rparr> \<and> patience w' \<le> patience w) \<and>
     (\<forall>fd bs e w w'. os_send os fd bs w = (CountErrno e, w') \<longrightarrow>
        view w' = view w \<and> patience w' \<le> patience w \<and> (e = FB_EINTR \<longrightarrow> patience w' < patience w))"

lemma kernel_open: "serve_kernel os view p \<Longrightarrow> os_open os path w = (fd, w') \<Longrightarrow> view w' = view w \<and> p w' \<le> p w"
  unfolding serve_kernel_def by (metis snd_conv)

lemma kernel_close: "serve_kernel os view p \<Longrightarrow> view (os_close os fd w) = view w \<and> p (os_close os fd w) \<le> p w"
  unfolding serve_kernel_def by simp

lemma kernel_read: "serve_kernel os view p \<Longrightarrow> os_read os fd n w = (Bytes bs, w') \<Longrightarrow>
    length bs \<le> n \<and> view w' = (view w)\<lparr>dv := dv (view w) @ bs\<rparr> \<and> p w' \<le> p w"
  unfolding serve_kernel_def by simp

lemma kernel_read_errno: "serve_kernel os view p \<Longrightarrow> os_read os fd n w = (ReadErrno e, w') \<Longrightarrow>
    view w' = view w \<and> p w' \<le> p w \<and> (e = FB_EINTR \<longrightarrow> p w' < p w)"
  unfolding serve_kernel_def by simp

lemma kernel_recv: "serve_kernel os view p \<Longrightarrow> os_recv os fd n w = (Bytes bs, w') \<Longrightarrow>
    length bs \<le> n \<and> view w' = (view w)\<lparr>rx := rx (view w) @ bs\<rparr> \<and> p w' \<le> p w"
  unfolding serve_kernel_def by simp

lemma kernel_recv_errno: "serve_kernel os view p \<Longrightarrow> os_recv os fd n w = (ReadErrno e, w') \<Longrightarrow>
    view w' = view w \<and> p w' \<le> p w \<and> (e = FB_EINTR \<longrightarrow> p w' < p w)"
  unfolding serve_kernel_def by simp

lemma kernel_send: "serve_kernel os view p \<Longrightarrow> os_send os fd bs w = (Count n, w') \<Longrightarrow>
    n \<le> length bs \<and> view w' = (view w)\<lparr>tx := tx (view w) @ take n bs\<rparr> \<and> p w' \<le> p w"
  unfolding serve_kernel_def by simp

lemma kernel_send_errno: "serve_kernel os view p \<Longrightarrow> os_send os fd bs w = (CountErrno e, w') \<Longrightarrow>
    view w' = view w \<and> p w' \<le> p w \<and> (e = FB_EINTR \<longrightarrow> p w' < p w)"
  unfolding serve_kernel_def by simp

text \<open>A client that stays takes some bytes of every send that is not interrupted.\<close>

definition client_stays :: "'w serve_os \<Rightarrow> bool" where
  "client_stays os \<longleftrightarrow> (\<forall>fd bs w. bs \<noteq> [] \<longrightarrow>
     (case fst (os_send os fd bs w) of Count n \<Rightarrow> n \<noteq> 0 | CountErrno e \<Rightarrow> e = FB_EINTR))"

lemma client_staysD:
  assumes "client_stays os" "os_send os fd bs w = (res, w')" "bs \<noteq> []"
  shows "res \<noteq> Count 0" "res = CountErrno e \<Longrightarrow> e = FB_EINTR"
proof -
  have "case res of Count n \<Rightarrow> n \<noteq> 0 | CountErrno e \<Rightarrow> e = FB_EINTR"
    using assms(1) [unfolded client_stays_def, rule_format, OF assms(3), of fd w] assms(2) by simp
  then show "res \<noteq> Count 0" "res = CountErrno e \<Longrightarrow> e = FB_EINTR" by auto
qed

definition delivered :: "'w serve_os \<Rightarrow> u8 list \<Rightarrow> u8 list \<Rightarrow> bool" where
  "delivered os sent msg \<longleftrightarrow> prefix sent msg \<and> (client_stays os \<longrightarrow> sent = msg)"

section \<open>The loops return\<close>

lemma send_all_ok:
  assumes "serve_kernel os view p" "length bytes + p w \<le> fuel"
  shows "\<exists>r w' sent. send_all fuel os client bytes w = Some (r, w') \<and> p w' \<le> p w \<and> prefix sent bytes \<and>
    view w' = (view w)\<lparr>tx := tx (view w) @ sent\<rparr> \<and> (r = 0 \<and> sent = bytes \<or> r = - 1 \<and> \<not> client_stays os)"
  using assms(2)
proof (induction fuel arbitrary: bytes w)
  case (Suc fuel)
  show ?case
  proof (cases "bytes = []")
    case False
    obtain res w1 where s: "os_send os client bytes w = (res, w1)" by fastforce
    show ?thesis
    proof (cases res)
      case (Count n)
      note k = kernel_send [OF assms(1) s [unfolded Count]]
      show ?thesis
      proof (cases "n = 0")
        case True
        with False s Count k client_staysD(1) [OF _ s False] show ?thesis by (auto intro!: exI [of _ "[]"])
      next
        case n: False
        then have "length (drop n bytes) + p w1 \<le> fuel" using k Suc.prems False by auto
        from Suc.IH [OF this] obtain r w' sent where
          r: "send_all fuel os client (drop n bytes) w1 = Some (r, w')" "p w' \<le> p w1" "prefix sent (drop n bytes)"
            "view w' = (view w1)\<lparr>tx := tx (view w1) @ sent\<rparr>" "r = 0 \<and> sent = drop n bytes \<or> r = - 1 \<and> \<not> client_stays os" by blast
        have "prefix (take n bytes @ sent) bytes"
          using r(3) by (metis append_take_drop_id same_prefix_prefix)
        moreover have "view w' = (view w)\<lparr>tx := tx (view w) @ take n bytes @ sent\<rparr>" using r(4) k by simp
        moreover have "r = 0 \<and> take n bytes @ sent = bytes \<or> r = - 1 \<and> \<not> client_stays os" using r(5) by auto
        ultimately show ?thesis using False n s Count r(1,2) k by (auto intro!: exI [of _ "take n bytes @ sent"])
      qed
    next
      case (CountErrno e)
      note k = kernel_send_errno [OF assms(1) s [unfolded CountErrno]]
      show ?thesis
      proof (cases "e = FB_EINTR")
        case True
        then have "length bytes + p w1 \<le> fuel" using k Suc.prems by auto
        from Suc.IH [OF this] k show ?thesis using False s CountErrno True by fastforce
      next
        case n: False
        with False s CountErrno k client_staysD(2) [OF _ s False] show ?thesis by (auto intro!: exI [of _ "[]"])
      qed
    qed
  qed auto
qed auto

lemma fill_frame_ok:
  assumes "serve_kernel os view p" "FB_BYTES - offset + p w \<le> fuel" "length buf = FB_BYTES" "offset \<le> FB_BYTES"
  shows "\<exists>r buf' w' got. fill_frame fuel os fd offset buf w = Some (r, buf', w') \<and> p w' \<le> p w \<and> length buf' = FB_BYTES \<and>
    view w' = (view w)\<lparr>dv := dv (view w) @ got\<rparr> \<and>
    (r = 0 \<and> buf' = take offset buf @ got \<or> r = - 1 \<and> length got < FB_BYTES - offset)"
  using assms(2-4)
proof (induction fuel arbitrary: offset buf w)
  case (Suc fuel)
  show ?case
  proof (cases "offset < FB_BYTES")
    case True
    obtain res w1 where s: "os_read os fd (FB_BYTES - offset) w = (res, w1)" by fastforce
    show ?thesis
    proof (cases res)
      case (Bytes bs)
      note k = kernel_read [OF assms(1) s [unfolded Bytes]]
      show ?thesis
      proof (cases "bs = []")
        case True
        with \<open>offset < FB_BYTES\<close> s Bytes k Suc.prems show ?thesis by (auto intro!: exI [of _ "[]"])
      next
        case n: False
        let ?buf = "take offset buf @ bs @ drop (offset + length bs) buf"
        have l: "length ?buf = FB_BYTES" "offset + length bs \<le> FB_BYTES" using k Suc.prems by auto
        have f: "FB_BYTES - (offset + length bs) + p w1 \<le> fuel"
          using k Suc.prems n True l(2) by (cases bs) auto
        from Suc.IH [OF f l] obtain r buf' w' got where
          r: "fill_frame fuel os fd (offset + length bs) ?buf w1 = Some (r, buf', w')" "p w' \<le> p w1" "length buf' = FB_BYTES"
            "view w' = (view w1)\<lparr>dv := dv (view w1) @ got\<rparr>"
            "r = 0 \<and> buf' = take (offset + length bs) ?buf @ got \<or> r = - 1 \<and> length got < FB_BYTES - (offset + length bs)"
          by blast
        have t: "take (offset + length bs) ?buf = take offset buf @ bs" using l(2) Suc.prems by simp
        have "put_bytes offset bs buf = Some ?buf" using l(2) Suc.prems by (simp add: put_bytes_def)
        moreover have "view w' = (view w)\<lparr>dv := dv (view w) @ bs @ got\<rparr>" using r(4) k by simp
        moreover have "r = 0 \<and> buf' = take offset buf @ bs @ got \<or> r = - 1 \<and> length (bs @ got) < FB_BYTES - offset"
          using r(5) unfolding t by auto
        ultimately show ?thesis using True n s Bytes r(1-3) k by (auto intro!: exI [of _ "bs @ got"])
      qed
    next
      case (ReadErrno e)
      note k = kernel_read_errno [OF assms(1) s [unfolded ReadErrno]]
      show ?thesis
      proof (cases "e = FB_EINTR")
        case e: True
        then have "FB_BYTES - offset + p w1 \<le> fuel" using k Suc.prems by auto
        from Suc.IH [OF this Suc.prems(2,3)] k show ?thesis using True s ReadErrno e by fastforce
      next
        case False
        with True s ReadErrno k Suc.prems show ?thesis by (auto intro!: exI [of _ "[]"])
      qed
    qed
  next
    case False
    then show ?thesis using Suc.prems by (auto intro!: exI [of _ "[]"])
  qed
qed (auto intro!: exI [of _ "[]"])

lemma read_frame_ok:
  assumes "serve_kernel os view p" "FB_BYTES + p w \<le> fuel" "length buf = FB_BYTES"
  shows "\<exists>r buf' w' got. read_frame fuel os device buf w = Some (r, buf', w') \<and> p w' \<le> p w \<and> length buf' = FB_BYTES \<and>
    view w' = (view w)\<lparr>dv := dv (view w) @ got\<rparr> \<and> (r = 0 \<and> buf' = got \<or> r = - 1 \<and> length got < FB_BYTES)"
proof -
  obtain fd w1 where o: "os_open os device w = (fd, w1)" by fastforce
  note k = kernel_open [OF assms(1) o]
  show ?thesis
  proof (cases "fd < 0")
    case True
    with o k assms(3) show ?thesis by (auto simp: read_frame_def intro!: exI [of _ "[]"])
  next
    case False
    have "FB_BYTES - 0 + p w1 \<le> fuel" using assms(2) k by simp
    from fill_frame_ok [OF assms(1) this assms(3), of fd] obtain r buf' w2 got where
      r: "fill_frame fuel os fd 0 buf w1 = Some (r, buf', w2)" "p w2 \<le> p w1" "length buf' = FB_BYTES"
        "view w2 = (view w1)\<lparr>dv := dv (view w1) @ got\<rparr>" "r = 0 \<and> buf' = got \<or> r = - 1 \<and> length got < FB_BYTES" by auto
    have "read_frame fuel os device buf w = Some (r, buf', os_close os fd w2)"
      using o False r(1) by (simp add: read_frame_def)
    moreover have "p (os_close os fd w2) \<le> p w" "view (os_close os fd w2) = (view w)\<lparr>dv := dv (view w) @ got\<rparr>"
      using kernel_close [OF assms(1), of fd w2] k r(2,4) by simp_all
    ultimately show ?thesis using r(3,5) by blast
  qed
qed

lemma recv_request_ok:
  assumes "serve_kernel os view p" "REQUEST_BYTES - length request + p w \<le> fuel" "length request \<le> REQUEST_BYTES"
  shows "\<exists>res w' got. recv_request fuel os client request w = Some (res, w') \<and> p w' \<le> p w \<and>
    view w' = (view w)\<lparr>rx := rx (view w) @ got\<rparr> \<and> length (request @ got) \<le> REQUEST_BYTES \<and>
    (res = None \<or> res = Some (request @ got))"
  using assms(2,3)
proof (induction fuel arbitrary: request w)
  case (Suc fuel)
  show ?case
  proof (cases "length request < REQUEST_BYTES")
    case True
    obtain res w1 where s: "os_recv os client (REQUEST_BYTES - length request) w = (res, w1)" by fastforce
    show ?thesis
    proof (cases res)
      case (Bytes bs)
      note k = kernel_recv [OF assms(1) s [unfolded Bytes]]
      show ?thesis
      proof (cases "bs = [] \<or> head_complete (request @ bs)")
        case stop: True
        with True s Bytes k Suc.prems show ?thesis by (auto intro!: exI [of _ bs])
      next
        case n: False
        have l: "length (request @ bs) \<le> REQUEST_BYTES" using k True by auto
        have f: "REQUEST_BYTES - length (request @ bs) + p w1 \<le> fuel" using k Suc.prems n True by (cases bs) auto
        from Suc.IH [OF f l] obtain res' w' got where
          r: "recv_request fuel os client (request @ bs) w1 = Some (res', w')" "p w' \<le> p w1"
            "view w' = (view w1)\<lparr>rx := rx (view w1) @ got\<rparr>" "length (request @ bs @ got) \<le> REQUEST_BYTES"
            "res' = None \<or> res' = Some (request @ bs @ got)" by auto
        have "view w' = (view w)\<lparr>rx := rx (view w) @ bs @ got\<rparr>" using r(3) k by simp
        with True n s Bytes r k show ?thesis by (auto intro!: exI [of _ "bs @ got"])
      qed
    next
      case (ReadErrno e)
      note k = kernel_recv_errno [OF assms(1) s [unfolded ReadErrno]]
      show ?thesis
      proof (cases "e = FB_EINTR")
        case e: True
        then have "REQUEST_BYTES - length request + p w1 \<le> fuel" using k Suc.prems by auto
        from Suc.IH [OF this Suc.prems(2)] k show ?thesis using True s ReadErrno e by fastforce
      next
        case False
        with True s ReadErrno k Suc.prems show ?thesis by (auto intro!: exI [of _ "[]"])
      qed
    qed
  next
    case False
    then show ?thesis using Suc.prems by (auto intro!: exI [of _ "[]"])
  qed
qed (auto intro!: exI [of _ "[]"])

section \<open>The answer to a request\<close>

definition reply :: "nat \<Rightarrow> string \<Rightarrow> string \<Rightarrow> u8 list \<Rightarrow> u8 list" where
  "reply status reason content_type body = response_header status reason content_type (length body) @ body"

definition text_reply :: "nat \<Rightarrow> string \<Rightarrow> string \<Rightarrow> u8 list" where
  "text_reply status reason line = reply status reason TEXT_PLAIN (bytes_of (line @ [CHR 0x0A]))"

text \<open>The whole protocol as a function of the request and of the bitmap, \<open>None\<close> if the device gave no full frame.\<close>

definition answer :: "u8 list \<Rightarrow> u8 list option \<Rightarrow> u8 list" where
  "answer request bmp =
     (if length request = REQUEST_BYTES then text_reply 413 ''Payload Too Large'' ''request too large''
      else case scan_request (c_string request) of
        None \<Rightarrow> text_reply 400 ''Bad Request'' ''bad request''
      | Some (meth, path, version) \<Rightarrow>
          if meth \<noteq> ''GET'' then text_reply 405 ''Method Not Allowed'' ''GET only''
          else if path = ''/health'' then text_reply 200 ''OK'' (''status=ok'' @ [CHR 0x0A] @ ''read_only=1'')
          else if path \<noteq> ''/'' \<and> path \<noteq> ''/frame.bmp'' then text_reply 404 ''Not Found'' ''not found''
          else case bmp of
            None \<Rightarrow> text_reply 503 ''Service Unavailable'' ''framebuffer read failed''
          | Some b \<Rightarrow> reply 200 ''OK'' ''image/bmp'' b)"

lemma length_response_header:
  assumes "status < 1000" "n < 1000000"
  shows "length (response_header status reason ct n) \<le> 79 + length reason + length ct"
  using assms length_dec [of status 2] length_dec [of n 5] by (simp add: response_header_def CRLF_def)

lemma send_response_ok:
  assumes "serve_kernel os view p" "length body < 1000000" "status < 1000" "length reason + length ct \<le> 400"
    and "length body + 512 + p w \<le> fuel"
  shows "\<exists>r w' sent. send_response fuel os client status reason ct body w = Some (r, w') \<and> p w' \<le> p w \<and>
    delivered os sent (reply status reason ct body) \<and> view w' = (view w)\<lparr>tx := tx (view w) @ sent\<rparr>"
proof -
  let ?h = "response_header status reason ct (length body)"
  have h: "length ?h < 512" using length_response_header [OF assms(3,2), of reason ct] assms(4) by simp
  then have "length ?h + p w \<le> fuel" using assms(5) by simp
  from send_all_ok [OF assms(1) this, of client] obtain r w1 sent where
    1: "send_all fuel os client ?h w = Some (r, w1)" "p w1 \<le> p w" "prefix sent ?h"
      "view w1 = (view w)\<lparr>tx := tx (view w) @ sent\<rparr>" "r = 0 \<and> sent = ?h \<or> r = - 1 \<and> \<not> client_stays os" by blast
  show ?thesis
  proof (cases "r = 0")
    case False
    then have "send_response fuel os client status reason ct body w = Some (- 1, w1)"
      using h 1 by (simp add: send_response_def Let_def)
    moreover have "delivered os sent (reply status reason ct body)" using 1(3,5) False by (auto simp: reply_def delivered_def)
    ultimately show ?thesis using 1(2,4) by blast
  next
    case True
    have "length body + p w1 \<le> fuel" using assms(5) 1(2) by simp
    from send_all_ok [OF assms(1) this, of client] obtain r' w2 sent' where
      2: "send_all fuel os client body w1 = Some (r', w2)" "p w2 \<le> p w1" "prefix sent' body"
        "view w2 = (view w1)\<lparr>tx := tx (view w1) @ sent'\<rparr>" "r' = 0 \<and> sent' = body \<or> r' = - 1 \<and> \<not> client_stays os" by blast
    have "send_response fuel os client status reason ct body w = Some (r', w2)"
      using h 1(1) 2(1) True by (simp add: send_response_def Let_def)
    moreover have "delivered os (?h @ sent') (reply status reason ct body)" using 2(3,5) by (auto simp: reply_def delivered_def)
    moreover have "view w2 = (view w)\<lparr>tx := tx (view w) @ ?h @ sent'\<rparr>" using 1(4,5) 2(4) True by simp
    ultimately show ?thesis using 1(2) 2(2) le_trans by blast
  qed
qed

text \<open>What a request does to the world: the bytes received, read from the device and sent.\<close>

definition moved :: "('w \<Rightarrow> traffic) \<Rightarrow> 'w \<Rightarrow> u8 list \<Rightarrow> u8 list \<Rightarrow> u8 list \<Rightarrow> 'w \<Rightarrow> bool" where
  "moved view w req got sent w' \<longleftrightarrow> view w' = (view w)
     \<lparr>rx := rx (view w) @ req, tx := tx (view w) @ sent, dv := dv (view w) @ got\<rparr>"

lemma send_text_ok:
  assumes "serve_kernel os view p" "length line \<le> 400" "status < 1000" "length reason \<le> 300" "1000 + p w \<le> fuel"
  shows "\<exists>w' sent. send_text fuel os client status reason line w = Some w' \<and>
    delivered os sent (text_reply status reason line) \<and> view w' = (view w)\<lparr>tx := tx (view w) @ sent\<rparr>"
proof -
  have "length (bytes_of (line @ [CHR 0x0A])) < 1000000" "length reason + length TEXT_PLAIN \<le> 400"
    "length (bytes_of (line @ [CHR 0x0A])) + 512 + p w \<le> fuel" using assms by simp_all
  from send_response_ok [OF assms(1) this(1) assms(3) this(2,3), of client] show ?thesis
    unfolding send_text_def text_reply_def by auto
qed

lemma text_outcome:
  assumes "serve_kernel os view p" "length line \<le> 400" "status < 1000" "length reason \<le> 300" "1000 + p w1 \<le> fuel"
    and "view w1 = (view w)\<lparr>rx := rx (view w) @ req, dv := dv (view w) @ got\<rparr>"
  shows "\<exists>w' sent. do { w \<leftarrow> send_text fuel os client status reason line w1; Some (1 :: int, m, w) } = Some (1, m, w') \<and>
    delivered os sent (text_reply status reason line) \<and> moved view w req got sent w'"
proof -
  obtain w' sent where "send_text fuel os client status reason line w1 = Some w'" "delivered os sent (text_reply status reason line)"
    "view w' = (view w1)\<lparr>tx := tx (view w1) @ sent\<rparr>" using send_text_ok [OF assms(1-5), of client] by blast
  with assms(6) show ?thesis by (auto simp: moved_def)
qed

text \<open>The answer once the request is complete.\<close>

definition answers :: "'w serve_os \<Rightarrow> ('w \<Rightarrow> traffic) \<Rightarrow> 'w \<Rightarrow> u8 list \<Rightarrow> (int \<times> serve_mem \<times> 'w) option \<Rightarrow> bool" where
  "answers os view w req res \<longleftrightarrow> (\<exists>m' w' got sent. res = Some (1, m', w') \<and> moved view w req got sent w' \<and>
     length (framebuffer m') = FB_BYTES \<and>
     delivered os sent (answer req (if length got = FB_BYTES then build_bitmap got else None)))"

lemma answers_text:
  assumes "serve_kernel os view p" "length line \<le> 400" "status < 1000" "length reason \<le> 300" "1000 + p w1 \<le> fuel"
    and "view w1 = (view w)\<lparr>rx := rx (view w) @ req, dv := dv (view w) @ got\<rparr>" "length (framebuffer m) = FB_BYTES"
    and "answer req (if length got = FB_BYTES then build_bitmap got else None) = text_reply status reason line"
  shows "answers os view w req (do { w \<leftarrow> send_text fuel os client status reason line w1; Some (1, m, w) })"
  using text_outcome [OF assms(1-6), of client m] assms(7,8) unfolding answers_def by metis

lemma handle_frame_ok:
  assumes k: "serve_kernel os view p" and f: "4000000 + p w1 \<le> fuel" and v: "view w1 = (view w)\<lparr>rx := rx (view w) @ req\<rparr>"
    and l: "length (framebuffer m) = FB_BYTES" and q: "length req \<noteq> REQUEST_BYTES"
    and sc: "scan_request (c_string req) = Some (''GET'', path, version)" "path = ''/'' \<or> path = ''/frame.bmp''"
  shows "answers os view w req (do {
      (r, buf, w) \<leftarrow> read_frame fuel os device (framebuffer m) w1;
      if r < 0 then do {
        w \<leftarrow> send_text fuel os client 503 ''Service Unavailable'' ''framebuffer read failed'' w;
        Some (1, m\<lparr>framebuffer := buf\<rparr>, w)
      } else do {
        b \<leftarrow> build_bitmap buf;
        (r, w) \<leftarrow> send_response fuel os client 200 ''OK'' ''image/bmp'' b w;
        Some (1, m\<lparr>framebuffer := buf, bitmap := b\<rparr>, w)
      } })"
proof -
  have "FB_BYTES + p w1 \<le> fuel" using f by simp
  from read_frame_ok [OF k this l, of device] obtain r buf w2 got where
    r: "read_frame fuel os device (framebuffer m) w1 = Some (r, buf, w2)" "p w2 \<le> p w1" "length buf = FB_BYTES"
      "view w2 = (view w1)\<lparr>dv := dv (view w1) @ got\<rparr>" "r = 0 \<and> buf = got \<or> r = - 1 \<and> length got < FB_BYTES" by blast
  have a: "answer req bmp = (case bmp of None \<Rightarrow> text_reply 503 ''Service Unavailable'' ''framebuffer read failed''
      | Some b \<Rightarrow> reply 200 ''OK'' ''image/bmp'' b)" for bmp
    using q sc by (auto simp: answer_def)
  show ?thesis
  proof (cases "r = 0")
    case False
    have v2: "view w2 = (view w)\<lparr>rx := rx (view w) @ req, dv := dv (view w) @ got\<rparr>" using v r(4) by simp
    have "length got \<noteq> FB_BYTES" "1000 + p w2 \<le> fuel" using r False f by auto
    then have "answers os view w req (do { w \<leftarrow> send_text fuel os client 503 ''Service Unavailable'' ''framebuffer read failed'' w2;
        Some (1, m\<lparr>framebuffer := buf\<rparr>, w) })"
      using r(3) by (intro answers_text [OF k _ _ _ _ v2]) (simp_all add: a)
    with r(1,5) False show ?thesis by simp
  next
    case True
    then have got: "buf = got" using r(5) by simp
    obtain b where b: "build_bitmap buf = Some b" "length b = BMP_BYTES" by (rule decode_build [OF r(3)])
    have "length b < 1000000" "length b + 512 + p w2 \<le> fuel" using b(2) f r(2) by simp_all
    from send_response_ok [OF k this(1) _ _ this(2), of 200 "''OK''" "''image/bmp''" client] obtain r' w3 sent where
      s: "send_response fuel os client 200 ''OK'' ''image/bmp'' b w2 = Some (r', w3)"
        "delivered os sent (reply 200 ''OK'' ''image/bmp'' b)" "view w3 = (view w2)\<lparr>tx := tx (view w2) @ sent\<rparr>" by auto
    have "moved view w req got sent w3" using v r(4) s(3) by (simp add: moved_def)
    moreover have "delivered os sent (answer req (if length got = FB_BYTES then build_bitmap got else None))"
      using s(2) b(1) r(3) by (simp add: a got)
    ultimately show ?thesis unfolding answers_def using r(1,3) b(1) s(1) True
      by (intro exI [of _ "m\<lparr>framebuffer := buf, bitmap := b\<rparr>"] exI [of _ w3] exI [of _ got] exI [of _ sent]) simp
  qed
qed

lemma handle_request_ok:
  assumes k: "serve_kernel os view p" and f: "4000000 + p w \<le> fuel" and l: "length (framebuffer m) = FB_BYTES"
  shows "\<exists>req. length req \<le> REQUEST_BYTES \<and>
    ((\<exists>w'. handle_request fuel os client device m w = Some (0, m, w') \<and> moved view w req [] [] w') \<or>
     answers os view w req (handle_request fuel os client device m w))"
proof -
  have "REQUEST_BYTES - length [] + p w \<le> fuel" using f by simp
  from recv_request_ok [OF k this, of client] obtain res w1 req where
    r: "recv_request fuel os client [] w = Some (res, w1)" "p w1 \<le> p w" "view w1 = (view w)\<lparr>rx := rx (view w) @ req\<rparr>"
      "length req \<le> REQUEST_BYTES" "res = None \<or> res = Some req" by auto
  from r(3) have v: "view w1 = (view w)\<lparr>rx := rx (view w) @ req, dv := dv (view w) @ []\<rparr>" by simp
  have f1: "4000000 + p w1 \<le> fuel" "1000 + p w1 \<le> fuel" using f r(2) by simp_all
  note by_text = answers_text [OF k _ _ _ f1(2) v l]
  show ?thesis
  proof (cases res)
    case None
    have "moved view w req [] [] w1" using r(3) by (simp add: moved_def)
    with r(1,4) None show ?thesis by (auto simp: handle_request_def)
  next
    case (Some request)
    with r(5) have req: "res = Some req" by simp
    have "answers os view w req (handle_request fuel os client device m w)"
    proof (cases "length req = REQUEST_BYTES")
      case True
      with r(1) req show ?thesis by (simp add: handle_request_def) (intro by_text, simp_all add: answer_def)
    next
      case q: False
      show ?thesis
      proof (cases "scan_request (c_string req)")
        case None
        with r(1) req q show ?thesis by (simp add: handle_request_def) (intro by_text, simp_all add: answer_def)
      next
        case (Some t)
        obtain meth path version where t: "t = (meth, path, version)" by (cases t)
        note sc = Some [unfolded t]
        show ?thesis
        proof (cases "meth = ''GET'' \<and> (path = ''/'' \<or> path = ''/frame.bmp'')")
          case True
          then have sc': "scan_request (c_string req) = Some (''GET'', path, version)" and "path = ''/'' \<or> path = ''/frame.bmp''"
            and "path \<noteq> ''/health''" using sc by auto
          with handle_frame_ok [OF k f1(1) r(3) l q sc' this(2), of device client] r(1) req q
          show ?thesis by (auto simp: handle_request_def)
        next
          case False
          then consider "meth \<noteq> ''GET''" | "meth = ''GET''" "path = ''/health''"
            | "meth = ''GET''" "path \<noteq> ''/health''" "path \<noteq> ''/''" "path \<noteq> ''/frame.bmp''" by blast
          then show ?thesis
            using r(1) req q sc by cases (simp add: handle_request_def, intro by_text, simp_all add: answer_def)+
        qed
      qed
    qed
    with r(4) show ?thesis by blast
  qed
qed

section \<open>Theorems\<close>


text \<open>A client that asks for the health page in one piece and takes every byte; there is no framebuffer device.\<close>

definition health_client :: "traffic serve_os" where
  "health_client = \<lparr>os_open = (\<lambda>path w. (- 1, w)), os_close = (\<lambda>fd w. w),
     os_read = (\<lambda>fd n w. (Bytes [], w)),
     os_recv = (\<lambda>fd n w. let bs = take n (if rx w = [] then bytes_of (''GET /health HTTP/1.0'' @ CRLF @ CRLF) else [])
        in (Bytes bs, w\<lparr>rx := rx w @ bs\<rparr>)),
     os_send = (\<lambda>fd bs w. (Count (length bs), w\<lparr>tx := tx w @ bs\<rparr>)),
     os_accept = (\<lambda>fd w. (Inr 5, w)), os_socket = (\<lambda>w. (3, w)), os_reuse = (\<lambda>fd w. (0, w)), os_inet = (\<lambda>a. True),
     os_bind = (\<lambda>fd a port w. (0, w)), os_listen = (\<lambda>fd n w. (0, w))\<rparr>"


end
