(* ===== verification/Control.thy ===== *)
theory Control
  imports C_Text
begin

text \<open>
  The remote control (\<^verbatim>\<open>toolkit/share/vita-control.c\<close>): it finds the running demo through
  its PID file, checks the executable behind the PID, and sends SIGUSR1 at most once per interval,
  with the time of the last signal in a state file. The file system is a map from paths to contents;
  everything else the kernel answers during one invocation is a parameter, the record \<open>control_env\<close>.
\<close>

abbreviation (input) SMALL_BUFFER :: nat where "SMALL_BUFFER \<equiv> 256"
abbreviation (input) PID_BUFFER :: nat where "PID_BUFFER \<equiv> 32"

type_synonym files = "string \<Rightarrow> string option"

text \<open>
  The outcomes of the system calls of one invocation: the environment, \<^verbatim>\<open>kill(pid, 0)\<close> (its
  errno, 0 for success), \<^verbatim>\<open>readlink\<close>, the clock, the calls on the state file (\<open>write_count\<close> is
  the number of bytes the write takes) and the final \<^verbatim>\<open>kill\<close>.
\<close>

record control_env =
  var :: "string \<Rightarrow> string option"
  probe :: "int \<Rightarrow> int"
  exe_link :: "string \<Rightarrow> string option"
  clock :: "(int \<times> int) option"
  state_open_ok :: bool
  lock_ok :: bool
  state_read_ok :: bool
  truncate_ok :: bool
  seek_ok :: bool
  write_count :: "nat \<Rightarrow> nat"
  signal_ok :: "int \<Rightarrow> bool"

section \<open>Helpers\<close>

definition report :: "bool \<Rightarrow> string \<Rightarrow> string \<Rightarrow> string" where
  "report machine key v = (if machine then key @ ''='' @ v else key @ '': '' @ v)"

definition parse_unsigned :: "string \<Rightarrow> u64 option" where
  "parse_unsigned t =
     (if t = [] then None
      else case strtou 64 t of (parsed, erange, rest) \<Rightarrow>
        if erange \<or> rest = t \<or> rest \<noteq> [] then None else Some (of_nat parsed))"

definition is_trailing :: "char \<Rightarrow> bool" where
  "is_trailing c \<longleftrightarrow> c = CHR 0x0A \<or> c = CHR 0x0D \<or> c = CHR 0x20 \<or> c = CHR 0x09"

definition read_small_file :: "files \<Rightarrow> string \<Rightarrow> nat \<Rightarrow> string option" where
  "read_small_file fs path capacity =
     (case fs path of
        None \<Rightarrow> None
      | Some content \<Rightarrow>
          let buffer = take (capacity - 1) content
          in if buffer = [] then None
             else Some (c_str (rev (dropWhile is_trailing (rev buffer)))))"

abbreviation (input) EPERM :: int where "EPERM \<equiv> 1"

text \<open>The result code, with the values the call leaves in \<^verbatim>\<open>*pid\<close> and \<^verbatim>\<open>actual_exe\<close>.\<close>

definition load_target :: "control_env \<Rightarrow> files \<Rightarrow> string \<Rightarrow> string \<Rightarrow> int \<times> int \<times> string" where
  "load_target e fs pidfile expected_exe =
     (case read_small_file fs pidfile PID_BUFFER of
        None \<Rightarrow> (- 2, 0, [])
      | Some pid_text \<Rightarrow>
          case parse_unsigned pid_text of
            None \<Rightarrow> (- 2, 0, [])
          | Some parsed \<Rightarrow>
              if parsed = 0 \<or> parsed > 2147483647 then (- 2, 0, [])
              else let pid = uint parsed in
                if probe e pid \<noteq> 0 \<and> probe e pid \<noteq> EPERM then (- 3, pid, [])
                else case exe_link e (''/proc/'' @ dec_int pid @ ''/exe'') of
                  None \<Rightarrow> (- 4, pid, [])
                | Some link \<Rightarrow>
                    let actual = c_str (take (SMALL_BUFFER - 1) link)
                    in if actual \<noteq> expected_exe then (- 5, pid, actual) else (0, pid, actual))"

definition monotonic_ns :: "(int \<times> int) option \<Rightarrow> u64 option" where
  "monotonic_ns c = map_option (\<lambda>(sec, nsec). of_int sec * 1000000000 + of_int nsec) c"

definition load_interval :: "control_env \<Rightarrow> string option \<Rightarrow> u64 option" where
  "load_interval e override =
     (let environment = (case override of Some t \<Rightarrow> t | None \<Rightarrow>
            (case var e ''VITA_CONTROL_MIN_INTERVAL_MS'' of Some t \<Rightarrow> t | None \<Rightarrow> ''500''))
      in case parse_unsigned environment of
           None \<Rightarrow> None
         | Some ms \<Rightarrow> if ms > 3600000 then None else Some ms)"

definition report_target_error :: "bool \<Rightarrow> int \<Rightarrow> string \<Rightarrow> string list" where
  "report_target_error machine result actual_exe =
     (if result = - 2 then [report machine ''status'' ''invalid_pidfile'']
      else if result = - 3 then [report machine ''status'' ''target_not_running'']
      else if result = - 5 then [report machine ''status'' ''target_executable_mismatch'',
        report machine ''actual_exe'' actual_exe]
      else [report machine ''status'' ''target_inspection_failed''])"

section \<open>The rate limit\<close>

text \<open>The time of the last signal, if the state file holds one that is not in the future.\<close>

definition previous_signal :: "control_env \<Rightarrow> string \<Rightarrow> u64 \<Rightarrow> u64 option" where
  "previous_signal e content now_ns =
     (let previous_text = take (PID_BUFFER - 1) content
      in if \<not> state_read_ok e \<or> previous_text = [] then None
         else case parse_unsigned (c_str previous_text) of
           None \<Rightarrow> None
         | Some previous_ns \<Rightarrow> if now_ns \<ge> previous_ns then Some previous_ns else None)"

definition retry_after_ms :: "u64 \<Rightarrow> u64 \<Rightarrow> u64" where
  "retry_after_ms interval_ms elapsed_ns = (interval_ms * 1000000 - elapsed_ns + 999999) div 1000000"

text \<open>Rewriting the state file: the new content, and whether it was written in full.\<close>

definition write_state :: "control_env \<Rightarrow> u64 \<Rightarrow> string \<Rightarrow> bool \<times> string" where
  "write_state e now_ns content =
     (let now_text = dec (unat now_ns)
      in if length now_text \<ge> PID_BUFFER then (False, content)
         else if \<not> truncate_ok e then (False, content)
         else if \<not> seek_ok e then (False, [])
         else let n = write_count e (length now_text) in (n = length now_text, take n now_text))"

definition update_rate_state ::
    "control_env \<Rightarrow> files \<Rightarrow> string \<Rightarrow> u64 \<Rightarrow> u64 \<Rightarrow> bool \<Rightarrow> int \<times> string list \<times> files" where
  "update_rate_state e fs state_path interval_ms now_ns machine =
     (if \<not> state_open_ok e then (- 1, [report machine ''status'' ''rate_state_unavailable''], fs)
      else let content = (case fs state_path of None \<Rightarrow> [] | Some t \<Rightarrow> t); fs = fs(state_path \<mapsto> content) in
        if \<not> lock_ok e then (- 1, [report machine ''status'' ''rate_state_unavailable''], fs)
        else case previous_signal e content now_ns of
          Some previous_ns \<Rightarrow>
            let elapsed_ns = now_ns - previous_ns in
            if elapsed_ns < interval_ms * 1000000
            then (- 1, [report machine ''status'' ''rate_limited'',
                   report machine ''retry_after_ms'' (dec (unat (retry_after_ms interval_ms elapsed_ns)))], fs)
            else (case write_state e now_ns content of (ok, content) \<Rightarrow>
                    if ok then (0, [], fs(state_path \<mapsto> content))
                    else (- 1, [report machine ''status'' ''rate_state_write_failed''], fs(state_path \<mapsto> content)))
        | None \<Rightarrow>
            (case write_state e now_ns content of (ok, content) \<Rightarrow>
               if ok then (0, [], fs(state_path \<mapsto> content))
               else (- 1, [report machine ''status'' ''rate_state_write_failed''], fs(state_path \<mapsto> content))))"

section \<open>The program\<close>

record control_args =
  action :: "string option"
  pidfile :: string
  expected_exe :: string
  state_path :: string
  interval_override :: "string option"
  machine :: bool

definition default_args :: "control_env \<Rightarrow> control_args" where
  "default_args e =
     \<lparr>action = None,
      pidfile = (case var e ''VITA_CONTROL_PIDFILE'' of Some t \<Rightarrow> t | None \<Rightarrow> ''/run/pstv-demo-cart.pid''),
      expected_exe = (case var e ''VITA_CONTROL_EXPECTED_EXE'' of Some t \<Rightarrow> t | None \<Rightarrow> ''/usr/local/bin/pstv-demo-cart''),
      state_path = (case var e ''VITA_CONTROL_STATE'' of Some t \<Rightarrow> t | None \<Rightarrow> ''/run/vita-control.next''),
      interval_override = None, machine = False\<rparr>"

text \<open>\<open>Inl\<close> is the exit status of an early return.\<close>

fun control_arguments :: "string list \<Rightarrow> control_args \<Rightarrow> int + control_args" where
  "control_arguments [] a = (if action a = None then Inl 2 else Inr a)"
| "control_arguments (t # rest) a =
     (if t = ''status'' \<or> t = ''next'' then
        (if action a \<noteq> None then Inl 2 else control_arguments rest (a\<lparr>action := Some t\<rparr>))
      else if t = ''--machine'' then control_arguments rest (a\<lparr>machine := True\<rparr>)
      else if t = ''--pidfile'' \<or> t = ''--expected-exe'' \<or> t = ''--state'' \<or> t = ''--min-interval-ms'' then
        (case rest of
           [] \<Rightarrow> Inl 2
         | v # rest \<Rightarrow>
             if t = ''--pidfile'' then control_arguments rest (a\<lparr>pidfile := v\<rparr>)
             else if t = ''--expected-exe'' then control_arguments rest (a\<lparr>expected_exe := v\<rparr>)
             else if t = ''--state'' then control_arguments rest (a\<lparr>state_path := v\<rparr>)
             else control_arguments rest (a\<lparr>interval_override := Some v\<rparr>))
      else if t = ''--help'' \<or> t = ''-h'' then Inl 0
      else Inl 2)"

text \<open>What an invocation does: exit status, printed lines, the process signalled if any, and the files.\<close>

record control_result =
  exit_status :: int
  printed :: "string list"
  signalled :: "int option"
  files_after :: files

definition status_action :: "control_env \<Rightarrow> control_args \<Rightarrow> int \<times> int \<times> string \<Rightarrow> files \<Rightarrow> control_result" where
  "status_action e a target fs =
     (case (load_interval e (interval_override a), target) of
        (None, _) \<Rightarrow> \<lparr>exit_status = 1, printed = [report (machine a) ''status'' ''invalid_interval''],
                     signalled = None, files_after = fs\<rparr>
      | (Some interval_ms, (result, pid, actual)) \<Rightarrow>
          let lines = [report (machine a) ''schema'' ''1'', report (machine a) ''action'' ''status'',
                report (machine a) ''pid'' (dec_int pid),
                report (machine a) ''running'' (if result = 0 then ''1'' else ''0'')] @
              (if actual \<noteq> [] then [report (machine a) ''exe'' actual] else []) @
              [report (machine a) ''expected_exe'' (expected_exe a), report (machine a) ''next_signal'' ''SIGUSR1'',
                report (machine a) ''min_interval_ms'' (dec (unat interval_ms))]
          in if result \<noteq> 0
             then \<lparr>exit_status = 1, printed = lines @ report_target_error (machine a) result actual,
                   signalled = None, files_after = fs\<rparr>
             else \<lparr>exit_status = 0, printed = lines @ [report (machine a) ''target_executable_match'' ''1''],
                   signalled = None, files_after = fs\<rparr>)"

definition next_action :: "control_env \<Rightarrow> control_args \<Rightarrow> int \<times> int \<times> string \<Rightarrow> files \<Rightarrow> control_result" where
  "next_action e a target fs =
     (case target of (result, pid, actual) \<Rightarrow>
        if result \<noteq> 0
        then \<lparr>exit_status = 1, printed = report_target_error (machine a) result actual, signalled = None, files_after = fs\<rparr>
        else case (load_interval e (interval_override a), monotonic_ns (clock e)) of
          (Some interval_ms, Some now_ns) \<Rightarrow>
            (case update_rate_state e fs (state_path a) interval_ms now_ns (machine a) of (r, lines, fs) \<Rightarrow>
               if r < 0 then \<lparr>exit_status = 1, printed = lines, signalled = None, files_after = fs\<rparr>
               else if \<not> signal_ok e pid
               then \<lparr>exit_status = 1, printed = lines @ [report (machine a) ''status'' ''signal_failed''],
                     signalled = None, files_after = fs\<rparr>
               else \<lparr>exit_status = 0, printed = lines @ [report (machine a) ''status'' ''triggered'',
                       report (machine a) ''pid'' (dec_int pid), report (machine a) ''signal'' ''SIGUSR1''],
                     signalled = Some pid, files_after = fs\<rparr>)
        | _ \<Rightarrow> \<lparr>exit_status = 1, printed = [report (machine a) ''status'' ''clock_or_interval_failed''],
                 signalled = None, files_after = fs\<rparr>)"

definition control_main :: "control_env \<Rightarrow> string list \<Rightarrow> files \<Rightarrow> control_result" where
  "control_main e args fs =
     (case control_arguments args (default_args e) of
        Inl status \<Rightarrow> \<lparr>exit_status = status, printed = [], signalled = None, files_after = fs\<rparr>
      | Inr a \<Rightarrow>
          let target = load_target e fs (pidfile a) (expected_exe a)
          in if action a = Some ''status'' then status_action e a target fs else next_action e a target fs)"

section \<open>Correctness\<close>

lemma dec_no_nul: "list_all (\<lambda>c. c \<noteq> CHR 0x00) (dec n)"
  using dec_digits [of n] by (rule list.pred_mono_strong) (auto simp: is_digit_def)

lemma c_str_dec [simp]: "c_str (dec n) = dec n"
  using takeWhile_all [OF dec_no_nul, of "[]" n] by (simp add: c_str_def)

lemma length_dec_64: "length (dec (unat (w :: u64))) \<le> 20"
  using unsigned_less [of w, where ?'a = nat] by (intro length_dec [of _ 19, simplified]) simp

lemma parse_unsigned_dec [simp]: "parse_unsigned (dec (unat w)) = Some w"
  using strtou_dec [of "unat w" 64 "[]"] unsigned_less [of w, where ?'a = nat] dec_not_Nil [of "unat w", symmetric]
  by (simp add: parse_unsigned_def)

lemma previous_signal_dec:
  "state_read_ok e \<Longrightarrow> previous_signal e (dec (unat p)) now = (if p \<le> now then Some p else None)"
  using length_dec_64 [of p] by (simp add: previous_signal_def Let_def)

text \<open>A state file that can be read and written.\<close>

definition state_io :: "control_env \<Rightarrow> bool" where
  "state_io e \<longleftrightarrow> state_read_ok e \<and> truncate_ok e \<and> seek_ok e \<and> (\<forall>n. write_count e n = n)"

lemma write_state_io: "state_io e \<Longrightarrow> write_state e now content = (True, dec (unat now))"
  using length_dec_64 [of now] by (simp add: write_state_def state_io_def Let_def)

lemma interval_unat: "ms \<le> 3600000 \<Longrightarrow> unat (ms * 1000000 :: u64) = unat ms * 1000000"
proof -
  assume "ms \<le> 3600000"
  then have "unat ms * 1000000 < 2 ^ 64" by (simp add: word_le_nat_alt)
  then show ?thesis using unat_mult_lem [of ms "1000000 :: u64"] by simp
qed

lemma elapsed_less:
  assumes "p \<le> now" "ms \<le> (3600000 :: u64)"
  shows "now - p < ms * 1000000 \<longleftrightarrow> unat now < unat p + unat ms * 1000000"
  using assms(1) unfolding word_less_nat_alt interval_unat [OF assms(2)] unat_diff [OF assms(1)] word_le_nat_alt by arith

text \<open>The decision on a state file that holds the time of the last signal.\<close>

lemma update_decides:
  assumes "state_io e" "state_open_ok e" "lock_ok e" "fs sp = Some (dec (unat p))" "ms \<le> 3600000"
  shows "update_rate_state e fs sp ms now m =
    (if p \<le> now \<and> unat now < unat p + unat ms * 1000000
     then (- 1, [report m ''status'' ''rate_limited'', report m ''retry_after_ms'' (dec (unat (retry_after_ms ms (now - p))))], fs)
     else (0, [], fs(sp \<mapsto> dec (unat now))))"
proof -
  have f: "fs(sp \<mapsto> dec (unat p)) = fs" using assms(4) by auto
  have r: "state_read_ok e" using assms(1) by (simp add: state_io_def)
  show ?thesis
    using assms elapsed_less [of p now ms] previous_signal_dec [OF r, of p now] write_state_io [OF assms(1)] f
    by (auto simp: update_rate_state_def)
qed

text \<open>Without a faulty state file an update either leaves the last time or stores its own.\<close>

lemma update_cases:
  assumes "state_io e" "ms \<le> 3600000" "update_rate_state e fs sp ms now m = (r, lines, fs')"
  shows "0 \<le> r \<Longrightarrow> fs' sp = Some (dec (unat now))"
    "0 \<le> r \<Longrightarrow> fs sp = Some (dec (unat p)) \<Longrightarrow> p \<le> now \<Longrightarrow> unat p + unat ms * 1000000 \<le> unat now"
    "r < 0 \<Longrightarrow> fs' sp = fs sp \<or> fs sp = None \<and> fs' sp = Some []"
proof -
  note u = assms(3)
  show "0 \<le> r \<Longrightarrow> fs' sp = Some (dec (unat now))" and "r < 0 \<Longrightarrow> fs' sp = fs sp \<or> fs sp = None \<and> fs' sp = Some []"
    using u write_state_io [OF assms(1)]
    by (auto simp: update_rate_state_def Let_def split: if_splits option.splits)
  assume c: "0 \<le> r" "fs sp = Some (dec (unat p))" "p \<le> now"
  then have "state_open_ok e" "lock_ok e" using u by (auto simp: update_rate_state_def Let_def split: if_splits)
  from update_decides [where fs = fs and sp = sp and p = p and now = now and m = m, OF assms(1) this c(2) assms(2)] u c(1,3)
  show "unat p + unat ms * 1000000 \<le> unat now" by (auto split: if_splits)
qed

lemma load_interval_le: "load_interval e override = Some ms \<Longrightarrow> ms \<le> 3600000"
  by (auto simp: load_interval_def Let_def split: option.splits if_splits)

text \<open>
  A session: invocations one after the other, each in its own environment and with its own files,
  except that the state file \<open>sp\<close> is the one the previous invocation left. The result is the time and
  the target of every signal.
\<close>

type_synonym invocation = "control_env \<times> string list \<times> files"

fun control_session :: "string \<Rightarrow> invocation list \<Rightarrow> string option \<Rightarrow> (u64 \<times> int) list" where
  "control_session sp [] content = []"
| "control_session sp ((e, args, fs) # rest) content =
     (let res = control_main e args (fs(sp := content))
      in (case (signalled res, monotonic_ns (clock e)) of (Some pid, Some now) \<Rightarrow> [(now, pid)] | _ \<Rightarrow> []) @
         control_session sp rest (files_after res sp))"

text \<open>Invocations that share the state file \<open>sp\<close>, with an interval of at least \<open>ms\<close>; the clock readings of a session.\<close>

definition disciplined :: "string \<Rightarrow> nat \<Rightarrow> invocation \<Rightarrow> bool" where
  "disciplined sp ms = (\<lambda>(e, args, fs). state_io e \<and>
     (case control_arguments args (default_args e) of
        Inl _ \<Rightarrow> True
      | Inr a \<Rightarrow> state_path a = sp \<and>
          (case load_interval e (interval_override a) of None \<Rightarrow> True | Some i \<Rightarrow> ms \<le> unat i)))"

definition readings :: "invocation list \<Rightarrow> nat list" where
  "readings invs = concat (map (\<lambda>(e, _). case monotonic_ns (clock e) of None \<Rightarrow> [] | Some t \<Rightarrow> [unat t]) invs)"

lemma readings_Cons:
  "readings ((e, rest) # invs) = (case monotonic_ns (clock e) of None \<Rightarrow> [] | Some t \<Rightarrow> [unat t]) @ readings invs"
  by (simp add: readings_def)

lemma next_cases:
  assumes "state_io e" "next_action e a target (fs(state_path a := content)) = res"
    and "\<And>i. load_interval e (interval_override a) = Some i \<Longrightarrow> ms \<le> unat i"
  shows "files_after res (state_path a) = content \<or> content = None \<and> files_after res (state_path a) = Some [] \<or>
    (\<exists>now. monotonic_ns (clock e) = Some now \<and> files_after res (state_path a) = Some (dec (unat now)))" (is ?kept)
    and "signalled res = Some pid \<Longrightarrow> \<exists>now. monotonic_ns (clock e) = Some now \<and>
      files_after res (state_path a) = Some (dec (unat now)) \<and>
      (\<forall>p. content = Some (dec (unat p)) \<longrightarrow> p \<le> now \<longrightarrow> unat p + ms * 1000000 \<le> unat now)"
proof -
  let ?fs = "fs(state_path a := content)"
  obtain r0 pid0 actual where t: "target = (r0, pid0, actual)" by (cases target)
  have "?kept \<and> (signalled res = Some pid \<longrightarrow> (\<exists>now. monotonic_ns (clock e) = Some now \<and>
      files_after res (state_path a) = Some (dec (unat now)) \<and>
      (\<forall>p. content = Some (dec (unat p)) \<longrightarrow> p \<le> now \<longrightarrow> unat p + ms * 1000000 \<le> unat now)))"
  proof (cases "r0 = 0 \<and> (\<exists>i now. load_interval e (interval_override a) = Some i \<and> monotonic_ns (clock e) = Some now)")
    case False
    then show ?thesis using assms(2) by (auto simp: next_action_def t split: option.splits if_splits)
  next
    case True
    then obtain i now where i: "r0 = 0" "load_interval e (interval_override a) = Some i" "monotonic_ns (clock e) = Some now" by blast
    obtain r lines fs' where u: "update_rate_state e ?fs (state_path a) i now (machine a) = (r, lines, fs')" by (metis prod_cases3)
    note le = load_interval_le [OF i(2)]
    note uc = update_cases [OF assms(1) le u]
    have res: "files_after res = fs'" "signalled res = Some pid \<Longrightarrow> 0 \<le> r"
      using assms(2) u i by (auto simp: next_action_def t split: if_splits)
    have "unat p + ms * 1000000 \<le> unat now" if "0 \<le> r" "content = Some (dec (unat p))" "p \<le> now" for p
      using uc(2) [of p] that assms(3) [OF i(2)] by (simp add: order_trans [rotated])
    moreover have "fs' (state_path a) = content \<or> content = None \<and> fs' (state_path a) = Some [] \<or> fs' (state_path a) = Some (dec (unat now))"
      using uc(1,3) by (cases "r < 0") auto
    ultimately show ?thesis using res uc(1) i(3) by auto
  qed
  then show ?kept "signalled res = Some pid \<Longrightarrow> \<exists>now. monotonic_ns (clock e) = Some now \<and>
      files_after res (state_path a) = Some (dec (unat now)) \<and>
      (\<forall>p. content = Some (dec (unat p)) \<longrightarrow> p \<le> now \<longrightarrow> unat p + ms * 1000000 \<le> unat now)" by blast+
qed

lemma main_cases:
  assumes "disciplined sp ms (e, args, fs)" "control_main e args (fs(sp := content)) = res"
  shows "files_after res sp = content \<or> content = None \<and> files_after res sp = Some [] \<or>
    (\<exists>now. monotonic_ns (clock e) = Some now \<and> files_after res sp = Some (dec (unat now)))" (is ?kept)
    and "signalled res = Some pid \<Longrightarrow> \<exists>now. monotonic_ns (clock e) = Some now \<and> files_after res sp = Some (dec (unat now)) \<and>
      (\<forall>p. content = Some (dec (unat p)) \<longrightarrow> p \<le> now \<longrightarrow> unat p + ms * 1000000 \<le> unat now)"
proof -
  consider "files_after res sp = content" "signalled res = None"
    | a where "next_action e a (load_target e (fs(sp := content)) (pidfile a) (expected_exe a)) (fs(state_path a := content)) = res"
        "state_path a = sp" "\<And>i. load_interval e (interval_override a) = Some i \<Longrightarrow> ms \<le> unat i"
  proof (cases "control_arguments args (default_args e)")
    case (Inl status)
    then show ?thesis using that(1) assms(2) by (auto simp: control_main_def)
  next
    case (Inr a)
    show ?thesis
    proof (cases "action a = Some ''status''")
      case True
      then show ?thesis using that(1) assms(2) Inr
        by (auto simp: control_main_def status_action_def Let_def split: option.splits prod.splits if_splits)
    next
      case False
      then show ?thesis using that(2) [of a] assms Inr
        by (auto simp: control_main_def disciplined_def Let_def split: option.splits)
    qed
  qed
  note c = this
  have io: "state_io e" using assms(1) by (simp add: disciplined_def)
  show ?kept by (cases rule: c) (simp, metis next_cases(1) [OF io])
  show "\<exists>now. monotonic_ns (clock e) = Some now \<and> files_after res sp = Some (dec (unat now)) \<and>
      (\<forall>p. content = Some (dec (unat p)) \<longrightarrow> p \<le> now \<longrightarrow> unat p + ms * 1000000 \<le> unat now)" if "signalled res = Some pid"
    by (cases rule: c) (use that in simp, metis next_cases(2) [OF io _ _ that])
qed

definition spaced :: "nat \<Rightarrow> u64 \<times> int \<Rightarrow> u64 \<times> int \<Rightarrow> bool" where
  "spaced ms s1 s2 \<longleftrightarrow> unat (fst s1) + ms * 1000000 \<le> unat (fst s2)"

lemma session_after:
  assumes "\<forall>inv\<in>set invs. disciplined sp ms inv" "sorted (readings invs)"
    and "content = Some (dec (unat (p :: u64)))" "unat t \<le> unat p" "\<forall>x\<in>set (readings invs). unat p \<le> x"
  shows "successively (spaced ms) ((t, pid) # control_session sp invs content)"
  using assms
proof (induction invs arbitrary: content p t pid)
  case (Cons inv invs)
  obtain e args fs where inv: "inv = (e, args, fs)" by (cases inv)
  define res where "res = control_main e args (fs(sp := content))"
  have d: "disciplined sp ms (e, args, fs)" and ds: "\<forall>inv\<in>set invs. disciplined sp ms inv" using Cons.prems(1) inv by auto
  have so: "sorted (readings invs)" and rs: "\<forall>x\<in>set (readings invs). unat p \<le> x"
    using Cons.prems(2,5) by (auto simp: inv readings_Cons sorted_append)
  note IH = Cons.IH [OF ds so]
  have now: "unat p \<le> unat now" "\<forall>x\<in>set (readings invs). unat now \<le> x" if "monotonic_ns (clock e) = Some now" for now
    using Cons.prems(2,5) that by (auto simp: inv readings_Cons)
  note m = main_cases [OF d, of content, folded res_def, OF refl]
  show ?case
  proof (cases "signalled res")
    case None
    have ses: "control_session sp (inv # invs) content = control_session sp invs (files_after res sp)"
      using None by (simp add: inv Let_def res_def)
    from m(1) consider "files_after res sp = content"
      | n where "monotonic_ns (clock e) = Some n" "files_after res sp = Some (dec (unat n))" using Cons.prems(3) by auto
    then show ?thesis
    proof cases
      case 1
      then show ?thesis unfolding ses using IH [OF _ Cons.prems(4) rs] Cons.prems(3) by simp
    next
      case 2
      with now [OF 2(1)] Cons.prems(4) show ?thesis unfolding ses by (intro IH [OF 2(2)]) auto
    qed
  next
    case (Some pid')
    from m(2) [OF this] obtain n where n: "monotonic_ns (clock e) = Some n" "files_after res sp = Some (dec (unat n))"
      "unat p + ms * 1000000 \<le> unat n" using Cons.prems(3) now(1) by (auto simp: word_le_nat_alt)
    have "control_session sp (inv # invs) content = (n, pid') # control_session sp invs (files_after res sp)"
      using Some n(1) by (simp add: inv Let_def res_def)
    moreover have "successively (spaced ms) ((n, pid') # control_session sp invs (files_after res sp))"
      by (rule IH [OF n(2)]) (use now(2) [OF n(1)] in auto)
    moreover have "spaced ms (t, pid) (n, pid')" using n(3) Cons.prems(4) by (simp add: spaced_def)
    ultimately show ?thesis by simp
  qed
qed simp

lemma session_spaced:
  assumes "\<forall>inv\<in>set invs. disciplined sp ms inv" "sorted (readings invs)"
  shows "successively (spaced ms) (control_session sp invs content)"
  using assms
proof (induction invs arbitrary: content)
  case (Cons inv invs)
  obtain e args fs where inv: "inv = (e, args, fs)" by (cases inv)
  define res where "res = control_main e args (fs(sp := content))"
  have d: "disciplined sp ms (e, args, fs)" and ds: "\<forall>inv\<in>set invs. disciplined sp ms inv" using Cons.prems(1) inv by auto
  have so: "sorted (readings invs)" using Cons.prems(2) by (auto simp: inv readings_Cons sorted_append)
  show ?case
  proof (cases "signalled res")
    case None
    then have "control_session sp (inv # invs) content = control_session sp invs (files_after res sp)"
      by (simp add: inv Let_def res_def)
    then show ?thesis using Cons.IH [OF ds so] by simp
  next
    case (Some pid')
    from main_cases(2) [OF d, of content, folded res_def, OF refl this]
    obtain n where n: "monotonic_ns (clock e) = Some n" "files_after res sp = Some (dec (unat n))" by blast
    have "control_session sp (inv # invs) content = (n, pid') # control_session sp invs (files_after res sp)"
      using Some n(1) by (simp add: inv Let_def res_def)
    moreover have "\<forall>x\<in>set (readings invs). unat n \<le> x" using Cons.prems(2) n(1) by (simp add: inv readings_Cons)
    ultimately show ?thesis using session_after [OF ds so n(2), of n pid'] by simp
  qed
qed simp

lemma round_up:
  fixes q d m n p :: nat
  assumes "q * 1000000 \<le> d + 999999" "d + 999999 < (q + 1) * 1000000" "n + d = p + m * 1000000" "1 \<le> d" "d \<le> m * 1000000"
  shows "p + m * 1000000 \<le> n + q * 1000000" "n + (q - 1) * 1000000 < p + m * 1000000" "1 \<le> q" "q \<le> m"
proof -
  show q: "1 \<le> q" using assms by (cases q) simp_all
  have "q * 1000000 < (m + 1) * 1000000" using assms by simp
  then show "q \<le> m" using mult_less_cancel2 [of q 1000000 "m + 1"] by simp
  show "p + m * 1000000 \<le> n + q * 1000000" using assms by simp
  obtain k where "q = Suc k" using q by (cases q) auto
  then show "n + (q - 1) * 1000000 < p + m * 1000000" using assms by simp
qed

lemma retry_exact:
  assumes "p \<le> now" "ms \<le> 3600000" "unat now < unat p + unat ms * 1000000"
  shows "unat p + unat ms * 1000000 \<le> unat now + unat (retry_after_ms ms (now - p)) * 1000000"
    "unat now + (unat (retry_after_ms ms (now - p)) - 1) * 1000000 < unat p + unat ms * 1000000"
    "1 \<le> unat (retry_after_ms ms (now - p))" "unat (retry_after_ms ms (now - p)) \<le> unat ms"
proof -
  have le: "unat p \<le> unat now" "unat ms \<le> 3600000" using assms(1,2) by (simp_all add: word_le_nat_alt)
  let ?d = "unat ms * 1000000 - (unat now - unat p)"
  have "now - p \<le> ms * 1000000"
    using assms(3) le unfolding word_le_nat_alt interval_unat [OF assms(2)] unat_diff [OF assms(1)] by arith
  then have u: "unat (ms * 1000000 - (now - p)) = ?d"
    by (simp only: unat_diff interval_unat [OF assms(2)] unat_diff [OF assms(1)])
  have "?d + 999999 < 2 ^ 64" using le(2) by simp
  then have "unat (ms * 1000000 - (now - p) + 999999) = ?d + 999999"
    using unat_sum [of "ms * 1000000 - (now - p)" 999999] u by simp
  then have r: "unat (retry_after_ms ms (now - p)) = (?d + 999999) div 1000000"
    by (simp add: retry_after_ms_def unat_div)
  have d: "unat now + ?d = unat p + unat ms * 1000000" "1 \<le> ?d" "?d \<le> unat ms * 1000000" using le assms(3) by linarith+
  have r1: "unat (retry_after_ms ms (now - p)) * 1000000 \<le> ?d + 999999" unfolding r by (rule div_times_less_eq_dividend)
  have r2: "?d + 999999 < (unat (retry_after_ms ms (now - p)) + 1) * 1000000"
    using dividend_less_div_times [of 1000000 "?d + 999999"] by (simp add: r)
  from round_up [OF r1 r2 d] show
    "unat p + unat ms * 1000000 \<le> unat now + unat (retry_after_ms ms (now - p)) * 1000000"
    "unat now + (unat (retry_after_ms ms (now - p)) - 1) * 1000000 < unat p + unat ms * 1000000"
    "1 \<le> unat (retry_after_ms ms (now - p))" "unat (retry_after_ms ms (now - p)) \<le> unat ms" .
qed

lemma arguments_action:
  assumes "control_arguments args a = Inr b" "action a \<in> {None, Some ''status'', Some ''next''}"
  shows "action b \<in> {Some ''status'', Some ''next''}"
  using assms
proof (induction args a rule: control_arguments.induct)
  case (2 t rest a)
  show ?case
  proof (cases "t = ''status'' \<or> t = ''next''")
    case True
    with "2.prems"(1) have "action a = None" "control_arguments rest (a\<lparr>action := Some t\<rparr>) = Inr b"
      by (simp_all only: control_arguments.simps if_True split: if_splits) simp_all
    with "2.IH"(1) [OF True] True show ?thesis by auto
  next
    case t: False
    show ?thesis
    proof (cases "t = ''--machine''")
      case True
      with "2.prems" "2.IH"(2) [OF t True] show ?thesis by simp
    next
      case m: False
      show ?thesis
      proof (cases "t = ''--pidfile'' \<or> t = ''--expected-exe'' \<or> t = ''--state'' \<or> t = ''--min-interval-ms''")
        case True
        obtain v rest' where v: "rest = v # rest'" using "2.prems"(1) t m True by (cases rest) auto
        note IH = "2.IH"(3-6) [OF t m True v]
        consider "t = ''--pidfile''" | "t = ''--expected-exe''" | "t = ''--state''" | "t = ''--min-interval-ms''" using True by blast
        then show ?thesis using "2.prems" IH unfolding v by cases simp_all
      qed (use "2.prems" t m in \<open>simp split: if_splits\<close>)
    qed
  qed
qed (auto split: if_splits)

lemma signalled_status: "signalled (status_action e a target fs) = None"
  by (cases target) (simp add: status_action_def Let_def split: option.split)

lemma signalled_next:
  assumes "signalled (next_action e a target fs) = Some pid"
  obtains actual where "target = (0, pid, actual)" "exit_status (next_action e a target fs) = 0"
  using assms by (cases target) (auto simp: next_action_def split: option.splits if_splits prod.splits)

lemma load_target_ok:
  assumes "load_target e fs pf exe = (0, pid, actual)"
  obtains t link where "read_small_file fs pf PID_BUFFER = Some t" "parse_unsigned t = Some (of_int pid)"
    "0 < pid" "pid \<le> 2147483647" "probe e pid = 0 \<or> probe e pid = EPERM"
    "exe_link e (''/proc/'' @ dec_int pid @ ''/exe'') = Some link" "c_str (take (SMALL_BUFFER - 1) link) = exe"
proof -
  obtain t where t: "read_small_file fs pf PID_BUFFER = Some t" using assms by (auto simp: load_target_def split: option.splits)
  obtain v where v: "parse_unsigned t = Some v" using assms t by (auto simp: load_target_def split: option.splits)
  have b: "v \<noteq> 0" "v \<le> 2147483647" using assms t v by (auto simp: load_target_def split: if_splits)
  have p: "pid = uint v" using assms t v b by (auto simp: load_target_def Let_def split: if_splits option.splits)
  have "0 < uint v" "uint v \<le> 2147483647" using b by (simp_all add: word_le_def uint_0_iff order_less_le)
  with that [OF t] assms t v b p show thesis
    by (auto simp: load_target_def Let_def not_less split: if_splits option.splits)
qed

section \<open>Theorems\<close>


definition calm_env :: "int \<Rightarrow> control_env" where
  "calm_env sec = \<lparr>var = (\<lambda>_. None), probe = (\<lambda>_. 0), exe_link = (\<lambda>_. Some ''/usr/local/bin/pstv-demo-cart''),
     clock = Some (sec, 0), state_open_ok = True, lock_ok = True, state_read_ok = True, truncate_ok = True,
     seek_ok = True, write_count = (\<lambda>n. n), signal_ok = (\<lambda>_. True)\<rparr>"

abbreviation (input) sample_files :: files where
  "sample_files \<equiv> (\<lambda>path. if path = ''/run/pstv-demo-cart.pid'' then Some ''42'' else None)"

abbreviation (input) sample_session :: "invocation list" where
  "sample_session \<equiv> [(calm_env 100, [''next''], sample_files), (calm_env 101, [''next''], sample_files)]"

lemma dec_samples: "dec 42 = ''42''" "dec 500 = ''500''"
  by (simp_all add: dec.simps digit_def char_of_def bit_0)

lemma parse_samples: "parse_unsigned ''42'' = Some 42" "parse_unsigned ''500'' = Some 500"
  using parse_unsigned_dec [of 42] parse_unsigned_dec [of 500] by (simp_all add: dec_samples)

lemma sample_interval: "load_interval (calm_env sec) None = Some 500"
  by (simp add: load_interval_def calm_env_def parse_samples)

lemma sample_target:
  "load_target (calm_env sec) (sample_files(''/run/vita-control.next'' := c)) ''/run/pstv-demo-cart.pid'' ''/usr/local/bin/pstv-demo-cart''
     = (0, 42, ''/usr/local/bin/pstv-demo-cart'')"
  by (simp add: load_target_def read_small_file_def calm_env_def is_trailing_def c_str_def parse_samples Let_def)

lemma sample_invocation:
  assumes "update_rate_state (calm_env sec) (sample_files(''/run/vita-control.next'' := c)) ''/run/vita-control.next'' 500
     (of_int sec * 1000000000) False = (0, [], fs)"
  shows "signalled (control_main (calm_env sec) [''next''] (sample_files(''/run/vita-control.next'' := c))) = Some 42"
    "files_after (control_main (calm_env sec) [''next''] (sample_files(''/run/vita-control.next'' := c))) = fs"
proof -
  have d: "default_args (calm_env sec) = \<lparr>action = None, pidfile = ''/run/pstv-demo-cart.pid'',
     expected_exe = ''/usr/local/bin/pstv-demo-cart'', state_path = ''/run/vita-control.next'', interval_override = None, machine = False\<rparr>"
    by (simp add: default_args_def calm_env_def)
  have m: "monotonic_ns (clock (calm_env sec)) = Some (of_int sec * 1000000000)" "signal_ok (calm_env sec) 42"
    by (simp_all add: monotonic_ns_def calm_env_def)
  show "signalled (control_main (calm_env sec) [''next''] (sample_files(''/run/vita-control.next'' := c))) = Some 42"
    "files_after (control_main (calm_env sec) [''next''] (sample_files(''/run/vita-control.next'' := c))) = fs"
    unfolding control_main_def d using sample_target [of sec c] sample_interval [of sec] m assms
    by (simp_all add: next_action_def)
qed

lemma sample_io: "state_io (calm_env sec)" "state_open_ok (calm_env sec)" "lock_ok (calm_env sec)"
  by (simp_all add: state_io_def calm_env_def)


text \<open>
  Claim C27. The state file remembers the last signal exactly, and the retry hint is exact: if it holds
  the time \<open>p\<close> printed by an earlier update, an update at \<open>now\<close> with interval \<open>ms\<close> is refused exactly
  when \<open>now\<close> is not before \<open>p\<close> and less than the interval after it, and leaves the file alone;
  otherwise it stores \<open>now\<close>. In a refusal the printed number of milliseconds is the smallest after
  which the interval has passed. (An update whose clock reading lies before \<open>p\<close>, taken before another
  process got the lock, is therefore never limited.)
\<close>

theorem rate_limit_exact:
  assumes "state_io e" "state_open_ok e" "lock_ok e" "fs sp = Some (dec (unat p))" "ms \<le> 3600000"
  shows "(if p \<le> now \<and> unat now < unat p + unat ms * 1000000
     then \<exists>retry. update_rate_state e fs sp ms now m =
         (- 1, [report m ''status'' ''rate_limited'', report m ''retry_after_ms'' (dec retry)], fs) \<and>
       unat p + unat ms * 1000000 \<le> unat now + retry * 1000000 \<and> retry \<le> unat ms \<and>
       (\<forall>k < retry. unat now + k * 1000000 < unat p + unat ms * 1000000)
     else update_rate_state e fs sp ms now m = (0, [], fs(sp \<mapsto> dec (unat now))))"
proof -
  note ud = update_decides [where fs = fs and sp = sp and p = p and now = now and m = m, OF assms]
  show ?thesis
  proof (cases "p \<le> now \<and> unat now < unat p + unat ms * 1000000")
    case True
    then have c: "p \<le> now" "unat now < unat p + unat ms * 1000000" by simp_all
    note r = retry_exact [OF c(1) assms(5) c(2)]
    let ?r = "unat (retry_after_ms ms (now - p))"
    have "unat now + k * 1000000 < unat p + unat ms * 1000000" if "k < ?r" for k
    proof -
      have "k * 1000000 \<le> (?r - 1) * 1000000" using that by simp
      then show ?thesis using r(2) by linarith
    qed
    with r(1,4) True ud show ?thesis by auto
  qed (use ud in auto)
qed

theorem rate_limit_exact_witness:
  "\<exists>retry. update_rate_state (calm_env 1) [''s'' \<mapsto> dec (unat (1000000000 :: u64))] ''s'' 500 (1000000001 :: u64) True =
     (- 1, [report True ''status'' ''rate_limited'', report True ''retry_after_ms'' (dec retry)],
      [''s'' \<mapsto> dec (unat (1000000000 :: u64))]) \<and> retry \<le> 500"
  using rate_limit_exact [where e = "calm_env 1" and fs = "[''s'' \<mapsto> dec (unat (1000000000 :: u64))]" and sp = "''s''"
      and p = 1000000000 and now = 1000000001 and ms = 500 and m = True] sample_io by auto

text \<open>
  Claim C28. A signal is sent only by the action \<^verbatim>\<open>next\<close>, only to the process named by the PID file (a
  positive 32-bit number), and only when that process exists and the executable behind it is the
  expected one; the invocation then exits with status 0.
\<close>

theorem signal_reaches_verified_demo:
  assumes "signalled (control_main e args fs) = Some pid"
  shows "exit_status (control_main e args fs) = 0 \<and> (\<exists>a t link. control_arguments args (default_args e) = Inr a \<and>
    action a = Some ''next'' \<and> read_small_file fs (pidfile a) PID_BUFFER = Some t \<and> parse_unsigned t = Some (of_int pid) \<and>
    0 < pid \<and> pid \<le> 2147483647 \<and> (probe e pid = 0 \<or> probe e pid = EPERM) \<and>
    exe_link e (''/proc/'' @ dec_int pid @ ''/exe'') = Some link \<and> c_str (take (SMALL_BUFFER - 1) link) = expected_exe a)"
proof -
  obtain a where a: "control_arguments args (default_args e) = Inr a"
    using assms by (cases "control_arguments args (default_args e)") (simp_all add: control_main_def)
  let ?t = "load_target e fs (pidfile a) (expected_exe a)"
  have n: "action a \<noteq> Some ''status''" using assms a signalled_status [of e a ?t fs] by (auto simp: control_main_def Let_def)
  with arguments_action [OF a] have "action a = Some ''next''" by (simp add: default_args_def)
  moreover have m: "control_main e args fs = next_action e a ?t fs" using a n by (simp add: control_main_def)
  obtain actual where t: "?t = (0, pid, actual)" "exit_status (next_action e a ?t fs) = 0"
    by (rule signalled_next [OF assms [unfolded m]]) blast
  from load_target_ok [OF t(1)] obtain tx link where "read_small_file fs (pidfile a) PID_BUFFER = Some tx"
    "parse_unsigned tx = Some (of_int pid)" "0 < pid" "pid \<le> 2147483647" "probe e pid = 0 \<or> probe e pid = EPERM"
    "exe_link e (''/proc/'' @ dec_int pid @ ''/exe'') = Some link" "c_str (take (SMALL_BUFFER - 1) link) = expected_exe a"
    by blast
  ultimately show ?thesis using a m t(2) by auto
qed

theorem signal_reaches_verified_demo_witness:
  "exit_status (control_main (calm_env 100) [''next''] (sample_files(''/run/vita-control.next'' := None))) = 0"
proof -
  have "update_rate_state (calm_env 100) (sample_files(''/run/vita-control.next'' := None)) ''/run/vita-control.next'' 500
      (of_int 100 * 1000000000) False = (0, [], sample_files(''/run/vita-control.next'' := Some (dec (unat (100000000000 :: u64)))))"
    using sample_io [of 100] write_state_io [OF sample_io(1), of 100 "100000000000" "[]"]
    by (simp add: update_rate_state_def previous_signal_def Let_def)
  from signal_reaches_verified_demo [OF sample_invocation(1) [OF this]] show ?thesis by blast
qed

end
