(* ===== verification/Inputwatch.thy ===== *)
theory Inputwatch
  imports Input_Poll
begin

text \<open>
  The input watcher (\<^verbatim>\<open>toolkit/share/vita-inputwatch.c\<close>): it finds the event device with a given
  physical id in sysfs, prints and counts its events for a while, and reports why it stopped. Files
  are a map from paths to contents; the clock, \<^verbatim>\<open>poll\<close> and \<^verbatim>\<open>read\<close> are parameters on an arbitrary
  world. The loop takes fuel; \<open>None\<close> is no fuel or a signed overflow.
\<close>

abbreviation (input) PATH_SIZE :: nat where "PATH_SIZE \<equiv> 512"
abbreviation (input) TEXT_SIZE :: nat where "TEXT_SIZE \<equiv> 256"

record input_device =
  dev_number :: nat
  dev_name :: string
  dev_phys :: string
  dev_path :: string

record counts =
  events_seen :: u32
  key_presses :: u32
  key_releases :: u32
  key_repeats :: u32
  abs_events :: u32
  syn_reports :: u32

definition zero_counts :: counts where
  "zero_counts = \<lparr>events_seen = 0, key_presses = 0, key_releases = 0, key_repeats = 0, abs_events = 0, syn_reports = 0\<rparr>"

section \<open>Finding the device\<close>

definition path_join :: "nat \<Rightarrow> string \<Rightarrow> string \<Rightarrow> string option" where
  "path_join cap root suffix = (if length (root @ suffix) < cap then Some (root @ suffix) else None)"

definition read_text :: "(string \<Rightarrow> string option) \<Rightarrow> string \<Rightarrow> nat \<Rightarrow> string option" where
  "read_text fs path cap =
     (if cap = 0 then None
      else case fs path of
        None \<Rightarrow> None
      | Some content \<Rightarrow>
          let out = rev (dropWhile is_eol (rev (take (cap - 1) content)))
          in if out = [] then None else Some (c_str out))"

definition parse_positive :: "string \<Rightarrow> u32 option" where
  "parse_positive t =
     (if t = [] then None
      else case strtou 32 t of (parsed, erange, rest) \<Rightarrow>
        if erange \<or> rest \<noteq> [] \<or> parsed > 4294967295 then None else Some (of_nat parsed))"

text \<open>The loop over the device numbers; \<open>Inl\<close> is a return, \<open>Inr\<close> means that the next one is tried.\<close>

definition try_device :: "(string \<Rightarrow> bool) \<Rightarrow> (string \<Rightarrow> string option) \<Rightarrow> string \<Rightarrow> string \<Rightarrow> string \<Rightarrow> nat \<Rightarrow>
    input_device option + unit" where
  "try_device exists fs sysroot devroot wanted num =
     (case path_join PATH_SIZE sysroot (''/class/input/event'' @ dec num) of
        None \<Rightarrow> Inl None
      | Some sys_event \<Rightarrow>
          if \<not> exists sys_event then Inr ()
          else case path_join PATH_SIZE sys_event ''/device/phys'' of
            None \<Rightarrow> Inr ()
          | Some phys_path \<Rightarrow>
              (case read_text fs phys_path TEXT_SIZE of
                 None \<Rightarrow> Inr ()
               | Some phys \<Rightarrow>
                   if phys \<noteq> wanted then Inr ()
                   else case path_join PATH_SIZE sys_event ''/device/name'' of
                     None \<Rightarrow> Inl None
                   | Some name_path \<Rightarrow>
                       Inl (Some \<lparr>dev_number = num,
                         dev_name = (case read_text fs name_path TEXT_SIZE of None \<Rightarrow> ''UNKNOWN'' | Some n \<Rightarrow> n),
                         dev_phys = phys,
                         dev_path = take (PATH_SIZE - 1) (devroot @ ''/input/event'' @ dec num)\<rparr>)))"

fun find_from :: "(string \<Rightarrow> bool) \<Rightarrow> (string \<Rightarrow> string option) \<Rightarrow> string \<Rightarrow> string \<Rightarrow> string \<Rightarrow> nat list \<Rightarrow> input_device option" where
  "find_from exists fs sysroot devroot wanted [] = None"
| "find_from exists fs sysroot devroot wanted (n # ns) =
     (case try_device exists fs sysroot devroot wanted n of
        Inl r \<Rightarrow> r
      | Inr _ \<Rightarrow> find_from exists fs sysroot devroot wanted ns)"

definition find_device :: "(string \<Rightarrow> bool) \<Rightarrow> (string \<Rightarrow> string option) \<Rightarrow> string \<Rightarrow> string \<Rightarrow> string \<Rightarrow> input_device option" where
  "find_device exists fs sysroot devroot wanted = find_from exists fs sysroot devroot wanted [0..<128]"

section \<open>Arguments\<close>

record watch_options =
  wo_phys :: string
  duration_ms :: u32
  max_events :: u32
  wo_machine :: bool

definition default_watch_options :: watch_options where
  "default_watch_options = \<lparr>wo_phys = ''vita_syscon_buttons'', duration_ms = 1000, max_events = 0, wo_machine = False\<rparr>"

fun watch_arguments :: "string list \<Rightarrow> watch_options \<Rightarrow> int + watch_options" where
  "watch_arguments [] o' = Inr o'"
| "watch_arguments (a # rest) o' =
     (if a = ''--machine'' then watch_arguments rest (o'\<lparr>wo_machine := True\<rparr>)
      else case rest of
        v # rest' \<Rightarrow>
          if a = ''--phys'' then watch_arguments rest' (o'\<lparr>wo_phys := v\<rparr>)
          else if a = ''--duration-ms'' then
            (case parse_positive v of None \<Rightarrow> Inl 2 | Some n \<Rightarrow> watch_arguments rest' (o'\<lparr>duration_ms := n\<rparr>))
          else if a = ''--max-events'' then
            (case parse_positive v of None \<Rightarrow> Inl 2 | Some n \<Rightarrow> watch_arguments rest' (o'\<lparr>max_events := n\<rparr>))
          else Inl (if a = ''--help'' \<or> a = ''-h'' then 0 else 2)
      | [] \<Rightarrow> Inl (if a = ''--help'' \<or> a = ''-h'' then 0 else 2))"

section \<open>The watch loop\<close>

definition elapsed_ms :: "int \<times> int \<Rightarrow> (int \<times> int) option \<Rightarrow> int" where
  "elapsed_ms start now =
     (case now of
        None \<Rightarrow> 0
      | Some (sec, nsec) \<Rightarrow>
          signed_take_bit 31 ((sec - fst start) * 1000 + (nsec - snd start) sdiv 1000000))"

definition count_event :: "input_event \<Rightarrow> counts \<Rightarrow> counts" where
  "count_event ev c =
     (let c = c\<lparr>events_seen := events_seen c + 1\<rparr> in
      if ev_type ev = EV_KEY then
        (if ev_value ev = 1 then c\<lparr>key_presses := key_presses c + 1\<rparr>
         else if ev_value ev = 0 then c\<lparr>key_releases := key_releases c + 1\<rparr>
         else if ev_value ev = 2 then c\<lparr>key_repeats := key_repeats c + 1\<rparr>
         else c)
      else if ev_type ev = EV_ABS then c\<lparr>abs_events := abs_events c + 1\<rparr>
      else if ev_type ev = EV_SYN \<and> ev_code ev = SYN_REPORT then c\<lparr>syn_reports := syn_reports c + 1\<rparr>
      else c)"

datatype poll_answer = PollErrno int | PollTimeout | PollReady bool bool
datatype watch_read = WBytes "u8 list" | WErrno int

text \<open>\<open>PollReady readable broken\<close>: POLLIN, and any of POLLERR, POLLHUP, POLLNVAL.\<close>

record 'w watch_os =
  wk_clock :: "'w \<Rightarrow> (int \<times> int) option \<times> 'w"
  wk_poll :: "int \<Rightarrow> 'w \<Rightarrow> poll_answer \<times> 'w"
  wk_read :: "nat \<Rightarrow> 'w \<Rightarrow> watch_read \<times> 'w"

text \<open>The state of the loop: the bytes of an incomplete event, the counters, and the events printed so far.\<close>

record watch_state =
  pending_bytes :: "u8 list"
  tally :: counts
  seen :: "input_event list"

definition take_pending :: "watch_state \<Rightarrow> watch_state" where
  "take_pending s =
     (if length (pending_bytes s) = 16
      then let ev = decode_event (pending_bytes s)
           in s\<lparr>pending_bytes := [], tally := count_event ev (tally s), seen := seen s @ [ev]\<rparr>
      else s)"

text \<open>
  One read and one round of the loop: \<open>Some status\<close> is a \<^verbatim>\<open>break\<close> with that status, \<open>None\<close> goes on.
  The descriptor is non-blocking, so a read may find nothing (EAGAIN, the same number as EWOULDBLOCK).
\<close>

definition watch_read_once :: "'w watch_os \<Rightarrow> watch_state \<Rightarrow> 'w \<Rightarrow> int option \<times> watch_state \<times> 'w" where
  "watch_read_once os s w =
     (case wk_read os (16 - length (pending_bytes s)) w of
        (WErrno e, w) \<Rightarrow> (if e = EAGAIN then None else Some 1, s, w)
      | (WBytes bs, w) \<Rightarrow>
          if bs = [] then (Some (if pending_bytes s = [] then 0 else 1), s, w)
          else (None, take_pending (s\<lparr>pending_bytes := pending_bytes s @ bs\<rparr>), w))"

definition watch_round :: "'w watch_os \<Rightarrow> watch_options \<Rightarrow> int \<times> int \<Rightarrow> watch_state \<Rightarrow> 'w \<Rightarrow> (int option \<times> watch_state \<times> 'w) option" where
  "watch_round os o' started s w =
     (case wk_clock os w of (now, w) \<Rightarrow> do {
        remaining \<leftarrow> i32 (sint (duration_ms o') - elapsed_ms started now);
        Some (if max_events o' > 0 \<and> events_seen (tally s) \<ge> max_events o' then (Some 0, s, w)
          else if remaining \<le> 0 then (Some 1, s, w)
          else case wk_poll os remaining w of
            (PollErrno e, w) \<Rightarrow> (if e = EINTR then None else Some 1, s, w)
          | (PollTimeout, w) \<Rightarrow> (Some 1, s, w)
          | (PollReady readable broken, w) \<Rightarrow>
              if broken \<and> \<not> readable then (Some 1, s, w) else watch_read_once os s w)
      })"

fun watch :: "nat \<Rightarrow> 'w watch_os \<Rightarrow> watch_options \<Rightarrow> int \<times> int \<Rightarrow> watch_state \<Rightarrow> 'w \<Rightarrow> (int \<times> watch_state \<times> 'w) option" where
  "watch 0 os o' started s w = None"
| "watch (Suc fuel) os o' started s w = do {
     (stop, s, w) \<leftarrow> watch_round os o' started s w;
     case stop of Some status \<Rightarrow> Some (status, s, w) | None \<Rightarrow> watch fuel os o' started s w
   }"

text \<open>The lines printed for an event; \<open>index\<close> is its number, counted from 1.\<close>

definition print_event :: "nat \<Rightarrow> input_event \<Rightarrow> bool \<Rightarrow> string list" where
  "print_event index ev machine =
     (let i = dec index; t = dec (unat (ev_type ev)); c = dec (unat (ev_code ev)); v = dec_int (ev_value ev) in
      if machine
      then [''event_'' @ i @ ''_type='' @ t, ''event_'' @ i @ ''_code='' @ c, ''event_'' @ i @ ''_value='' @ v]
      else [''event '' @ i @ '': type='' @ t @ '' code='' @ c @ '' value='' @ v])"

definition watch_exit :: "int \<Rightarrow> int" where
  "watch_exit status = (if status = 0 then 0 else 1)"

definition watch_report :: "int \<Rightarrow> counts \<Rightarrow> string list" where
  "watch_report status c = [''status='' @ (if status = 0 then ''complete'' else ''timeout''),
     ''events_seen='' @ dec (unat (events_seen c)), ''key_presses='' @ dec (unat (key_presses c)),
     ''key_releases='' @ dec (unat (key_releases c)), ''key_repeats='' @ dec (unat (key_repeats c)),
     ''abs_events='' @ dec (unat (abs_events c)), ''syn_reports='' @ dec (unat (syn_reports c))]"

text \<open>
  The program: exit status 2 or 0 from the arguments, 1 without a device or if it cannot be opened
  (\<open>can_open\<close>), otherwise the outcome of the loop started with an empty state.
\<close>

definition watch_main ::
    "nat \<Rightarrow> 'w watch_os \<Rightarrow> (string \<Rightarrow> string option) \<Rightarrow> (string \<Rightarrow> bool) \<Rightarrow> (string \<Rightarrow> string option) \<Rightarrow> (string \<Rightarrow> bool) \<Rightarrow>
     string list \<Rightarrow> 'w \<Rightarrow> (int \<times> watch_state \<times> 'w) option" where
  "watch_main fuel os env exists fs can_open args w =
     (let sysroot = (case env ''VITA_INPUTWATCH_SYSFS_ROOT'' of None \<Rightarrow> ''/sys'' | Some t \<Rightarrow> t);
          devroot = (case env ''VITA_INPUTWATCH_DEV_ROOT'' of None \<Rightarrow> ''/dev'' | Some t \<Rightarrow> t);
          s0 = \<lparr>pending_bytes = [], tally = zero_counts, seen = []\<rparr>
      in case watch_arguments args default_watch_options of
        Inl status \<Rightarrow> Some (status, s0, w)
      | Inr o' \<Rightarrow>
          case find_device exists fs sysroot devroot (wo_phys o') of
            None \<Rightarrow> Some (1, s0, w)
          | Some device \<Rightarrow>
              if \<not> can_open (dev_path device) then Some (1, s0, w)
              else case wk_clock os w of (start, w) \<Rightarrow>
                map_option (\<lambda>(status, s, w). (watch_exit status, s, w))
                  (watch fuel os o' (case start of None \<Rightarrow> (0, 0) | Some t \<Rightarrow> t) s0 w))"

section \<open>Correctness\<close>

definition key_with :: "int \<Rightarrow> input_event \<Rightarrow> bool" where
  "key_with v ev \<longleftrightarrow> ev_type ev = EV_KEY \<and> ev_value ev = v"

text \<open>The counters a list of events deserves.\<close>

definition counts_of :: "input_event list \<Rightarrow> counts" where
  "counts_of evs =
     \<lparr>events_seen = of_nat (length evs), key_presses = of_nat (length (filter (key_with 1) evs)),
      key_releases = of_nat (length (filter (key_with 0) evs)), key_repeats = of_nat (length (filter (key_with 2) evs)),
      abs_events = of_nat (length (filter (\<lambda>ev. ev_type ev = EV_ABS) evs)),
      syn_reports = of_nat (length (filter (\<lambda>ev. ev_type ev = EV_SYN \<and> ev_code ev = SYN_REPORT) evs))\<rparr>"

lemma count_event_counts: "count_event ev (counts_of evs) = counts_of (evs @ [ev])"
  by (auto simp: count_event_def counts_of_def key_with_def Let_def)

text \<open>The state of the loop is a function of the bytes it has read.\<close>

definition watch_after :: "u8 list \<Rightarrow> watch_state" where
  "watch_after bs = \<lparr>pending_bytes = rest_of bs, tally = counts_of (events_of bs), seen = events_of bs\<rparr>"

lemma events_full: "length bs = 16 \<Longrightarrow> events_of bs = [decode_event bs] \<and> rest_of bs = []"
  by (simp add: events_of.simps [of bs] rest_of.simps [of bs] events_of.simps [of "[]"] rest_of.simps [of "[]"])

lemma events_partial: "length bs < 16 \<Longrightarrow> events_of bs = [] \<and> rest_of bs = bs"
  by (simp add: events_of.simps [of bs] rest_of.simps [of bs])

lemma take_pending_after:
  assumes "length (rest_of bs @ cs) \<le> 16"
  shows "take_pending ((watch_after bs)\<lparr>pending_bytes := pending_bytes (watch_after bs) @ cs\<rparr>) = watch_after (bs @ cs)"
proof (cases "length (rest_of bs @ cs) = 16")
  case True
  from events_full [OF this] True show ?thesis unfolding watch_after_def stream_append [of bs cs]
    by (simp add: take_pending_def Let_def count_event_counts)
next
  case False
  then have "length (rest_of bs @ cs) < 16" using assms by simp
  from events_partial [OF this] False show ?thesis unfolding watch_after_def stream_append [of bs cs]
    by (simp add: take_pending_def)
qed

lemma length_events_of: "length (events_of bs) = length bs div 16"
proof (induction bs rule: events_of.induct)
  case (1 bs)
  then show ?case by (subst events_of.simps) (simp add: le_div_geq)
qed

text \<open>
  What the loop relies on: reads deliver at most what was asked for, \<open>ev_rx\<close> being the bytes read so
  far; only finitely many polls or reads are interrupted or find nothing; and the clock is monotonic.
\<close>

definition watch_kernel :: "'w watch_os \<Rightarrow> ('w \<Rightarrow> u8 list) \<Rightarrow> ('w \<Rightarrow> nat) \<Rightarrow> int \<times> int \<Rightarrow> bool" where
  "watch_kernel os ev_rx patience started \<longleftrightarrow>
     (\<forall>w now w'. wk_clock os w = (now, w') \<longrightarrow> ev_rx w' = ev_rx w \<and> patience w' \<le> patience w \<and> 0 \<le> elapsed_ms started now) \<and>
     (\<forall>t a w w'. wk_poll os t w = (a, w') \<longrightarrow> ev_rx w' = ev_rx w \<and> patience w' \<le> patience w \<and>
        (a = PollErrno EINTR \<longrightarrow> patience w' < patience w)) \<and>
     (\<forall>n bs w w'. wk_read os n w = (WBytes bs, w') \<longrightarrow> length bs \<le> n \<and> ev_rx w' = ev_rx w @ bs \<and> patience w' \<le> patience w) \<and>
     (\<forall>n e w w'. wk_read os n w = (WErrno e, w') \<longrightarrow> ev_rx w' = ev_rx w \<and> patience w' \<le> patience w \<and>
        (e = EAGAIN \<longrightarrow> patience w' < patience w))"

lemma watch_kernel_rules:
  assumes "watch_kernel os ev_rx p started"
  shows "wk_clock os w = (now, w') \<Longrightarrow> ev_rx w' = ev_rx w \<and> p w' \<le> p w \<and> 0 \<le> elapsed_ms started now"
    "wk_poll os t w = (a, w') \<Longrightarrow> ev_rx w' = ev_rx w \<and> p w' \<le> p w \<and> (a = PollErrno EINTR \<longrightarrow> p w' < p w)"
    "wk_read os n w = (WBytes bs, w') \<Longrightarrow> length bs \<le> n \<and> ev_rx w' = ev_rx w @ bs \<and> p w' \<le> p w"
    "wk_read os n w = (WErrno e, w') \<Longrightarrow> ev_rx w' = ev_rx w \<and> p w' \<le> p w \<and> (e = EAGAIN \<longrightarrow> p w' < p w)"
  using assms unfolding watch_kernel_def by simp_all

text \<open>
  The outcome of a round: some bytes were read and counted; a round that goes on has read something or
  used up patience, and one that stops with status 0 has reached the limit or the end of the stream.
\<close>

definition round_ok :: "('w \<Rightarrow> u8 list) \<Rightarrow> ('w \<Rightarrow> nat) \<Rightarrow> watch_options \<Rightarrow> u8 list \<Rightarrow> 'w \<Rightarrow> int option \<times> watch_state \<times> 'w \<Rightarrow> bool" where
  "round_ok ev_rx p o' bs w res \<longleftrightarrow> (\<exists>stop w' cs. res = (stop, watch_after (bs @ cs), w') \<and> ev_rx w' = ev_rx w @ cs \<and>
     length (bs @ cs) \<le> 16 * unat (max_events o') \<and>
     (stop = None \<and> length bs + p w' < length (bs @ cs) + p w \<and> p w' \<le> p w \<or> stop = Some 1 \<or>
      stop = Some 0 \<and> (length (bs @ cs) = 16 * unat (max_events o') \<or> rest_of (bs @ cs) = [])))"

lemma round_still:
  assumes "length bs \<le> 16 * unat (max_events o')" "ev_rx w' = ev_rx w" "p w' \<le> p w"
    and "stop = None \<and> p w' < p w \<or> stop = Some 1 \<or> stop = Some 0 \<and> (length bs = 16 * unat (max_events o') \<or> rest_of bs = [])"
  shows "round_ok ev_rx p o' bs w (stop, watch_after bs, w')"
  unfolding round_ok_def using assms by (intro exI [of _ stop] exI [of _ w'] exI [of _ "[]"]) auto

lemma seen_enough:
  assumes "length bs \<le> 16 * unat (max_events o')"
  shows "events_seen (tally (watch_after bs)) \<ge> max_events o' \<longleftrightarrow> length bs = 16 * unat (max_events o')"
proof -
  have n: "length bs div 16 \<le> unat (max_events o')" using assms by (simp add: div_le_mono [of _ "16 * _" 16, simplified])
  then have "length bs div 16 < 2 ^ 32" using unsigned_less [of "max_events o'", where ?'a = nat] by simp
  then have "unat (events_seen (tally (watch_after bs))) = length bs div 16"
    by (simp add: watch_after_def counts_of_def length_events_of unsigned_of_nat take_bit_nat_eq_self)
  then have "events_seen (tally (watch_after bs)) \<ge> max_events o' \<longleftrightarrow> unat (max_events o') \<le> length bs div 16"
    by (simp add: word_le_nat_alt)
  also have "\<dots> \<longleftrightarrow> length bs = 16 * unat (max_events o')" using assms by (auto simp: less_eq_div_iff_mult_less_eq)
  finally show ?thesis .
qed

lemma rest_length: "length (rest_of bs) = length bs mod 16"
proof (induction bs rule: rest_of.induct)
  case (1 bs)
  then show ?case by (subst rest_of.simps) (simp add: le_mod_geq)
qed

lemma chunk_fits:
  fixes n m k :: nat
  assumes "n < 16 * m" "n mod 16 + k \<le> 16"
  shows "n + k \<le> 16 * m"
proof -
  have "n div 16 < m" using assms(1) by (simp add: div_less_iff_less_mult mult.commute)
  then have "16 * (n div 16) + 16 \<le> 16 * m" by simp
  then show ?thesis using assms(2) div_mult_mod_eq [of n 16] by linarith
qed

lemma elapsed_le: "elapsed_ms started now \<le> 2147483647"
proof -
  have "signed_take_bit 31 v < 2147483648" for v :: int using signed_take_bit_int_less_exp [of 31 v] by simp
  then show ?thesis by (auto simp: elapsed_ms_def zle_diff1_eq [of _ 2147483648, simplified] split: option.split)
qed

lemma remaining_ok:
  assumes "d < 2147483648" "0 \<le> elapsed_ms started now"
  shows "i32 (sint (d :: u32) - elapsed_ms started now) = Some (sint d - elapsed_ms started now)"
proof -
  have "uint d < 2147483648" using assms(1) by (simp add: word_less_def)
  moreover have "- 2147483648 \<le> uint d" using uint_ge_0 [of d] by linarith
  ultimately have "sint d = uint d" using signed_take_bit_int_eq_self [of 31 "uint d"] by (simp add: sint_uint)
  moreover have "- 2147483648 \<le> uint d - elapsed_ms started now" "uint d - elapsed_ms started now \<le> 2147483647"
    using \<open>uint d < 2147483648\<close> assms(2) elapsed_le [of started now] uint_ge_0 [of d] by linarith+
  ultimately show ?thesis by (simp add: i32_def in_i32_def)
qed

lemma read_round:
  assumes k: "watch_kernel os ev_rx p started" and "length bs < 16 * unat (max_events o')" "ev_rx w1 = ev_rx w" "p w1 \<le> p w"
  shows "round_ok ev_rx p o' bs w (watch_read_once os (watch_after bs) w1)"
proof -
  let ?s = "watch_after bs"
  have pend: "pending_bytes ?s = rest_of bs" by (simp add: watch_after_def)
  obtain x w2 where x: "wk_read os (16 - length (pending_bytes ?s)) w1 = (x, w2)" by fastforce
  show ?thesis
  proof (cases x)
    case (WErrno e)
    note kr = watch_kernel_rules(4) [OF k x [unfolded WErrno]]
    have "watch_read_once os ?s w1 = (if e = EAGAIN then None else Some 1, ?s, w2)" using x WErrno by (simp add: watch_read_once_def)
    with kr assms show ?thesis by (auto intro: round_still)
  next
    case (WBytes cs)
    note kr = watch_kernel_rules(3) [OF k x [unfolded WBytes]]
    show ?thesis
    proof (cases "cs = []")
      case True
      then have "watch_read_once os ?s w1 = (Some (if rest_of bs = [] then 0 else 1), ?s, w2)"
        using x WBytes pend by (simp add: watch_read_once_def)
      with kr True assms show ?thesis by (auto intro: round_still)
    next
      case False
      have l: "length bs mod 16 + length cs \<le> 16" using kr mod_less_divisor [of 16 "length bs"] by (auto simp: pend rest_length)
      then have "take_pending (?s\<lparr>pending_bytes := pending_bytes ?s @ cs\<rparr>) = watch_after (bs @ cs)"
        by (intro take_pending_after) (simp add: rest_length)
      then have "watch_read_once os ?s w1 = (None, watch_after (bs @ cs), w2)" using x WBytes False by (simp add: watch_read_once_def)
      moreover have "length (bs @ cs) \<le> 16 * unat (max_events o')" using chunk_fits [OF assms(2) l] by simp
      moreover have "p w2 < length cs + p w" using False kr assms(4) by (cases cs) auto
      ultimately show ?thesis unfolding round_ok_def using kr assms(3,4)
        by (intro exI [of _ None] exI [of _ w2] exI [of _ cs]) auto
    qed
  qed
qed

lemma poll_round:
  assumes k: "watch_kernel os ev_rx p started" and d: "duration_ms o' < 2147483648" and m: "0 < max_events o'"
    and l: "length bs \<le> 16 * unat (max_events o')"
  shows "\<exists>res. watch_round os o' started (watch_after bs) w = Some res \<and> round_ok ev_rx p o' bs w res"
proof -
  let ?s = "watch_after bs"
  obtain now w1 where c: "wk_clock os w = (now, w1)" by fastforce
  note kc = watch_kernel_rules(1) [OF k c]
  define remaining where "remaining = sint (duration_ms o') - elapsed_ms started now"
  have r: "i32 (sint (duration_ms o') - elapsed_ms started now) = Some remaining"
    unfolding remaining_def using remaining_ok d kc by blast
  note enough = seen_enough [OF l]
  show ?thesis
  proof (cases "length bs = 16 * unat (max_events o') \<or> remaining \<le> 0")
    case True
    then show ?thesis using c r m enough kc l by (auto simp: watch_round_def intro!: round_still)
  next
    case False
    then have n: "\<not> max_events o' \<le> events_seen (tally ?s)" "\<not> remaining \<le> 0" "length bs < 16 * unat (max_events o')"
      using enough l by auto
    obtain a w2 where q: "wk_poll os remaining w1 = (a, w2)" by fastforce
    note kp = watch_kernel_rules(2) [OF k q]
    show ?thesis
    proof (cases "\<exists>readable broken. a = PollReady readable broken \<and> \<not> (broken \<and> \<not> readable)")
      case True
      then have "watch_round os o' started ?s w = Some (watch_read_once os ?s w2)"
        using c r n(1,2) q by (auto simp: watch_round_def)
      with read_round [OF k n(3), of w2 w] kc kp show ?thesis by auto
    next
      case no: False
      then obtain stop where "watch_round os o' started ?s w = Some (stop, ?s, w2)"
        "stop = None \<and> a = PollErrno EINTR \<or> stop = Some 1"
        using c r n(1,2) q by (cases a) (auto simp: watch_round_def)
      with kc kp l show ?thesis by (auto intro!: round_still)
    qed
  qed
qed

text \<open>The outcome of the loop: everything read has been counted.\<close>

definition watched :: "('w \<Rightarrow> u8 list) \<Rightarrow> watch_options \<Rightarrow> u8 list \<Rightarrow> 'w \<Rightarrow> (int \<times> watch_state \<times> 'w) option \<Rightarrow> bool" where
  "watched ev_rx o' bs w res \<longleftrightarrow> (\<exists>status w' cs. res = Some (status, watch_after (bs @ cs), w') \<and> ev_rx w' = ev_rx w @ cs \<and>
     length (bs @ cs) \<le> 16 * unat (max_events o') \<and>
     (status = 1 \<or> status = 0 \<and> (length (bs @ cs) = 16 * unat (max_events o') \<or> rest_of (bs @ cs) = [])))"

lemma watched_step:
  "watched ev_rx o' (bs @ cs) w1 res \<Longrightarrow> ev_rx w1 = ev_rx w @ cs \<Longrightarrow> watched ev_rx o' bs w res"
  unfolding watched_def by (elim exE conjE) (metis append.assoc)

lemma watch_ok:
  assumes k: "watch_kernel os ev_rx p started" and d: "duration_ms o' < 2147483648" and m: "0 < max_events o'"
    and "length bs \<le> 16 * unat (max_events o')" "16 * unat (max_events o') - length bs + p w < fuel"
  shows "watched ev_rx o' bs w (watch fuel os o' started (watch_after bs) w)"
  using assms(4,5)
proof (induction fuel arbitrary: bs w)
  case (Suc fuel)
  from poll_round [OF k d m Suc.prems(1), of w] obtain stop w' cs where
    r: "watch_round os o' started (watch_after bs) w = Some (stop, watch_after (bs @ cs), w')" "ev_rx w' = ev_rx w @ cs"
      "length (bs @ cs) \<le> 16 * unat (max_events o')"
    and c: "stop = None \<and> length bs + p w' < length (bs @ cs) + p w \<and> p w' \<le> p w \<or> stop = Some 1 \<or>
      stop = Some 0 \<and> (length (bs @ cs) = 16 * unat (max_events o') \<or> rest_of (bs @ cs) = [])"
    unfolding round_ok_def by blast
  show ?case
  proof (cases stop)
    case None
    then have "16 * unat (max_events o') - length (bs @ cs) + p w' < fuel" using c r(3) Suc.prems(2) by auto
    from watched_step [OF Suc.IH [OF r(3) this] r(2)] show ?thesis using r(1) None by simp
  next
    case (Some status)
    then show ?thesis using r c by (auto simp: watched_def)
  qed
qed simp

section \<open>Theorems\<close>

text \<open>
  Claim C21. With an event limit the watcher always returns, and its report is exact: from an empty
  state, however the reads cut the stream and whatever interruptions occur, the events it printed
  are the complete events of the bytes it read, never more than the limit, its six counters are the
  numbers of those events of each kind, no byte was read and then lost except an incomplete last
  event, and it reports completion only after reaching the limit or the end of a stream that ends
  with a whole event.
\<close>

theorem watcher_counts_the_stream:
  assumes "watch_kernel os ev_rx patience started" "duration_ms o' < 2147483648" "0 < max_events o'"
    and "ev_rx w = []" "16 * unat (max_events o') + patience w < fuel"
  shows "\<exists>status s w'. watch fuel os o' started \<lparr>pending_bytes = [], tally = zero_counts, seen = []\<rparr> w = Some (status, s, w') \<and>
    seen s = events_of (ev_rx w') \<and> length (seen s) \<le> unat (max_events o') \<and> tally s = counts_of (seen s) \<and>
    pending_bytes s = rest_of (ev_rx w') \<and> status \<in> {0, 1} \<and>
    (status = 0 \<longrightarrow> length (seen s) = unat (max_events o') \<or> pending_bytes s = [])"
proof -
  have e: "events_of [] = []" "rest_of [] = []" by (simp_all add: events_of.simps [of "[]"] rest_of.simps [of "[]"])
  then have "watch_after [] = \<lparr>pending_bytes = [], tally = zero_counts, seen = []\<rparr>"
    by (simp add: watch_after_def counts_of_def zero_counts_def)
  with watch_ok [OF assms(1-3), of "[]" w fuel] assms(5) obtain status w' cs where
    r: "watch fuel os o' started \<lparr>pending_bytes = [], tally = zero_counts, seen = []\<rparr> w = Some (status, watch_after cs, w')"
      "ev_rx w' = ev_rx w @ cs" "length cs \<le> 16 * unat (max_events o')"
      "status = 1 \<or> status = 0 \<and> (length cs = 16 * unat (max_events o') \<or> rest_of cs = [])"
    by (auto simp: watched_def)
  have rx: "ev_rx w' = cs" using r(2) assms(4) by simp
  have "length (events_of cs) \<le> unat (max_events o')" "length cs = 16 * unat (max_events o') \<Longrightarrow> length (events_of cs) = unat (max_events o')"
    using r(3) by (simp_all add: length_events_of div_le_mono [of _ "16 * _" 16, simplified])
  with r(1,4) rx show ?thesis by (auto simp: watch_after_def)
qed

text \<open>A device that delivers one key press, eight bytes at a time, and then ends.\<close>

definition press_device :: "u8 list watch_os" where
  "press_device = \<lparr>wk_clock = (\<lambda>w. (Some (0, 0), w)), wk_poll = (\<lambda>t w. (PollReady True False, w)),
     wk_read = (\<lambda>n w. let bs = take (min n 8) (drop (length w) ([0, 0, 0, 0, 0, 0, 0, 0, 1, 0, 30, 0, 1, 0, 0, 0]))
        in (WBytes bs, w @ bs))\<rparr>"

theorem watcher_counts_the_stream_witness:
  "\<exists>status s w'. watch 200 press_device (default_watch_options\<lparr>max_events := 2\<rparr>) (0, 0)
     \<lparr>pending_bytes = [], tally = zero_counts, seen = []\<rparr> [] = Some (status, s, w') \<and>
     seen s = events_of w' \<and> tally s = counts_of (seen s)"
proof -
  have "watch_kernel press_device (\<lambda>w. w) (\<lambda>w. 0) (0, 0)"
    by (auto simp: watch_kernel_def press_device_def Let_def elapsed_ms_def)
  from watcher_counts_the_stream [OF this, of "default_watch_options\<lparr>max_events := 2\<rparr>" "[]" 200]
  show ?thesis by (auto simp: default_watch_options_def)
qed

end
