(* ===== verification/Bench.thy ===== *)
theory Bench
  imports C_Text
begin

text \<open>
  The benchmark (\<^verbatim>\<open>toolkit/share/vita-bench.c\<close>): the work of a worker thread with its checksum, the
  start gate that releases all workers at once, the command line, the files the program reads and the
  sequence of its runs. The threads are a step relation in which a section under the gate's mutex is one step
  and a wait on the condition variable is a step that is enabled when its condition holds (the code
  re-checks the condition after every wake-up). Times and the rates computed from them in floating
  point are not modelled.
\<close>

abbreviation (input) MAX_WORKERS :: nat where "MAX_WORKERS \<equiv> 4"

datatype work_kind = WORK_COMPUTE | WORK_MEMCPY | WORK_MEMSET

section \<open>The work of a thread\<close>

text \<open>The generator of the compute kernel; \<open>seed\<close> is the address of the thread's arguments.\<close>

definition compute_step :: "u32 \<Rightarrow> u32 \<Rightarrow> u32" where
  "compute_step index v =
     (let v = v XOR drop_bit 13 v; v = v XOR push_bit 17 v; v = v XOR drop_bit 5 v
      in v * 1664525 + 1013904223 + index)"

definition compute_checksum :: "u32 \<Rightarrow> u32 \<Rightarrow> u64" where
  "compute_checksum seed rounds =
     (let operations = rounds * 1000000
      in ucast (foldl (\<lambda>v i. compute_step (of_nat i) v) (0x9e3779b9 XOR seed) [0..<unat operations]))"

text \<open>One round on the destination buffer: the copy or the fill, then two samples of the buffer.\<close>

definition memory_round :: "work_kind \<Rightarrow> u8 list \<Rightarrow> u32 \<Rightarrow> u8 list \<times> u64 \<Rightarrow> u8 list \<times> u64" where
  "memory_round kind source round = (\<lambda>(destination, checksum).
     let destination = (if kind = WORK_MEMCPY then source else replicate (length destination) (ucast (round AND 0xff)));
         checksum = checksum XOR ucast (destination ! (unat (round * 4099) mod length destination));
         checksum = checksum + ucast (destination ! (length destination - 1))
     in (destination, checksum))"

definition memory_checksum :: "work_kind \<Rightarrow> u32 \<Rightarrow> u32 \<Rightarrow> nat \<Rightarrow> u64" where
  "memory_checksum kind seed rounds bytes =
     (case foldl (\<lambda>s r. memory_round kind (replicate bytes (ucast (seed AND 0xff))) (of_nat r) s)
          (replicate bytes 0, 0) [0..<unat rounds] of
        (destination, checksum) \<Rightarrow> checksum XOR ucast (destination ! 0))"

text \<open>What a worker stores in \<^verbatim>\<open>args->checksum\<close>; \<open>alloc_ok\<close> says whether both buffers were allocated.\<close>

definition worker_checksum :: "work_kind \<Rightarrow> u32 \<Rightarrow> u32 \<Rightarrow> nat \<Rightarrow> bool \<Rightarrow> u64" where
  "worker_checksum kind seed rounds bytes alloc_ok =
     (if kind = WORK_COMPUTE then compute_checksum seed rounds
      else if \<not> alloc_ok then UINT64_MAX
      else memory_checksum kind seed rounds bytes)"

section \<open>The start gate\<close>

datatype bench_worker = B_Start | B_Wait | B_Work | B_Done
datatype bench_main_pc = R_Create | R_Release | R_WaitReady | R_Join nat | R_FailJoin nat | R_Return int

record gate_sys =
  ready :: int
  go :: bool
  threads :: "bench_worker list"
  sums :: "u64 list"
  main_pc :: bench_main_pc
  total :: u64

text \<open>The state after the gate and the arguments have been initialised: all checksums are 0.\<close>

definition gate_start :: "nat \<Rightarrow> gate_sys" where
  "gate_start n = \<lparr>ready = 0, go = False, threads = [], sums = replicate n 0, main_pc = R_Create, total = 0\<rparr>"

inductive bench_worker_step :: "(nat \<Rightarrow> u64) \<Rightarrow> gate_sys \<Rightarrow> gate_sys \<Rightarrow> bool" for work where
  arrive: "i < length (threads s) \<Longrightarrow> threads s ! i = B_Start \<Longrightarrow>
    bench_worker_step work s (s\<lparr>ready := ready s + 1, threads := (threads s)[i := B_Wait]\<rparr>)"
| released: "i < length (threads s) \<Longrightarrow> threads s ! i = B_Wait \<Longrightarrow> go s \<Longrightarrow>
    bench_worker_step work s (s\<lparr>threads := (threads s)[i := B_Work]\<rparr>)"
| finish: "i < length (threads s) \<Longrightarrow> threads s ! i = B_Work \<Longrightarrow>
    bench_worker_step work s (s\<lparr>threads := (threads s)[i := B_Done], sums := (sums s)[i := work i]\<rparr>)"

text \<open>\<open>n\<close> is the number of workers; the result of the run is the argument of \<open>R_Return\<close>.\<close>

inductive bench_main_step :: "nat \<Rightarrow> gate_sys \<Rightarrow> gate_sys \<Rightarrow> bool" for n where
  create: "main_pc s = R_Create \<Longrightarrow> length (threads s) < n \<Longrightarrow>
    bench_main_step n s (s\<lparr>threads := threads s @ [B_Start]\<rparr>)"
| create_fails: "main_pc s = R_Create \<Longrightarrow> length (threads s) < n \<Longrightarrow> bench_main_step n s (s\<lparr>main_pc := R_Release\<rparr>)"
| created: "main_pc s = R_Create \<Longrightarrow> length (threads s) = n \<Longrightarrow> bench_main_step n s (s\<lparr>main_pc := R_WaitReady\<rparr>)"
| release: "main_pc s = R_Release \<Longrightarrow> bench_main_step n s (s\<lparr>go := True, main_pc := R_FailJoin 0\<rparr>)"
| fail_join: "main_pc s = R_FailJoin k \<Longrightarrow> k < length (threads s) \<Longrightarrow> threads s ! k = B_Done \<Longrightarrow>
    bench_main_step n s (s\<lparr>main_pc := R_FailJoin (Suc k)\<rparr>)"
| fail_return: "main_pc s = R_FailJoin k \<Longrightarrow> k = length (threads s) \<Longrightarrow> bench_main_step n s (s\<lparr>main_pc := R_Return (- 1)\<rparr>)"
| all_ready: "main_pc s = R_WaitReady \<Longrightarrow> ready s = int n \<Longrightarrow> bench_main_step n s (s\<lparr>go := True, main_pc := R_Join 0\<rparr>)"
| join: "main_pc s = R_Join k \<Longrightarrow> k < n \<Longrightarrow> threads s ! k = B_Done \<Longrightarrow>
    bench_main_step n s (s\<lparr>main_pc := R_Join (Suc k)\<rparr>)"
| return: "main_pc s = R_Join k \<Longrightarrow> k = n \<Longrightarrow> t = foldl (XOR) 0 (take n (sums s)) \<Longrightarrow>
    bench_main_step n s (s\<lparr>total := t, main_pc := R_Return (if t = UINT64_MAX then - 1 else 0)\<rparr>)"

definition gate_step :: "nat \<Rightarrow> (nat \<Rightarrow> u64) \<Rightarrow> gate_sys \<Rightarrow> gate_sys \<Rightarrow> bool" where
  "gate_step n work s s' \<longleftrightarrow> bench_worker_step work s s' \<or> bench_main_step n s s'"

inductive gate_reachable :: "nat \<Rightarrow> (nat \<Rightarrow> u64) \<Rightarrow> gate_sys \<Rightarrow> bool" for n work where
  init: "gate_reachable n work (gate_start n)"
| step: "gate_reachable n work s \<Longrightarrow> gate_step n work s s' \<Longrightarrow> gate_reachable n work s'"

section \<open>The files of the system\<close>

definition rooted_path :: "string \<Rightarrow> string \<Rightarrow> nat \<Rightarrow> string option" where
  "rooted_path root path cap = (if length (root @ path) < cap then Some (root @ path) else None)"

definition bench_eol :: "char \<Rightarrow> bool" where
  "bench_eol c \<longleftrightarrow> c = CHR 0x0A \<or> c = CHR 0x0D"

text \<open>\<^verbatim>\<open>fgets\<close>: at most \<open>cap - 1\<close> characters, up to and including the first line feed.\<close>

definition fgets :: "nat \<Rightarrow> string \<Rightarrow> string option" where
  "fgets cap content =
     (let line = take (cap - 1) (takeWhile (\<lambda>c. c \<noteq> CHR 0x0A) content @ take 1 (dropWhile (\<lambda>c. c \<noteq> CHR 0x0A) content))
      in if line = [] then None else Some line)"

definition read_online_cpus :: "(string \<Rightarrow> string option) \<Rightarrow> string \<Rightarrow> nat \<Rightarrow> string" where
  "read_online_cpus fs root cap =
     (case rooted_path root ''/sys/devices/system/cpu/online'' 256 of
        None \<Rightarrow> ''UNKNOWN''
      | Some path \<Rightarrow>
          (case Option.bind (fs path) (fgets cap) of
             None \<Rightarrow> ''UNKNOWN''
           | Some line \<Rightarrow>
               let buffer = rev (dropWhile bench_eol (rev (c_str line)))
               in if buffer = [] then ''UNKNOWN'' else buffer))"

definition online_worker_limit :: "int \<Rightarrow> nat" where
  "online_worker_limit n = nat (min (max n 1) (int MAX_WORKERS))"

text \<open>\<^verbatim>\<open>%u\<close> of \<^verbatim>\<open>fscanf\<close>; \<open>None\<close> without a number.\<close>

definition scan_u :: "string \<Rightarrow> (u32 \<times> string) option" where
  "scan_u t = (case strtou 32 t of (v, erange, rest) \<Rightarrow> if rest = t then None else Some (of_nat v, rest))"

definition read_fb_metadata :: "(string \<Rightarrow> string option) \<Rightarrow> string \<Rightarrow> size_t option" where
  "read_fb_metadata fs root = do {
     path \<leftarrow> rooted_path root ''/sys/class/graphics/fb0/virtual_size'' 256;
     t \<leftarrow> fs path;
     (width, t) \<leftarrow> scan_u t;
     t \<leftarrow> (if t \<noteq> [] \<and> hd t = CHR '','' then Some (tl t) else None);
     (height, t) \<leftarrow> scan_u t;
     path \<leftarrow> rooted_path root ''/sys/class/graphics/fb0/stride'' 256;
     t \<leftarrow> fs path;
     (stride, t) \<leftarrow> scan_u t;
     let bytes = height * stride;
     if bytes > 0 then Some bytes else None
   }"

section \<open>The program\<close>

record bench_options =
  requested :: nat
  bench_machine :: bool
  quick :: bool
  bench_framebuffer :: bool

definition default_bench_options :: bench_options where
  "default_bench_options = \<lparr>requested = 0, bench_machine = False, quick = False, bench_framebuffer = False\<rparr>"

fun bench_arguments :: "string list \<Rightarrow> bench_options \<Rightarrow> int + bench_options" where
  "bench_arguments [] o' = Inr o'"
| "bench_arguments (a # rest) o' =
     (if a = ''--machine'' then bench_arguments rest (o'\<lparr>bench_machine := True\<rparr>)
      else if a = ''--quick'' then bench_arguments rest (o'\<lparr>quick := True\<rparr>)
      else if a = ''--framebuffer'' then bench_arguments rest (o'\<lparr>bench_framebuffer := True\<rparr>)
      else case rest of
        v # rest' \<Rightarrow>
          if a = ''--workers'' then
            (let n = fst (strtou 32 v)
             in if n < 1 \<or> n > MAX_WORKERS then Inl 2 else bench_arguments rest' (o'\<lparr>requested := n\<rparr>))
          else Inl (if a = ''--help'' then 0 else 2)
      | [] \<Rightarrow> Inl (if a = ''--help'' then 0 else 2))"

text \<open>The sizes of the work, the worker counts of the loop, and the runs with their exit status.\<close>

definition bench_sizes :: "bench_options \<Rightarrow> nat \<times> u32 \<times> u32" where
  "bench_sizes o' = (if quick o' then (1048576, 2, 2) else (8388608, 8, 20))"

function bench_counts :: "nat \<Rightarrow> nat \<Rightarrow> nat \<Rightarrow> nat list" where
  "bench_counts asked maximum index =
     (if index \<le> maximum \<and> 0 < index
      then index # (if asked \<noteq> 0 \<or> index = maximum then [] else bench_counts asked maximum (index * 2))
      else [])"
  by pat_completeness auto
termination
  by (relation "measure (\<lambda>(asked, maximum, index). Suc maximum - index)") auto

declare bench_counts.simps [simp del]

definition bench_runs :: "bench_options \<Rightarrow> int \<Rightarrow> (work_kind \<times> nat) list" where
  "bench_runs o' cpus =
     (let maximum = (if requested o' \<noteq> 0 then requested o' else online_worker_limit cpus);
          first = (if requested o' \<noteq> 0 then requested o' else 1)
      in concat (map (\<lambda>n. [(WORK_COMPUTE, n), (WORK_MEMCPY, n), (WORK_MEMSET, n)])
           (bench_counts (requested o') maximum first)))"

definition bench_exit :: "bench_options \<Rightarrow> int \<Rightarrow> (work_kind \<times> nat \<Rightarrow> int) \<Rightarrow> bool \<Rightarrow> int" where
  "bench_exit o' cpus run fb_ok =
     (if list_all (\<lambda>r. run r = 0) (bench_runs o' cpus) \<and> (bench_framebuffer o' \<longrightarrow> fb_ok) then 0 else 1)"

section \<open>The gate is safe and the run returns\<close>

definition arrived :: "bench_worker list \<Rightarrow> nat" where
  "arrived ts = length (filter (\<lambda>t. t \<noteq> B_Start) ts)"

definition all_done :: "nat \<Rightarrow> bench_worker list \<Rightarrow> bool" where
  "all_done k ts \<longleftrightarrow> k \<le> length ts \<and> (\<forall>j<k. ts ! j = B_Done)"

text \<open>What the position of the main thread says about the workers.\<close>

fun gate_main_inv :: "nat \<Rightarrow> (nat \<Rightarrow> u64) \<Rightarrow> gate_sys \<Rightarrow> bench_main_pc \<Rightarrow> bool" where
  "gate_main_inv n work s R_Create \<longleftrightarrow> \<not> go s"
| "gate_main_inv n work s R_Release \<longleftrightarrow> \<not> go s \<and> length (threads s) < n"
| "gate_main_inv n work s R_WaitReady \<longleftrightarrow> \<not> go s \<and> length (threads s) = n"
| "gate_main_inv n work s (R_Join k) \<longleftrightarrow> go s \<and> length (threads s) = n \<and> arrived (threads s) = n \<and> all_done k (threads s)"
| "gate_main_inv n work s (R_FailJoin k) \<longleftrightarrow> go s \<and> length (threads s) < n \<and> all_done k (threads s)"
| "gate_main_inv n work s (R_Return r) \<longleftrightarrow> all_done (length (threads s)) (threads s) \<and>
     (if length (threads s) = n
      then total s = foldl (XOR) 0 (map work [0..<n]) \<and> r = (if total s = UINT64_MAX then - 1 else 0)
      else r = - 1)"

definition gate_inv :: "nat \<Rightarrow> (nat \<Rightarrow> u64) \<Rightarrow> gate_sys \<Rightarrow> bool" where
  "gate_inv n work s \<longleftrightarrow> length (sums s) = n \<and> length (threads s) \<le> n \<and> ready s = int (arrived (threads s)) \<and>
     (\<forall>i<length (threads s). threads s ! i = B_Done \<longrightarrow> sums s ! i = work i) \<and>
     (\<not> go s \<longrightarrow> set (threads s) \<subseteq> {B_Start, B_Wait}) \<and> gate_main_inv n work s (main_pc s)"

lemma arrived_update:
  assumes "i < length ts" "t \<noteq> B_Start"
  shows "arrived (ts[i := t]) = (if ts ! i = B_Start then Suc (arrived ts) else arrived ts)"
  using assms unfolding arrived_def
proof (induction ts arbitrary: i)
  case (Cons a ts)
  then show ?case by (cases i) auto
qed simp

lemma arrived_le: "arrived ts \<le> length ts"
  by (simp add: arrived_def)

lemma arrived_full: "arrived ts = length ts \<longleftrightarrow> B_Start \<notin> set ts"
proof (induction ts)
  case (Cons t ts)
  have "arrived (t # ts) = (if t = B_Start then arrived ts else Suc (arrived ts))" by (simp add: arrived_def)
  then show ?case using Cons arrived_le [of ts] by auto
qed (simp add: arrived_def)

lemma all_done_update: "all_done k ts \<Longrightarrow> ts ! i \<noteq> B_Done \<Longrightarrow> i < length ts \<Longrightarrow> all_done k (ts[i := t])"
  by (auto simp: all_done_def nth_list_update)

text \<open>Before the threads have returned a worker may move without disturbing what the main thread knows.\<close>

lemma gate_main_inv_worker:
  assumes "gate_main_inv n work s (main_pc s)" "i < length (threads s)" "threads s ! i \<noteq> B_Done" "t \<noteq> B_Start"
    and "threads s ! i = B_Start \<Longrightarrow> arrived (threads s) < length (threads s)"
    and "s' = s\<lparr>ready := r, threads := (threads s)[i := t], sums := sm\<rparr>"
  shows "gate_main_inv n work s' (main_pc s')"
  using assms arrived_update [OF assms(2,4)] by (cases "main_pc s") (auto simp: all_done_def nth_list_update)

lemma gate_inv_worker:
  assumes "bench_worker_step work s s'" and inv: "gate_inv n work s"
  shows "gate_inv n work s'"
proof -
  have m: "gate_main_inv n work s (main_pc s)" and l: "length (sums s) = n" "length (threads s) \<le> n"
    and r: "ready s = int (arrived (threads s))" and d: "\<forall>i<length (threads s). threads s ! i = B_Done \<longrightarrow> sums s ! i = work i"
    and g: "\<not> go s \<longrightarrow> set (threads s) \<subseteq> {B_Start, B_Wait}" using inv by (simp_all add: gate_inv_def)
  show ?thesis
    using assms(1)
  proof cases
    case (arrive i)
    have "B_Start \<in> set (threads s)" using nth_mem [OF arrive(2)] unfolding arrive(3) .
    then have a: "arrived (threads s) < length (threads s)"
      by (intro le_neq_implies_less [OF arrived_le]) (simp add: arrived_full)
    have "gate_main_inv n work s' (main_pc s')"
      by (rule gate_main_inv_worker [where t = B_Wait and r = "ready s + 1" and sm = "sums s", OF m arrive(2) _ _ a]) (simp_all add: arrive)
    moreover have "\<not> go s \<longrightarrow> set ((threads s)[i := B_Wait]) \<subseteq> {B_Start, B_Wait}"
      using g set_update_subset_insert [of "threads s" i B_Wait] by auto
    ultimately show ?thesis using l r d arrived_update [OF arrive(2), of B_Wait] arrive
      by (simp add: gate_inv_def nth_list_update)
  next
    case (released i)
    have "gate_main_inv n work s' (main_pc s')"
      by (rule gate_main_inv_worker [where t = B_Work and r = "ready s" and sm = "sums s", OF m released(2)]) (simp_all add: released)
    then show ?thesis using l r d released arrived_update [OF released(2), of B_Work]
      by (simp add: gate_inv_def nth_list_update)
  next
    case (finish i)
    have "gate_main_inv n work s' (main_pc s')"
      by (rule gate_main_inv_worker [where t = B_Done and r = "ready s" and sm = "(sums s)[i := work i]", OF m finish(2)]) (simp_all add: finish)
    moreover have "go s" using g nth_mem [OF finish(2)] unfolding finish(3) by auto
    ultimately show ?thesis using l r d finish arrived_update [OF finish(2), of B_Done]
      by (simp add: gate_inv_def nth_list_update)
  qed
qed

lemma all_done_Suc: "all_done k ts \<Longrightarrow> k < length ts \<Longrightarrow> ts ! k = B_Done \<Longrightarrow> all_done (Suc k) ts"
  by (auto simp: all_done_def less_Suc_eq)

lemma gate_inv_main:
  assumes "bench_main_step n s s'" "gate_inv n work s"
  shows "gate_inv n work s'"
  using assms(1)
proof cases
  case create
  then show ?thesis using assms(2) by (auto simp: gate_inv_def arrived_def nth_append)
next
  case (return k t)
  then have d: "all_done n (threads s)" "length (threads s) = n" using assms(2) by (auto simp: gate_inv_def)
  then have "sums s = map work [0..<n]" using assms(2) by (intro nth_equalityI) (auto simp: gate_inv_def all_done_def)
  then show ?thesis using return assms(2) d by (auto simp: gate_inv_def)
qed (use assms(2) in \<open>auto simp: gate_inv_def all_done_Suc all_done_def [of 0]\<close>)

lemma gate_reachable_inv: "gate_reachable n work s \<Longrightarrow> gate_inv n work s"
proof (induction rule: gate_reachable.induct)
  case init
  show ?case by (simp add: gate_start_def gate_inv_def arrived_def)
next
  case (step s s')
  then show ?case using gate_inv_worker gate_inv_main by (auto simp: gate_step_def)
qed

text \<open>Every step decreases the measure, and a run that has not returned has a step.\<close>

fun gate_rank :: "bench_worker \<Rightarrow> nat" where
  "gate_rank B_Start = 3"
| "gate_rank B_Wait = 2"
| "gate_rank B_Work = 1"
| "gate_rank B_Done = 0"

fun gate_main_rank :: "nat \<Rightarrow> nat \<Rightarrow> bench_main_pc \<Rightarrow> nat" where
  "gate_main_rank n created R_Create = 4 * (n - created) + n + 3"
| "gate_main_rank n created R_Release = n + 2"
| "gate_main_rank n created R_WaitReady = n + 2"
| "gate_main_rank n created (R_Join k) = n + 1 - k"
| "gate_main_rank n created (R_FailJoin k) = n + 1 - k"
| "gate_main_rank n created (R_Return r) = 0"

definition gate_measure :: "nat \<Rightarrow> gate_sys \<Rightarrow> nat" where
  "gate_measure n s = gate_main_rank n (length (threads s)) (main_pc s) + sum_list (map gate_rank (threads s))"

lemma gate_rank_update:
  "i < length ts \<Longrightarrow> gate_rank t < gate_rank (ts ! i) \<Longrightarrow>
   sum_list (map gate_rank (ts[i := t])) < sum_list (map gate_rank ts)"
proof (induction ts arbitrary: i)
  case (Cons a ts)
  then show ?case by (cases i) auto
qed simp

lemma gate_step_decreases:
  assumes "gate_inv n work s" "gate_step n work s s'"
  shows "gate_measure n s' < gate_measure n s"
  using assms(2) unfolding gate_step_def
proof
  assume "bench_worker_step work s s'"
  then show ?thesis
  proof cases
    case (arrive i)
    then show ?thesis using gate_rank_update [of i "threads s" B_Wait] by (simp add: gate_measure_def)
  next
    case (released i)
    then show ?thesis using gate_rank_update [of i "threads s" B_Work] by (simp add: gate_measure_def)
  next
    case (finish i)
    then show ?thesis using gate_rank_update [of i "threads s" B_Done] by (simp add: gate_measure_def)
  qed
next
  assume "bench_main_step n s s'"
  then show ?thesis using assms(1) by cases (auto simp: gate_measure_def gate_inv_def all_done_def)
qed

lemma gate_worker_moves:
  assumes "i < length (threads s)" "threads s ! i \<noteq> B_Done" "threads s ! i = B_Wait \<longrightarrow> go s"
  shows "\<exists>s'. bench_worker_step work s s'"
proof (cases "threads s ! i")
  case B_Start
  then show ?thesis using bench_worker_step.arrive [OF assms(1)] by blast
next
  case B_Wait
  then show ?thesis using bench_worker_step.released [OF assms(1)] assms(3) by blast
next
  case B_Work
  then show ?thesis using bench_worker_step.finish [OF assms(1)] by blast
qed (use assms(2) in simp)

lemma gate_progress:
  assumes "gate_inv n work s" "\<forall>r. main_pc s \<noteq> R_Return r"
  shows "\<exists>s'. gate_step n work s s'"
proof (cases "main_pc s")
  case R_Create
  have "length (threads s) < n \<or> length (threads s) = n" using assms(1) by (auto simp: gate_inv_def)
  then show ?thesis using R_Create bench_main_step.create bench_main_step.created unfolding gate_step_def by blast
next
  case R_Release
  then show ?thesis using bench_main_step.release unfolding gate_step_def by blast
next
  case R_WaitReady
  show ?thesis
  proof (cases "arrived (threads s) = n")
    case True
    then have "ready s = int n" using assms(1) by (simp add: gate_inv_def)
    then show ?thesis using bench_main_step.all_ready [OF R_WaitReady] unfolding gate_step_def by blast
  next
    case False
    then have "B_Start \<in> set (threads s)" using assms(1) R_WaitReady arrived_full [of "threads s"] by (auto simp: gate_inv_def)
    then obtain i where "i < length (threads s)" "threads s ! i = B_Start" by (auto simp: in_set_conv_nth)
    then show ?thesis using gate_worker_moves [of i s] unfolding gate_step_def by auto
  qed
next
  case (R_Join k)
  then have g: "go s" "length (threads s) = n" "k \<le> n" using assms(1) by (auto simp: gate_inv_def all_done_def)
  show ?thesis
  proof (cases "k < n \<and> threads s ! k \<noteq> B_Done")
    case True
    then show ?thesis using gate_worker_moves [of k s] g unfolding gate_step_def by auto
  next
    case False
    then show ?thesis using bench_main_step.join [OF R_Join] bench_main_step.return [OF R_Join] g
      unfolding gate_step_def by (metis le_neq_implies_less)
  qed
next
  case (R_FailJoin k)
  then have g: "go s" "k \<le> length (threads s)" using assms(1) by (auto simp: gate_inv_def all_done_def)
  show ?thesis
  proof (cases "k < length (threads s) \<and> threads s ! k \<noteq> B_Done")
    case True
    then show ?thesis using gate_worker_moves [of k s] g unfolding gate_step_def by auto
  next
    case False
    then show ?thesis using bench_main_step.fail_join [OF R_FailJoin] bench_main_step.fail_return [OF R_FailJoin] g
      unfolding gate_step_def by (metis le_neq_implies_less)
  qed
qed (use assms(2) in blast)

section \<open>Theorems\<close>


text \<open>A run of one worker up to its return.\<close>

lemma sample_gate: "\<exists>s. gate_reachable 1 (\<lambda>_. 7) s \<and> main_pc s = R_Return 0 \<and> length (threads s) = 1"
proof -
  let ?s1 = "(gate_start 1)\<lparr>threads := [B_Start]\<rparr>"
  let ?s2 = "?s1\<lparr>main_pc := R_WaitReady\<rparr>"
  let ?s3 = "?s2\<lparr>ready := 1, threads := [B_Wait]\<rparr>"
  let ?s4 = "?s3\<lparr>go := True, main_pc := R_Join 0\<rparr>"
  let ?s5 = "?s4\<lparr>threads := [B_Work]\<rparr>"
  let ?s6 = "?s5\<lparr>threads := [B_Done], sums := [7]\<rparr>"
  let ?s7 = "?s6\<lparr>main_pc := R_Join 1\<rparr>"
  let ?s8 = "?s7\<lparr>total := 7, main_pc := R_Return 0\<rparr>"
  have "gate_step 1 (\<lambda>_. 7) (gate_start 1) ?s1" "gate_step 1 (\<lambda>_. 7) ?s1 ?s2"
    using bench_main_step.create [of "gate_start 1" 1] bench_main_step.created [of ?s1 1] by (simp_all add: gate_step_def gate_start_def)
  moreover have "gate_step 1 (\<lambda>_. 7) ?s2 ?s3" "gate_step 1 (\<lambda>_. 7) ?s3 ?s4"
    using bench_worker_step.arrive [of 0 ?s2] bench_main_step.all_ready [of ?s3 1] by (simp_all add: gate_step_def gate_start_def)
  moreover have "gate_step 1 (\<lambda>_. 7) ?s4 ?s5" "gate_step 1 (\<lambda>_. 7) ?s5 ?s6"
    using bench_worker_step.released [of 0 ?s4] bench_worker_step.finish [of 0 ?s5 "\<lambda>_. 7"] by (simp_all add: gate_step_def gate_start_def)
  moreover have "gate_step 1 (\<lambda>_. 7) ?s6 ?s7" "gate_step 1 (\<lambda>_. 7) ?s7 ?s8"
    using bench_main_step.join [of ?s6 0 1] bench_main_step.return [of ?s7 1 1 7] by (simp_all add: gate_step_def gate_start_def)
  ultimately have "gate_reachable 1 (\<lambda>_. 7) ?s8" by (meson gate_reachable.intros)
  then show ?thesis by (intro exI [of _ ?s8]) simp
qed


lemma step_keeps_threads:
  assumes "gate_step n work s s'" "main_pc s \<noteq> R_Create"
  shows "length (threads s') = length (threads s) \<and> main_pc s' \<noteq> R_Create"
  using assms(1) unfolding gate_step_def
proof
  assume "bench_worker_step work s s'"
  then show ?thesis using assms(2) by cases auto
next
  assume "bench_main_step n s s'"
  then show ?thesis using assms(2) by cases auto
qed

lemma run_returns:
  assumes "gate_reachable n work s" "main_pc s \<noteq> R_Create"
  shows "\<exists>s' r. gate_reachable n work s' \<and> main_pc s' = R_Return r \<and> length (threads s') = length (threads s)"
  using assms
proof (induction "gate_measure n s" arbitrary: s rule: less_induct)
  case less
  show ?case
  proof (cases "\<exists>r. main_pc s = R_Return r")
    case False
    have inv: "gate_inv n work s" by (rule gate_reachable_inv [OF less.prems(1)])
    with False obtain s' where st: "gate_step n work s s'" using gate_progress by blast
    note k = step_keeps_threads [OF st less.prems(2)]
    from less.hyps [OF gate_step_decreases [OF inv st] gate_reachable.step [OF less.prems(1) st]] k show ?thesis by auto
  qed (use less.prems in blast)
qed

lemma failures_cancel:
  assumes "kind \<noteq> WORK_COMPUTE"
  shows "foldl (XOR) 0 (map (\<lambda>i. worker_checksum kind (seed i) rounds bytes False) [0..<2 * n]) = 0"
proof (induction n)
  case (Suc n)
  have "[0..<2 * Suc n] = [0..<2 * n] @ [2 * n, Suc (2 * n)]" by simp
  then show ?case using Suc assms by (simp add: worker_checksum_def)
qed simp

text \<open>
  Claim C37. The failure marker of the benchmark is not reliable: the checksum of a worker that could
  not allocate its buffers is all ones and two of them cancel, so a memory run of an even number of
  workers, all created and all of them without buffers, always returns 0, the report of a success.
\<close>

theorem allocation_failures_cancel:
  assumes "kind \<noteq> WORK_COMPUTE" "gate_reachable (2 * n) (\<lambda>i. worker_checksum kind (seed i) rounds bytes False) s"
    and "main_pc s = R_Return r" "length (threads s) = 2 * n"
  shows "r = 0 \<and> total s = 0"
  using gate_reachable_inv [OF assms(2)] assms(3,4) failures_cancel [OF assms(1), of seed rounds bytes n]
  by (simp add: gate_inv_def)

theorem allocation_failures_cancel_witness:
  "\<exists>s r. gate_reachable (2 * 1) (\<lambda>i. worker_checksum WORK_MEMCPY (of_nat i) 8 8388608 False) s \<and> main_pc s = R_Return r \<and> r = 0"
proof -
  let ?w = "\<lambda>i. worker_checksum WORK_MEMCPY (of_nat i) 8 8388608 False"
  let ?s1 = "(gate_start 2)\<lparr>threads := [B_Start]\<rparr>"
  let ?s2 = "?s1\<lparr>threads := [B_Start, B_Start]\<rparr>"
  let ?s3 = "?s2\<lparr>main_pc := R_WaitReady\<rparr>"
  have "gate_step 2 ?w (gate_start 2) ?s1" "gate_step 2 ?w ?s1 ?s2" "gate_step 2 ?w ?s2 ?s3"
    using bench_main_step.create [of "gate_start 2" 2] bench_main_step.create [of ?s1 2] bench_main_step.created [of ?s2 2]
    by (simp_all add: gate_step_def gate_start_def)
  then have "gate_reachable 2 ?w ?s3" by (meson gate_reachable.intros)
  from run_returns [OF this] obtain s r where "gate_reachable (2 * 1) ?w s" "main_pc s = R_Return r" "length (threads s) = 2 * 1"
    by auto
  with allocation_failures_cancel [of WORK_MEMCPY 1 "\<lambda>i. of_nat i" 8 8388608 s r] show ?thesis by auto
qed

end
