(* ===== verification/Bench_Program.thy ===== *)
theory Bench_Program
  imports Bench
begin

text \<open>
  The benchmark program as a whole (\<^verbatim>\<open>toolkit/share/vita-bench.c\<close>): the framebuffer write and
  \<^verbatim>\<open>main\<close> with its report. The runs are those of \<open>Bench\<close>, given here by their results; the rates are
  floating-point numbers printed with three decimals and enter the report as text. The kernel and
  the allocator are parameters.
\<close>

section \<open>The framebuffer write\<close>

record 'w bench_os =
  bench_malloc :: "nat \<Rightarrow> 'w \<Rightarrow> bool"
  bench_open :: "string \<Rightarrow> 'w \<Rightarrow> int \<times> 'w"
  bench_write :: "int \<Rightarrow> u8 list \<Rightarrow> 'w \<Rightarrow> int \<times> 'w"
  bench_close :: "int \<Rightarrow> 'w \<Rightarrow> 'w"

fun write_frame :: "nat \<Rightarrow> 'w bench_os \<Rightarrow> int \<Rightarrow> u8 list \<Rightarrow> nat \<Rightarrow> 'w \<Rightarrow> (bool \<times> 'w) option" where
  "write_frame 0 os f fr written w = None"
| "write_frame (Suc fuel) os f fr written w =
     (if written < length fr
      then case bench_write os f (drop written fr) w of (result, w) \<Rightarrow>
        if result \<le> 0 then Some (False, bench_close os f w)
        else write_frame fuel os f fr (written + nat result) w
      else Some (True, w))"

text \<open>The result is the size of the frame, \<open>None\<close> for the status -1; outside, \<open>None\<close> means out of fuel.\<close>

definition run_framebuffer ::
    "nat \<Rightarrow> 'w bench_os \<Rightarrow> (string \<Rightarrow> string option) \<Rightarrow> string \<Rightarrow> 'w \<Rightarrow> (size_t option \<times> 'w) option" where
  "run_framebuffer fuel os fs root w =
     (case (read_fb_metadata fs root, rooted_path root ''/dev/fb0'' 256) of
        (Some bytes, Some path) \<Rightarrow>
          if \<not> bench_malloc os (unat bytes) w then Some (None, w)
          else case bench_open os path w of (descriptor, w) \<Rightarrow>
            if descriptor < 0 then Some (None, w)
            else do {
              (ok, w) \<leftarrow> write_frame fuel os descriptor (replicate (unat bytes) 0) 0 w;
              Some (if ok then (Some bytes, bench_close os descriptor w) else (None, w))
            }
      | _ \<Rightarrow> Some (None, w))"

section \<open>The report\<close>

abbreviation NL :: string where "NL \<equiv> [CHR 0x0A]"

definition kind_name :: "work_kind \<Rightarrow> string" where
  "kind_name kind = (case kind of WORK_COMPUTE \<Rightarrow> ''compute'' | WORK_MEMCPY \<Rightarrow> ''memcpy'' | WORK_MEMSET \<Rightarrow> ''memset'')"

text \<open>\<^verbatim>\<open>%-7s\<close>.\<close>

definition pad7 :: "string \<Rightarrow> string" where
  "pad7 s = s @ replicate (7 - length s) (CHR '' '')"

definition print_result :: "string \<Rightarrow> nat \<Rightarrow> string \<Rightarrow> bool \<Rightarrow> string" where
  "print_result name n rate machine =
     (if machine then name @ ''_'' @ dec n @ ''_workers_mib_s='' @ rate @ NL
      else ''  '' @ pad7 name @ '' '' @ dec n @ '' workers: '' @ rate @ '' MiB/s'' @ NL)"

definition print_compute :: "nat \<Rightarrow> string \<Rightarrow> bool \<Rightarrow> string" where
  "print_compute n rate machine =
     (if machine then ''compute_'' @ dec n @ ''_workers_mops='' @ rate @ NL
      else ''  compute '' @ dec n @ '' workers: '' @ rate @ '' Mops/s'' @ NL)"

definition print_run :: "bool \<Rightarrow> (work_kind \<times> nat \<Rightarrow> string) \<Rightarrow> work_kind \<times> nat \<Rightarrow> string" where
  "print_run machine rate r =
     (case r of (kind, n) \<Rightarrow>
        if kind = WORK_COMPUTE then print_compute n (rate r) machine else print_result (kind_name kind) n (rate r) machine)"

definition bench_maximum :: "bench_options \<Rightarrow> int \<Rightarrow> nat" where
  "bench_maximum opts cpus = (if requested opts \<noteq> 0 then requested opts else online_worker_limit cpus)"

definition bench_header :: "bench_options \<Rightarrow> string \<Rightarrow> nat \<Rightarrow> string" where
  "bench_header opts online maximum =
     (case bench_sizes opts of (bytes, rounds, millions) \<Rightarrow>
        if bench_machine opts
        then ''schema=1'' @ NL @ ''online_cpus='' @ online @ NL @ ''workers_requested='' @ dec maximum @ NL @
          ''mode='' @ (if quick opts then ''quick'' else ''full'') @ NL @ ''buffer_bytes='' @ dec bytes @ NL @
          ''memory_rounds='' @ dec (unat rounds) @ NL
        else ''Vita Linux benchmark ('' @ (if quick opts then ''quick'' else ''full'') @ '', '' @ dec maximum @
          '' worker'' @ (if maximum = 1 then [] else ''s'') @ '')'' @ NL @
          ''  online CPUs: '' @ online @ NL @ ''  buffer: '' @ dec bytes @ '' bytes'' @ NL)"

definition framebuffer_lines :: "bool \<Rightarrow> size_t \<Rightarrow> string \<Rightarrow> string" where
  "framebuffer_lines machine bytes rate =
     (if machine
      then ''framebuffer=enabled'' @ NL @ ''framebuffer_bytes='' @ dec (unat bytes) @ NL @ ''framebuffer_write_mib_s='' @ rate @ NL
      else ''  framebuffer write: '' @ dec (unat bytes) @ '' bytes at '' @ rate @ '' MiB/s'' @ NL)"

definition skipped_line :: "bool \<Rightarrow> string" where
  "skipped_line machine =
     (if machine then ''framebuffer=skipped'' @ NL
      else ''  framebuffer write: skipped (use --framebuffer explicitly)'' @ NL)"

definition bench_usage :: string where
  "bench_usage = ''usage: vita-bench [--machine] [--quick] [--workers N] [--framebuffer]'' @ NL"

text \<open>The three runs of each worker count, in order; the first run that fails ends the program.\<close>

fun run_counts :: "bool \<Rightarrow> (work_kind \<times> nat \<Rightarrow> int) \<Rightarrow> (work_kind \<times> nat \<Rightarrow> string) \<Rightarrow> (work_kind \<times> nat) list \<Rightarrow> string \<times> bool" where
  "run_counts machine run rate [] = ([], True)"
| "run_counts machine run rate (r # rs) =
     (if run r \<noteq> 0 then ([], False)
      else case run_counts machine run rate rs of (out, ok) \<Rightarrow> (print_run machine rate r @ out, ok))"

text \<open>\<^verbatim>\<open>main\<close>: the exit status, the standard output and the world; messages on the error stream are left out.\<close>

definition bench_main ::
    "nat \<Rightarrow> 'w bench_os \<Rightarrow> (string \<Rightarrow> string option) \<Rightarrow> string option \<Rightarrow> int \<Rightarrow> (work_kind \<times> nat \<Rightarrow> int)
     \<Rightarrow> (work_kind \<times> nat \<Rightarrow> string) \<Rightarrow> string \<Rightarrow> string list \<Rightarrow> 'w \<Rightarrow> (int \<times> string \<times> 'w) option" where
  "bench_main fuel os fs env_root cpus run rate fb_rate args w =
     (let root = (case env_root of None \<Rightarrow> ''/'' | Some root \<Rightarrow> root)
      in case bench_arguments args default_bench_options of
        Inl status \<Rightarrow> Some (status, if status = 0 then bench_usage else [], w)
      | Inr opts \<Rightarrow>
          let maximum = bench_maximum opts cpus;
              head = bench_header opts (read_online_cpus fs root 64) maximum
          in case run_counts (bench_machine opts) run rate (bench_runs opts cpus) of
               (out, False) \<Rightarrow> Some (1, head @ out, w)
             | (out, True) \<Rightarrow>
                 if bench_framebuffer opts
                 then (case run_framebuffer fuel os fs root w of
                         None \<Rightarrow> None
                       | Some (None, w) \<Rightarrow> Some (1, head @ out, w)
                       | Some (Some bytes, w) \<Rightarrow> Some (0, head @ out @ framebuffer_lines (bench_machine opts) bytes fb_rate, w))
                 else Some (0, head @ out @ skipped_line (bench_machine opts), w))"

section \<open>The write is complete\<close>

text \<open>
  What the kernel promises: \<open>opened\<close> are the open descriptors and \<open>sink\<close> the bytes the framebuffer was
  given; a positive result of a write is the number of bytes taken from the front of the data.
\<close>

definition bench_os_ok :: "'w bench_os \<Rightarrow> ('w \<Rightarrow> int set) \<Rightarrow> ('w \<Rightarrow> u8 list) \<Rightarrow> bool" where
  "bench_os_ok os opened sink \<longleftrightarrow>
     (\<forall>p w f w'. bench_open os p w = (f, w') \<longrightarrow> sink w' = sink w \<and>
        (if 0 \<le> f then f \<notin> opened w \<and> opened w' = insert f (opened w) else opened w' = opened w)) \<and>
     (\<forall>f data w r w'. bench_write os f data w = (r, w') \<longrightarrow> opened w' = opened w \<and> r \<le> int (length data) \<and>
        sink w' = sink w @ take (nat r) data) \<and>
     (\<forall>f w. opened (bench_close os f w) = opened w - {f} \<and> sink (bench_close os f w) = sink w)"

lemma write_frame_outcome:
  assumes "bench_os_ok os opened sink" "written \<le> n" "n < written + fuel"
  shows "\<exists>ok w' m. write_frame fuel os f (replicate n 0) written w = Some (ok, w') \<and>
    opened w' = (if ok then opened w else opened w - {f}) \<and> sink w' = sink w @ replicate m 0 \<and> (ok \<longrightarrow> m = n - written)"
  using assms(2,3)
proof (induction fuel arbitrary: written w)
  case (Suc fuel)
  show ?case
  proof (cases "written < n")
    case True
    obtain r w1 where r: "bench_write os f (replicate (n - written) 0) w = (r, w1)" by fastforce
    have "opened w1 = opened w \<and> r \<le> int (length (replicate (n - written) (0 :: u8))) \<and>
        sink w1 = sink w @ take (nat r) (replicate (n - written) 0)"
      using assms(1) r unfolding bench_os_ok_def by blast
    then have w1: "opened w1 = opened w" "r \<le> int (n - written)" "sink w1 = sink w @ replicate (nat r) 0"
      by (auto simp: min_def nat_le_iff)
    have c: "opened (bench_close os f w1) = opened w1 - {f}" "sink (bench_close os f w1) = sink w1"
      using assms(1) by (simp_all add: bench_os_ok_def)
    show ?thesis
    proof (cases "r \<le> 0")
      case True
      with \<open>written < n\<close> r w1 c show ?thesis by (auto intro: exI [of _ 0])
    next
      case False
      then have "written + nat r \<le> n" "n < written + nat r + fuel" using w1(2) True Suc.prems by linarith+
      from Suc.IH [OF this, of w1] obtain ok w' m where "write_frame fuel os f (replicate n 0) (written + nat r) w1 = Some (ok, w')"
        "opened w' = (if ok then opened w1 else opened w1 - {f})" "sink w' = sink w1 @ replicate m 0"
        "ok \<longrightarrow> m = n - (written + nat r)" by blast
      with False True r w1 show ?thesis by (intro exI [of _ ok] exI [of _ w'] exI [of _ "nat r + m"]) (auto simp: replicate_add)
    qed
  qed (use Suc.prems in \<open>auto intro: exI [of _ 0]\<close>)
qed simp

text \<open>
  The framebuffer write of the benchmark always returns, within one more step than the frame
  has bytes, and however it ends the descriptor is closed and only zero bytes have been written. When it
  reports success, exactly as many as the height times the stride of the framebuffer.
\<close>

theorem framebuffer_write_complete:
  assumes "bench_os_ok os opened sink" "\<forall>bytes. read_fb_metadata fs root = Some bytes \<longrightarrow> unat bytes < fuel"
  shows "\<exists>result w' m. run_framebuffer fuel os fs root w = Some (result, w') \<and> opened w' = opened w \<and>
    sink w' = sink w @ replicate m 0 \<and>
    (\<forall>bytes. result = Some bytes \<longrightarrow> read_fb_metadata fs root = Some bytes \<and> m = unat bytes)"
proof (cases "\<exists>bytes path. read_fb_metadata fs root = Some bytes \<and> rooted_path root ''/dev/fb0'' 256 = Some path \<and>
    bench_malloc os (unat bytes) w")
  case False
  then have "run_framebuffer fuel os fs root w = Some (None, w)" by (auto simp: run_framebuffer_def split: option.splits)
  then show ?thesis by (auto intro: exI [of _ 0])
next
  case True
  then obtain bytes path where a: "read_fb_metadata fs root = Some bytes" "rooted_path root ''/dev/fb0'' 256 = Some path"
    "bench_malloc os (unat bytes) w" by blast
  obtain f w1 where o: "bench_open os path w = (f, w1)" by fastforce
  then have w1: "sink w1 = sink w" "if 0 \<le> f then f \<notin> opened w \<and> opened w1 = insert f (opened w) else opened w1 = opened w"
    using assms(1) unfolding bench_os_ok_def by blast+
  show ?thesis
  proof (cases "f < 0")
    case True
    then have "run_framebuffer fuel os fs root w = Some (None, w1)" by (simp add: run_framebuffer_def a o)
    then show ?thesis using w1 True by (auto intro: exI [of _ 0])
  next
    case False
    obtain ok w2 m where w2: "write_frame fuel os f (replicate (unat bytes) 0) 0 w1 = Some (ok, w2)"
      "opened w2 = (if ok then opened w1 else opened w1 - {f})" "sink w2 = sink w1 @ replicate m 0" "ok \<longrightarrow> m = unat bytes"
      using write_frame_outcome [OF assms(1), of 0 "unat bytes" fuel f w1] assms(2) a(1) by auto
    have c: "opened (bench_close os f w2) = opened w2 - {f}" "sink (bench_close os f w2) = sink w2"
      using assms(1) by (simp_all add: bench_os_ok_def)
    have "run_framebuffer fuel os fs root w = Some (if ok then (Some bytes, bench_close os f w2) else (None, w2))"
      using False by (simp add: run_framebuffer_def a o w2(1))
    then show ?thesis using w1 w2 c False a(1) by (cases ok) auto
  qed
qed

section \<open>The report is the runs\<close>

lemma run_counts_eq:
  "run_counts machine run rate rs =
     (concat (map (print_run machine rate) (takeWhile (\<lambda>r. run r = 0) rs)), list_all (\<lambda>r. run r = 0) rs)"
  by (induction rs) auto

lemma arguments_workers: "bench_arguments args opts = Inr opts' \<Longrightarrow> requested opts \<le> 4 \<Longrightarrow> requested opts' \<le> 4"
  by (induction args opts rule: bench_arguments.induct) (auto simp: Let_def split: if_splits list.splits)

lemma counts_bounds: "0 < index \<Longrightarrow> n \<in> set (bench_counts asked maximum index) \<Longrightarrow> 1 \<le> n \<and> n \<le> maximum"
proof (induction asked maximum index rule: bench_counts.induct)
  case (1 asked maximum index)
  then show ?case by (subst (asm) bench_counts.simps) (auto split: if_splits)
qed

lemma runs_bounds:
  assumes "requested opts \<le> 4" "(kind, n) \<in> set (bench_runs opts cpus)"
  shows "1 \<le> n \<and> n \<le> 4"
proof -
  have "n \<in> set (bench_counts (requested opts) (bench_maximum opts cpus) (if requested opts \<noteq> 0 then requested opts else 1))"
    using assms(2) by (auto simp: bench_runs_def bench_maximum_def Let_def split: if_splits)
  from counts_bounds [OF _ this] have "1 \<le> n \<and> n \<le> bench_maximum opts cpus" by (simp split: if_splits)
  moreover have "bench_maximum opts cpus \<le> 4" using assms(1) by (auto simp: bench_maximum_def online_worker_limit_def nat_le_iff)
  ultimately show ?thesis by linarith
qed


section \<open>A concrete run\<close>

text \<open>A framebuffer of four lines of four bytes that takes three bytes at a time; the world is what it was given and the open descriptors.\<close>

definition small_os :: "(u8 list \<times> int list) bench_os" where
  "small_os = \<lparr>bench_malloc = (\<lambda>n w. True), bench_open = (\<lambda>p w. if snd w = [] then (3, fst w, [3]) else (- 1, w)),
     bench_write = (\<lambda>f data w. (int (length (take 3 data)), fst w @ take 3 data, snd w)),
     bench_close = (\<lambda>f w. (fst w, removeAll f (snd w)))\<rparr>"

lemma small_os_ok: "bench_os_ok small_os (set \<circ> snd) fst"
  by (auto simp: bench_os_ok_def small_os_def min_def)

definition small_fs :: "string \<Rightarrow> string option" where
  "small_fs path = (if path = ''/r/sys/class/graphics/fb0/virtual_size'' then Some ''2,4''
     else if path = ''/r/sys/class/graphics/fb0/stride'' then Some ''4'' else None)"

lemma small_scan: "scan_u ''2,4'' = Some (2, '',4'')" "scan_u ''4'' = Some (4, [])"
proof -
  have d: "dec 2 = ''2''" "dec 4 = ''4''" by (simp_all add: dec.simps digit_def char_of_def bit_numeral_rec bit_0)
  have "strtou 32 (dec 2 @ '',4'') = (2, False, '',4'')" "strtou 32 (dec 4 @ []) = (4, False, [])"
    by (rule strtou_dec; simp add: is_digit_def)+
  then show "scan_u ''2,4'' = Some (2, '',4'')" "scan_u ''4'' = Some (4, [])" by (simp_all add: d scan_u_def)
qed

lemma small_metadata: "read_fb_metadata small_fs ''/r'' = Some 16"
  by (simp add: read_fb_metadata_def rooted_path_def small_fs_def small_scan)

theorem framebuffer_write_complete_witness:
  "\<exists>result w'. run_framebuffer 17 small_os small_fs ''/r'' ([], []) = Some (result, w') \<and> snd w' = []"
proof -
  have "\<forall>bytes. read_fb_metadata small_fs ''/r'' = Some bytes \<longrightarrow> unat bytes < 17" by (simp add: small_metadata)
  from framebuffer_write_complete [OF small_os_ok this, of "([], [])"] show ?thesis by auto
qed


end
