(* ===== verification/Spec2Isabelle.thy ===== *)
theory Spec2Isabelle
  imports V01_Program Demo_Program Stale_Input Fbserve Control Inputwatch Bench_Program
begin

text \<open>
  \<^bold>\<open>The demo cart and its toolkit.\<close> The repository ports Linux to the PlayStation TV. Its own programs
  are a demo (\<^verbatim>\<open>cart/\<close>), which shows six animated scenes on the framebuffer with crossfades and is
  controlled by evdev devices and SIGUSR1, and four tools (\<^verbatim>\<open>toolkit/share/\<close>): a framebuffer server, a
  remote control that signals the demo, an input watcher and a benchmark. This development models
  these C programs function by function and proves what makes them correct. The target is 32-bit
  ARM: \<^verbatim>\<open>int\<close>, \<^verbatim>\<open>long\<close> and \<^verbatim>\<open>size_t\<close> have 32 bits.

  \<^bold>\<open>Conventions\<close> (\<open>Cart_Prelude\<close>, \<open>C_Text\<close>). Unsigned integers are words; signed ones are \<open>int\<close> with
  \<open>i32\<close> and \<open>i64\<close> marking where an overflow would be undefined. Pixel buffers are lists in a store
  addressed by pointers, so that two pointers may name one buffer; an access outside a buffer is
  undefined. A partial function has an \<open>option\<close> result with \<open>None\<close> for undefined behaviour, and the
  theorems show that it is \<open>Some\<close>. Counting loops are \<open>for_int\<close> with one invariant rule. \<open>C_Text\<close> has
  the decimal conversions, \<^verbatim>\<open>strtoul\<close> and the round trip between them.

  \<^bold>\<open>The demo.\<close>
  \<^item> \<open>Canvas\<close> (\<^verbatim>\<open>canvas.c\<close>): geometry, clipped drawing, colour mixing, PPM output. Clipped drawing is
    shown equal to painting the unclipped shape, without a store outside the buffer.
  \<^item> \<open>Transition\<close> (\<^verbatim>\<open>transition.c\<close>): the crossfade; its weight, its length and the bound on the change
    of a channel per frame, the photosensitivity guarantee.
  \<^item> \<open>Runtime\<close> (\<^verbatim>\<open>runtime.c\<close>): scene scheduling and deadlines; the scene stays valid, changes respect
    the cooldown over every sequence of operations, the sleep is bounded.
  \<^item> \<open>Presentation\<close> (\<^verbatim>\<open>presentation.c\<close>): the fourfold enlargement.
  \<^item> \<open>Legacy_Scenes\<close> (\<^verbatim>\<open>scene_2d_legacy.c\<close>) and \<open>Scene_Registry\<close> (\<^verbatim>\<open>scenes_builtin.c\<close>): the scenes are
    total, a row pass fills exactly its band, an overlay stays in its canvas. The table of sines,
    computed with \<^verbatim>\<open>sinf\<close>, is a parameter; the hypothesis \<open>sine_bounded\<close> is that scaled entries are
    between -1024 and 1024.
  \<^item> \<open>Worker_Pool\<close> (\<^verbatim>\<open>worker_pool.c\<close>): the pool as a step relation over all interleavings with barriers
    and the startup gate; invariants by rule induction, no deadlock, no endless run, every band once.
    The locale \<open>band_job\<close> is the contract of a job; \<open>Demo_Render\<close> interprets it on the row passes.
  \<^item> \<open>Input_Actions\<close>, \<open>Input_Normalize\<close>, \<open>Input_Evdev\<close>, \<open>Input_Poll\<close>, \<open>Input_Session\<close>
    (\<^verbatim>\<open>input_actions.c\<close>, \<^verbatim>\<open>input_normalize.c\<close>, \<^verbatim>\<open>input_evdev.c\<close>): key table, axis percentages, discovery
    and ranking of devices, the pump of the event stream, desynchronisation and disconnects, the
    merged frame, and whole sessions (type invariant, no descriptor leaked). The system calls are the
    record \<open>cart_input_ops\<close> on an arbitrary world.
  \<^item> \<open>Input_Default\<close> (\<^verbatim>\<open>input_evdev.c\<close>): the table of operations the demo installs, over the kernel's
    \<^verbatim>\<open>open\<close>, \<^verbatim>\<open>close\<close>, \<^verbatim>\<open>read\<close> and \<^verbatim>\<open>ioctl\<close>, and \<^verbatim>\<open>cart_input_init\<close>. It keeps every promise the sessions
    rely on, and through it the probes see the capabilities of the device.
  \<^item> \<open>Demo_Render\<close> and \<open>Demo_Loop\<close> (\<^verbatim>\<open>pstv-demo-cart.c\<close>): rendering through the pool equals sequential
    rendering; the main loop is a step relation with the loop invariant, what each picture shows,
    and that a fade completes without a flash.
  \<^item> \<open>Demo_Program\<close> (\<^verbatim>\<open>pstv-demo-cart.c\<close>): \<^verbatim>\<open>main\<close> from the command line to the exit, composed of the loop, the
    pool, the input session over the production table and the framebuffer, with every failure path:
    what is released, that leaving the loop ends the program, that a stop request is prompt, and that
    no device is connected after the start.

  \<^bold>\<open>Earlier versions in the repository.\<close>
  \<^item> \<open>V01_Scenes\<close> and \<open>V01_Program\<close> (\<^verbatim>\<open>cart/provenance/v0.1/pstv-demo-cart.c\<close>): the archived first release,
    with its own drawing code, four threads per frame as a step relation in which a store of one pixel
    is a step, its loop and its \<^verbatim>\<open>main\<close>. Every frame it draws, under every interleaving, is the frame of the
    present renderer, and the two dump modes write the same files, so the captures made with the first
    release are valid references for the present one; what differs is the limit on scene changes.
  \<^item> \<open>Stale_Input\<close> (\<^verbatim>\<open>cart/src/input.c\<close>): the single-device reader that \<^verbatim>\<open>input_evdev.c\<close> replaced and the
    build no longer compiles: parsing of sysfs files, ranking, discovery, poll and close. The two
    sizes its header no longer defines are parameters or those of the present header.

  \<^bold>\<open>The toolkit.\<close>
  \<^item> \<open>Bitmap\<close> and \<open>Fbserve\<close> (\<^verbatim>\<open>vita-fbserve.c\<close>): the bitmap with a decoder as its specification, and the
    request handler: it returns and sends the one answer the request deserves.
  \<^item> \<open>Control\<close> (\<^verbatim>\<open>vita-control.c\<close>): the target is verified before a signal, signals are spaced over whole
    sessions, the state file and the retry hint are exact.
  \<^item> \<open>Inputwatch\<close> (\<^verbatim>\<open>vita-inputwatch.c\<close>): the report counts exactly the events of the stream read.
  \<^item> \<open>Bench\<close> and \<open>Bench_Program\<close> (\<^verbatim>\<open>vita-bench.c\<close>): the start gate under every interleaving, the checksum,
    the framebuffer write (complete, descriptor closed) and the report of the runs.

  This theory adds what spans the parts: the screenshot the server takes of the running demo decodes
  to the frame the demo drew.

  \<^bold>\<open>Fuel.\<close> Loops around system calls that may be interrupted take fuel (\<open>pump_source\<close>, \<open>send_all\<close>,
  \<open>fill_frame\<close>, \<open>recv_request\<close>, \<open>watch\<close>, \<open>write_frame\<close>). Their theorems give a bound that is enough: the bytes still to
  move plus the number of interruptions ahead, a measure of the world that the hypothesis on the
  kernel (\<open>serve_kernel\<close>, \<open>watch_kernel\<close>, \<open>delivers\<close>) decreases. A frame of 3686400 bytes, a bitmap of
  172854 and a request of 4096 fit in the 4000000 of the request handler. The accept loop of the
  server and the loop of the demo run until they are stopped; no bound is claimed for them.

  \<^bold>\<open>Not modelled.\<close> Text of usage and diagnostic messages; the times the benchmark measures (its rates
  enter the report as text); the values of \<^verbatim>\<open>sinf\<close>; the memory model below locks, barriers and signal
  flags, whose operations are atomic steps. Scripts, board files and documentation are outside the C
  programs.
\<close>

section \<open>The screenshot of the running demo\<close>

text \<open>The bytes of a pixel in memory; the target is little endian.\<close>

definition word_bytes :: "u32 \<Rightarrow> u8 list" where
  "word_bytes c = [ucast (c AND 0xff), ucast (drop_bit 8 c AND 0xff), ucast (drop_bit 16 c AND 0xff), ucast (drop_bit 24 c)]"

definition memory_bytes :: "u32 list \<Rightarrow> u8 list" where
  "memory_bytes ws = concat (map word_bytes ws)"

lemma length_memory_bytes [simp]: "length (memory_bytes ws) = 4 * length ws"
  by (induction ws) (simp_all add: memory_bytes_def word_bytes_def)

lemma nth_memory_bytes: "i < length ws \<Longrightarrow> k < 4 \<Longrightarrow> memory_bytes ws ! (i * 4 + k) = word_bytes (ws ! i) ! k"
proof (induction ws arbitrary: i)
  case (Cons w ws)
  have m: "memory_bytes (w # ws) = word_bytes w @ memory_bytes ws" "length (word_bytes w) = 4"
    by (simp_all add: memory_bytes_def word_bytes_def)
  show ?case
  proof (cases i)
    case 0
    with Cons.prems m show ?thesis by (simp add: nth_append)
  next
    case (Suc j)
    then have "i * 4 + k = length (word_bytes w) + (j * 4 + k)" using m(2) by simp
    then show ?thesis unfolding m(1) using Cons.IH [of j] Cons.prems Suc by (simp only: nth_append_length_plus) simp
  qed
qed simp

text \<open>Sampling every fourth pixel undoes the enlargement.\<close>

lemma sampled_upscaled:
  assumes "i < 57600"
  shows "sampled (memory_bytes (upscaled xs)) i = rgb_bytes (xs ! i)"
proof -
  let ?j = "i div 320 * 4 * 1280 + i mod 320 * 4"
  have m: "i mod 320 < 320" "i div 320 < 180" using assms by simp_all
  have "?j < 921600" using m by simp
  moreover have "?j div 5120 = i div 320" using m(1) by (intro div_nat_eqI) simp_all
  moreover have "?j mod 1280 = i mod 320 * 4" using m(1) mod_mult_self3 [of "i div 320 * 4" 1280 "i mod 320 * 4"] by simp
  ultimately have "upscaled xs ! ?j = xs ! i" by (simp add: upscaled_def)
  moreover have "memory_bytes (upscaled xs) ! (?j * 4 + k) = word_bytes (upscaled xs ! ?j) ! k" if "k < 4" for k
    using that \<open>?j < 921600\<close> by (intro nth_memory_bytes) (simp_all add: upscaled_def)
  from this [of 0] this [of 1] this [of 2] have "sampled (memory_bytes (upscaled xs)) i =
      [word_bytes (upscaled xs ! ?j) ! 0, word_bytes (upscaled xs ! ?j) ! 1, word_bytes (upscaled xs ! ?j) ! 2]"
    unfolding sampled_def Let_def by (simp only: add_0_right)
  ultimately show ?thesis by (simp add: word_bytes_def rgb_bytes_def)
qed

text \<open>
  Claim C8. The whole way of a picture from the renderer to the network and back: after any picture of
  the running demo, the bitmap the framebuffer server builds from the bytes of the framebuffer is a
  well-formed 24-bit bitmap, and decoding it gives the logical frame the demo drew, all 57600 pixels
  with their red, green and blue bytes unchanged.
\<close>

theorem screenshot_is_the_picture:
  assumes "sine_bounded sines" "demo_reachable fuel ops sines w0 d" "show_frame sines d d'"
  shows "\<exists>b. build_bitmap (memory_bytes (px_heap (mem (sys d')) fb)) = Some b \<and> length b = BMP_BYTES \<and>
    decode_bmp b = Some (320, 180, map rgb_bytes (px_heap (mem (sys d')) low))"
proof -
  let ?h = "px_heap (mem (sys d'))"
  have "demo_inv d" by (rule reachable_demo_inv [OF assms(2,1)])
  then have i: "demo_inv d'" and s: "?h fb = upscaled (?h low)"
    by (rule show_outcome [OF assms(1) _ assms(3)]; blast)+
  have l: "length (?h low) = 57600" "length (?h fb) = 921600" using i by (simp_all add: demo_inv_def buffers_ok_def)
  then have "length (memory_bytes (?h fb)) = FB_BYTES" by simp
  from decode_build [OF this] obtain b where b: "build_bitmap (memory_bytes (?h fb)) = Some b" "length b = BMP_BYTES"
    "decode_bmp b = Some (320, 180, map (sampled (memory_bytes (?h fb))) [0..<57600])" by blast
  have "map (sampled (memory_bytes (?h fb))) [0..<57600] = map rgb_bytes (?h low)"
    unfolding s using l(1) by (intro nth_equalityI) (simp_all add: sampled_upscaled)
  with b show ?thesis by simp
qed

theorem screenshot_is_the_picture_witness:
  "\<exists>d' b. show_frame flat_sines first_state d' \<and> build_bitmap (memory_bytes (px_heap (mem (sys d')) fb)) = Some b \<and>
     decode_bmp b = Some (320, 180, map rgb_bytes (px_heap (mem (sys d')) low))"
proof -
  have w: "sine_bounded flat_sines" by (rule flat_sines_bounded)
  have r: "demo_reachable 1 quiet_ops flat_sines 0 first_state" by (rule demo_reachable.intros(1) [OF first_start])
  obtain d' where s: "show_frame flat_sines first_state d'" using show_exists [OF w reachable_demo_inv [OF r w]] by blast
  from screenshot_is_the_picture [OF w r s] s show ?thesis by blast
qed

end
